(* ===== verification/Prelude.thy ===== *)
theory Prelude
  imports Main "HOL-Library.Word"
begin

text \<open>
  Shared ground of the development: the machine integer types of the C++ code, bytes and
  byte strings, the conversion between the two views of a \<open>std::string\<close> (text and raw
  bytes), the fact collections the component theories fill, and generic lemmas on lists
  and words.

  \<^item> \<open>u8\<close>, \<open>u16\<close>, \<open>u32\<close>, \<open>u64\<close> are \<open>uint8_t\<close>, \<open>uint16_t\<close>, \<open>uint32_t\<close>, \<open>uint64_t\<close>;
    \<open>size_t\<close> is 64 bits wide wherever its wrap-around is observable.
  \<^item> A \<open>std::string\<close> that carries text is a \<open>string\<close>; one that carries octets is a
    list of \<open>u8\<close>. Both hold the same 8-bit units, and \<open>bytes_of_string\<close> and
    \<open>string_of_bytes\<close> go back and forth.
\<close>

unbundle bit_operations_syntax

type_synonym u8 = "8 word"
type_synonym u16 = "16 word"
type_synonym u32 = "32 word"
type_synonym u64 = "64 word"
type_synonym bytes = "u8 list"

named_theorems codec_simps "unfolding rules of encoders and decoders"
named_theorems bit_facts "bit patterns of word expressions"
named_theorems frame_simps "fields a step leaves alone"

subsection \<open>The two views of a string\<close>

definition u8_of_char :: "char \<Rightarrow> u8" where
  "u8_of_char c = word_of_nat (of_char c)"

definition char_of_u8 :: "u8 \<Rightarrow> char" where
  "char_of_u8 b = char_of (unat b)"

abbreviation bytes_of_string :: "string \<Rightarrow> bytes" where
  "bytes_of_string s \<equiv> map u8_of_char s"

abbreviation string_of_bytes :: "bytes \<Rightarrow> string" where
  "string_of_bytes bs \<equiv> map char_of_u8 bs"

lemma unat_u8_less [simp]: "unat (b :: u8) < 256"
  using unsigned_less [of b] by simp

lemma char_of_u8_of_char [simp]: "char_of_u8 (u8_of_char c) = c"
  by (simp add: u8_of_char_def char_of_u8_def unat_of_nat take_bit_eq_mod)

lemma u8_of_char_of_u8 [simp]: "u8_of_char (char_of_u8 b) = b"
proof -
  have "unat b < 256" by simp
  then show ?thesis by (simp add: u8_of_char_def char_of_u8_def of_char_of)
qed

lemma string_of_bytes_of_string [simp]: "string_of_bytes (bytes_of_string s) = s"
  by (induction s) auto

lemma bytes_of_string_of_bytes [simp]: "bytes_of_string (string_of_bytes b) = b"
  by (induction b) auto

subsection \<open>Bytes by exhaustion\<close>

lemma all_bytes:
  assumes "list_all (\<lambda>n. P (word_of_nat n :: u8)) [0..<256]"
  shows "\<forall>c. P c"
proof
  fix c :: u8
  from assms have "\<forall>n\<in>set [0..<256]. P (word_of_nat n)" by (simp only: list_all_iff)
  moreover have "unat c \<in> set [0..<256]" by simp
  ultimately have "P (word_of_nat (unat c))" by (rule bspec)
  then show "P c" by simp
qed

lemma unat_u8: "n < 256 \<Longrightarrow> unat (word_of_nat n :: u8) = n"
  by (simp add: unat_of_nat take_bit_eq_mod)

lemma u8_bit_high [simp]: "8 \<le> n \<Longrightarrow> \<not> bit (a :: u8) n"
  using bit_imp_le_length [of a n] by auto

end
