(* ===== verification/Utf8.thy ===== *)
theory Utf8
  imports Prelude "HOL-Library.Sublist"
begin

text \<open>
  The \<open>utf8_validator\<close> of \<open>include/asyncpp/curl/util.h\<close>: the five modes, the three
  results, and \<open>validate\<close> with its switch over the number of leading one bits, whose
  cases fall through from 6 to 2. The position \<open>*last_pos\<close> is the offset from the start
  of the view.
\<close>

subsection \<open>The validator\<close>

datatype mode = Mode_none | Mode_normal | Mode_strict | Mode_pedantic | Mode_extreme

datatype result = Invalid | Valid | Valid_incomplete

text \<open>\<open>std::countl_one\<close> on an \<open>unsigned char\<close>.\<close>

definition countl_one :: "u8 \<Rightarrow> nat" where
  "countl_one c =
     (if \<not> bit c 7 then 0 else if \<not> bit c 6 then 1 else if \<not> bit c 5 then 2
      else if \<not> bit c 4 then 3 else if \<not> bit c 3 then 4 else if \<not> bit c 2 then 5
      else if \<not> bit c 1 then 6 else if \<not> bit c 0 then 7 else 8)"

text \<open>
  The initial code point \<open>c & ((1 << (7 - bits)) - 1)\<close>. For the byte \<open>0xff\<close> the source
  shifts by \<open>-1\<close>, which C++ leaves undefined; the value is not read, since the switch
  takes its default branch, and the model has the mask 0 there.
\<close>

definition lead_codepoint :: "u8 \<Rightarrow> u32" where
  "lead_codepoint c = ucast c AND (push_bit (7 - countl_one c) 1 - 1)"

text \<open>One continuation byte: \<open>(c & 0xc0) == 0x80\<close> and \<open>codepoint << 6 | c & 0x3f\<close>.\<close>

definition is_cont :: "u8 \<Rightarrow> bool" where
  "is_cont c \<longleftrightarrow> c AND 0xc0 = 0x80"

definition add_cont :: "u32 \<Rightarrow> u8 \<Rightarrow> u32" where
  "add_cont cp c = (push_bit 6 cp OR (ucast c AND 0x3f))"

text \<open>
  The labels \<open>case 2\<close> to \<open>case 6\<close>: each reads one byte and falls through to the next.
  \<open>Inl r\<close> is a return of \<open>r\<close>, \<open>Inr (cp, rest)\<close> leaves the switch.
\<close>

definition case_2 :: "mode \<Rightarrow> u32 \<Rightarrow> bytes \<Rightarrow> result + (u32 \<times> bytes)" where
  "case_2 m cp bs = (case bs of
       [] \<Rightarrow> Inl (if m = Mode_normal \<or> m = Mode_strict then Valid_incomplete
                  else if push_bit 6 cp > 0x10FFFF then Invalid else Valid_incomplete)
     | c # rest \<Rightarrow> if \<not> is_cont c then Inl Invalid else Inr (add_cont cp c, rest))"

definition case_3 :: "mode \<Rightarrow> u32 \<Rightarrow> bytes \<Rightarrow> result + (u32 \<times> bytes)" where
  "case_3 m cp bs = (case bs of
       [] \<Rightarrow> Inl (if m = Mode_normal \<or> m = Mode_strict then Valid_incomplete
                  else if push_bit 12 cp > 0x10FFFF then Invalid else Valid_incomplete)
     | c # rest \<Rightarrow> if \<not> is_cont c then Inl Invalid else case_2 m (add_cont cp c) rest)"

definition case_4 :: "mode \<Rightarrow> u32 \<Rightarrow> bytes \<Rightarrow> result + (u32 \<times> bytes)" where
  "case_4 m cp bs = (case bs of
       [] \<Rightarrow> Inl (if m = Mode_normal \<or> m = Mode_strict then Valid_incomplete
                  else if push_bit 18 cp > 0x10FFFF then Invalid else Valid_incomplete)
     | c # rest \<Rightarrow> if \<not> is_cont c then Inl Invalid else case_3 m (add_cont cp c) rest)"

definition case_5 :: "mode \<Rightarrow> u32 \<Rightarrow> bytes \<Rightarrow> result + (u32 \<times> bytes)" where
  "case_5 m cp bs = (if m \<noteq> Mode_normal then Inl Invalid else case bs of
       [] \<Rightarrow> Inl (if m = Mode_normal \<or> m = Mode_strict then Valid_incomplete else Invalid)
     | c # rest \<Rightarrow> if \<not> is_cont c then Inl Invalid else case_4 m (add_cont cp c) rest)"

definition case_6 :: "mode \<Rightarrow> u32 \<Rightarrow> bytes \<Rightarrow> result + (u32 \<times> bytes)" where
  "case_6 m cp bs = (if m \<noteq> Mode_normal then Inl Invalid else case bs of
       [] \<Rightarrow> Inl (if m = Mode_normal \<or> m = Mode_strict then Valid_incomplete else Invalid)
     | c # rest \<Rightarrow> if \<not> is_cont c then Inl Invalid else case_5 m (add_cont cp c) rest)"

definition switch_bits :: "mode \<Rightarrow> nat \<Rightarrow> u32 \<Rightarrow> bytes \<Rightarrow> result + (u32 \<times> bytes)" where
  "switch_bits m bits cp rest =
     (if bits = 6 then case_6 m cp rest
      else if bits = 5 then case_5 m cp rest
      else if bits = 4 then case_4 m cp rest
      else if bits = 3 then case_3 m cp rest
      else if bits = 2 then case_2 m cp rest
      else Inl Invalid)"

text \<open>The checks after the switch, in the order of the source; False is \<open>result::invalid\<close>.\<close>

definition check_shortest :: "u32 \<Rightarrow> nat \<Rightarrow> bool" where
  "check_shortest cp bits \<longleftrightarrow>
     \<not> (cp < 128 \<and> bits \<noteq> 0) \<and> \<not> (cp < 2048 \<and> bits > 2) \<and>
     \<not> (cp < 65536 \<and> bits > 3) \<and> \<not> (cp < 1048576 \<and> bits > 4)"

definition check_pedantic :: "u32 \<Rightarrow> bool" where
  "check_pedantic cp \<longleftrightarrow>
     \<not> (cp \<ge> 0xd800 \<and> cp \<le> 0xdfff) \<and> \<not> (cp AND 0xffe0ffff = 0xfeff) \<and>
     \<not> (cp \<ge> 0xfdd0 \<and> cp \<le> 0xfdef) \<and> \<not> (cp > 0x10FFFF)"

definition check_extreme :: "u32 \<Rightarrow> bool" where
  "check_extreme cp \<longleftrightarrow> \<not> (cp AND 0xffe0ffff = 0xffff \<or> cp AND 0xffe0ffff = 0xfffe)"

definition check_codepoint :: "mode \<Rightarrow> u32 \<Rightarrow> nat \<Rightarrow> bool" where
  "check_codepoint m cp bits \<longleftrightarrow>
     (m \<in> {Mode_strict, Mode_pedantic, Mode_extreme} \<longrightarrow> check_shortest cp bits) \<and>
     (m \<in> {Mode_pedantic, Mode_extreme} \<longrightarrow> check_pedantic cp) \<and>
     (m = Mode_extreme \<longrightarrow> check_extreme cp)"

lemma case_2_shrinks: "case_2 m cp bs = Inr (cp', rest) \<Longrightarrow> length rest < length bs"
  by (auto simp: case_2_def split: list.splits if_splits)

lemma case_3_shrinks: "case_3 m cp bs = Inr (cp', rest) \<Longrightarrow> length rest < length bs"
  by (auto simp: case_3_def dest!: case_2_shrinks split: list.splits if_splits)

lemma case_4_shrinks: "case_4 m cp bs = Inr (cp', rest) \<Longrightarrow> length rest < length bs"
  by (auto simp: case_4_def dest!: case_3_shrinks split: list.splits if_splits)

lemma case_5_shrinks: "case_5 m cp bs = Inr (cp', rest) \<Longrightarrow> length rest < length bs"
  by (auto simp: case_5_def dest!: case_4_shrinks split: list.splits if_splits)

lemma case_6_shrinks: "case_6 m cp bs = Inr (cp', rest) \<Longrightarrow> length rest < length bs"
  by (auto simp: case_6_def dest!: case_5_shrinks split: list.splits if_splits)

lemma switch_bits_shrinks:
  "switch_bits m bits cp bs = Inr (cp', rest) \<Longrightarrow> length rest < length bs"
  by (auto simp: switch_bits_def split: if_splits
      dest: case_2_shrinks case_3_shrinks case_4_shrinks case_5_shrinks case_6_shrinks)

text \<open>
  The loop of \<open>validate<m>\<close>; \<open>off\<close> is the offset of the iterator from \<open>sv.begin()\<close>, the
  second component of the result is what \<open>*last_pos\<close> holds on return.
\<close>

function validate_loop :: "mode \<Rightarrow> nat \<Rightarrow> bytes \<Rightarrow> result \<times> nat" where
  "validate_loop m off [] = (Valid, off)"
| "validate_loop m off (c # rest) =
     (let bits = countl_one c; codepoint = lead_codepoint c in
      if bits = 0 then validate_loop m (off + 1) rest
      else case switch_bits m bits codepoint rest of
          Inl r \<Rightarrow> (r, off)
        | Inr (cp, rest') \<Rightarrow>
            if \<not> check_codepoint m cp bits then (Invalid, off)
            else validate_loop m (off + (1 + length rest - length rest')) rest')"
  by pat_completeness auto
termination
  by (relation "measure (\<lambda>(m, off, bs). length bs)") (auto dest: switch_bits_shrinks)

definition validate :: "mode \<Rightarrow> bytes \<Rightarrow> result \<times> nat" where
  "validate m sv = (if m = Mode_none then (Valid, length sv) else validate_loop m 0 sv)"

end
