(* ===== verification/Resumable.thy ===== *)
theory Resumable
  imports Utf8
begin

text \<open>
  The contract between the UTF-8 validator and the websocket client, which validates a
  fragmented text message piece by piece: it keeps the fragments received so far and the
  offset \<open>*last_pos\<close> of the last check (\<open>fragment_payload\<close> and
  \<open>fragment_validate_offset\<close> in \<open>src/curl/websocket.cpp\<close>) and checks only what lies
  behind that offset. The locale states what such a client may rely on, and proves once
  that checking the tail gives the verdict on the whole message.
\<close>

definition in_step :: "(bytes \<Rightarrow> result \<times> nat) \<Rightarrow> bytes \<Rightarrow> nat \<Rightarrow> bool" where
  "in_step check buf off \<longleftrightarrow> fst (check buf) \<noteq> Invalid \<and> off = snd (check buf)"

locale resumable_validator =
  fixes check :: "bytes \<Rightarrow> result \<times> nat"
  assumes check_Nil: "check [] = (Valid, 0)"
    and check_bound: "snd (check xs) \<le> length xs"
    and check_resume: "fst (check xs) \<noteq> Invalid \<Longrightarrow>
      check (xs @ ys) = (fst (check (drop (snd (check xs)) xs @ ys)),
                         snd (check xs) + snd (check (drop (snd (check xs)) xs @ ys)))"
    and check_fail_fast: "fst (check xs) = Invalid \<Longrightarrow> fst (check (xs @ ys)) = Invalid"
begin

lemma in_step_start: "in_step check [] 0"
  by (simp add: in_step_def check_Nil)

lemma in_step_drop: "in_step check buf off \<Longrightarrow> drop off (buf @ frag) = drop off buf @ frag"
  using check_bound [of buf] by (simp add: in_step_def)

lemma in_step_result:
  assumes "in_step check buf off"
  shows "fst (check (drop off (buf @ frag))) = fst (check (buf @ frag))"
  using check_resume [of buf frag] assms in_step_drop [OF assms] by (simp add: in_step_def)

lemma in_step_feed:
  assumes "in_step check buf off" and "fst (check (drop off (buf @ frag))) \<noteq> Invalid"
  shows "in_step check (buf @ frag) (off + snd (check (drop off (buf @ frag))))"
  using check_resume [of buf frag] assms in_step_drop [OF assms(1)] by (simp add: in_step_def)

lemma fail_fast_sound:
  "fst (check (xs @ ys)) \<noteq> Invalid \<Longrightarrow> fst (check xs) \<noteq> Invalid"
  using check_fail_fast by blast

end

end
