(* ===== verification/Utf8_Props.thy ===== *)
theory Utf8_Props
  imports Resumable
begin

text \<open>
  Facts about the validator: the arithmetic of its bit operations, the equivalence of the
  strict modes with an arithmetic definition of UTF-8, and the interpretation of the
  contract \<open>resumable_validator\<close> for every mode.
\<close>

subsection \<open>A definition of UTF-8 by arithmetic\<close>

text \<open>
  \<open>utf8_encode\<close> is the encoding of RFC 3629 (extended to 21 bits, as four bytes can carry),
  and \<open>allowed\<close> the code points each mode means to let through. Neither mentions a bit
  operation or the order in which the validator works.
\<close>

definition utf8_encode :: "nat \<Rightarrow> bytes" where
  "utf8_encode n = map word_of_nat
     (if n < 0x80 then [n]
      else if n < 0x800 then [192 + n div 64, 128 + n mod 64]
      else if n < 0x10000 then [224 + n div 4096, 128 + n div 64 mod 64, 128 + n mod 64]
      else [240 + n div 262144, 128 + n div 4096 mod 64, 128 + n div 64 mod 64, 128 + n mod 64])"

definition allowed :: "mode \<Rightarrow> nat \<Rightarrow> bool" where
  "allowed m n \<longleftrightarrow>
     n < 0x200000 \<and>
     (m \<in> {Mode_pedantic, Mode_extreme} \<longrightarrow>
        n \<le> 0x10FFFF \<and> \<not> (0xD800 \<le> n \<and> n \<le> 0xDFFF) \<and> \<not> (0xFDD0 \<le> n \<and> n \<le> 0xFDEF) \<and>
        n mod 0x10000 \<noteq> 0xFEFF) \<and>
     (m = Mode_extreme \<longrightarrow> n mod 0x10000 \<notin> {0xFFFE, 0xFFFF})"

definition unicode_scalar :: "nat \<Rightarrow> bool" where
  "unicode_scalar n \<longleftrightarrow> n \<le> 0x10FFFF \<and> \<not> (0xD800 \<le> n \<and> n \<le> 0xDFFF)"

subsection \<open>The bit operations as arithmetic\<close>

lemma countl_one_range:
  "\<forall>c. countl_one c =
     (if unat c < 128 then 0 else if unat c < 192 then 1 else if unat c < 224 then 2
      else if unat c < 240 then 3 else if unat c < 248 then 4 else if unat c < 252 then 5
      else if unat c < 254 then 6 else if unat c < 255 then 7 else 8)"
  by (rule all_bytes) code_simp

lemma is_cont_range: "\<forall>c. is_cont c \<longleftrightarrow> 128 \<le> unat c \<and> unat c < 192"
  by (rule all_bytes) code_simp

lemma unat_lead_codepoint: "unat (lead_codepoint c) = unat c mod 2 ^ (7 - countl_one c)"
proof -
  have "unat c < 2 ^ 32" using unat_u8_less [of c] by (rule less_trans) simp
  have "lead_codepoint c = take_bit (7 - countl_one c) (ucast c)"
    by (simp add: lead_codepoint_def take_bit_eq_mask mask_eq_exp_minus_1 push_bit_eq_mult)
  then have "unat (lead_codepoint c) = take_bit (7 - countl_one c) (unat (ucast c :: u32))"
    by (simp only: unsigned_take_bit_eq)
  also have "unat (ucast c :: u32) = unat c" using \<open>unat c < 2 ^ 32\<close> by (simp add: unsigned_ucast_eq take_bit_nat_eq_self)
  finally show ?thesis by (simp only: take_bit_eq_mod)
qed

lemma cont_payload: "\<forall>c. unat ((ucast (c::u8) :: u32) AND 0x3f) = unat c mod 64"
  by (rule all_bytes) code_simp

lemma unat_add_cont:
  assumes "unat cp < 2 ^ 26" "is_cont c"
  shows "unat (add_cont cp c) = unat cp * 64 + (unat c - 128)"
proof -
  have c: "128 \<le> unat c" "unat c < 192" using assms(2) is_cont_range by auto
  have m6: "(0x3f :: u32) = mask 6" by (simp add: mask_eq_exp_minus_1)
  have "add_cont cp c = push_bit 6 cp + (ucast c AND 0x3f)"
    unfolding add_cont_def m6
    by (rule disjunctive_add [symmetric]) (auto simp: bit_simps)
  also have "unat \<dots> = unat cp * 64 + unat c mod 64"
    using assms(1) cont_payload 
    by (simp add: unat_word_ariths push_bit_eq_mult) 
  also have "unat c mod 64 = unat c - 128"
  proof -
    from c(1) obtain k where "unat c = 128 + k" by (auto simp: le_iff_add)
    with c(2) have "k < 64" by simp
    then have "(2 * 64 + k) mod 64 = k" by (simp only: mod_mult_self3 mod_less)
    with \<open>unat c = 128 + k\<close> show ?thesis by auto
  qed
  finally show ?thesis .
qed

lemmas byte_ranges = countl_one_range [rule_format] is_cont_range [rule_format]

definition next_cp :: "mode \<Rightarrow> u8 \<Rightarrow> bytes \<Rightarrow> result + (u32 \<times> bytes)" where
  "next_cp m c rest =
     (if countl_one c = 0 then Inr (lead_codepoint c, rest)
      else case switch_bits m (countl_one c) (lead_codepoint c) rest of
          Inl r \<Rightarrow> Inl r
        | Inr (cp, rest') \<Rightarrow> if check_codepoint m cp (countl_one c) then Inr (cp, rest') else Inl Invalid)"

lemma plane_mask:
  assumes "unat (cp::u32) < 0x200000"
  shows "unat (cp AND 0xffe0ffff) = unat cp mod 0x10000"
proof -
  have "cp AND 0xffe0ffff = take_bit 16 cp"
  proof (rule bit_word_eqI)
    fix n assume "n < LENGTH(32)"
    have "\<not> bit cp n" if "n \<ge> 21"
    proof -
      have "cp = take_bit 21 cp" using assms
        by (simp add: word_unat_eq_iff unsigned_take_bit_eq take_bit_nat_eq_self)
      then show ?thesis using that by (metis bit_take_bit_iff linorder_not_le)
    qed
    moreover have "bit (0xffe0ffff::u32) n \<longleftrightarrow> n < 16 \<or> 21 \<le> n \<and> n < 32"
    proof -
      have "list_all (\<lambda>n. bit (0xffe0ffff::u32) n \<longleftrightarrow> n < 16 \<or> 21 \<le> n \<and> n < 32) [0..<32]"
       by code_simp
      with \<open>n < LENGTH(32)\<close> show ?thesis by (simp add: list_all_iff)
    qed
    ultimately show "bit (cp AND 0xffe0ffff) n \<longleftrightarrow> bit (take_bit 16 cp) n"
      by (auto simp: bit_simps)
  qed
  then have "unat (cp AND 0xffe0ffff) = take_bit 16 (unat cp)"
    by (simp only: unsigned_take_bit_eq)
  then show ?thesis by (simp only: take_bit_eq_mod) simp
qed


lemma check_shortest_nat:
  "bits \<in> {2,3,4} \<Longrightarrow> check_shortest cp bits \<longleftrightarrow>
    unat cp \<ge> 128 \<and> (bits > 2 \<longrightarrow> unat cp \<ge> 0x800) \<and> (bits > 3 \<longrightarrow> unat cp \<ge> 0x10000)"
  by (auto simp: check_shortest_def word_less_nat_alt)

lemma check_pedantic_nat:
  assumes "unat cp < 0x200000"
  shows "check_pedantic cp \<longleftrightarrow> unat cp \<le> 0x10FFFF \<and> \<not> (0xD800 \<le> unat cp \<and> unat cp \<le> 0xDFFF) \<and>
     \<not> (0xFDD0 \<le> unat cp \<and> unat cp \<le> 0xFDEF) \<and> unat cp mod 0x10000 \<noteq> 0xFEFF"
proof -
  have "cp AND 0xffe0ffff = 0xfeff \<longleftrightarrow> unat cp mod 0x10000 = 0xFEFF"
    by (simp only: word_unat_eq_iff plane_mask [OF assms]) simp
  then show ?thesis
    by (simp add: check_pedantic_def word_less_nat_alt word_le_nat_alt) linarith
qed

lemma check_extreme_nat:
  assumes "unat cp < 0x200000"
  shows "check_extreme cp \<longleftrightarrow> unat cp mod 0x10000 \<notin> {0xFFFE, 0xFFFF}"
proof -
  have "cp AND 0xffe0ffff = 0xffff \<longleftrightarrow> unat cp mod 0x10000 = 0xFFFF"
    "cp AND 0xffe0ffff = 0xfffe \<longleftrightarrow> unat cp mod 0x10000 = 0xFFFE"
    by (simp_all only: word_unat_eq_iff plane_mask [OF assms]) simp_all
  then show ?thesis by (auto simp add: check_extreme_def)
qed

lemma check_codepoint_allowed:
  assumes "unat cp < 0x200000" "m \<notin> {Mode_none, Mode_normal}"
    and "bits \<in> {2,3,4}"
  shows "check_codepoint m cp bits \<longleftrightarrow> allowed m (unat cp) \<and> unat cp \<ge> 128 \<and> (bits > 2 \<longrightarrow> unat cp \<ge> 0x800) \<and> (bits > 3 \<longrightarrow> unat cp \<ge> 0x10000)"
  using assms(2)
  unfolding check_codepoint_def check_shortest_nat [OF assms(3)] check_pedantic_nat [OF assms(1)] check_extreme_nat [OF assms(1)] allowed_def
  by (cases m) (use assms(1) in blast)+



lemma cont_of_nat:
  assumes "k < 64"
  shows "is_cont (word_of_nat (128 + k))" "unat (word_of_nat (128 + k) :: u8) = 128 + k"
proof -
  have u: "unat (word_of_nat (128 + k) :: u8) = 128 + k" using assms by (intro unat_u8) simp
  then show "unat (word_of_nat (128 + k) :: u8) = 128 + k" .
  show "is_cont (word_of_nat (128 + k))" unfolding byte_ranges u using assms by simp
qed

lemma cont_obtain:
  assumes "is_cont c"
  obtains k where "k < 64" "c = word_of_nat (128 + k)" "unat c = 128 + k"
proof -
  from assms have r: "128 \<le> unat c" "unat c < 192" by (auto simp: byte_ranges)
  from r(1) obtain k where k: "unat c = 128 + k" by (auto simp: le_iff_add)
  then have "c = word_of_nat (128 + k)" by (metis of_nat_unat ucast_id)
  with k r show thesis by (intro that [of k]) auto
qed

lemma cont_step:
  assumes "unat cp < 2 ^ 26"
  shows "(\<exists>c bs'. bs = c # bs' \<and> is_cont c \<and> Q (add_cont cp c) bs') \<longleftrightarrow>
    (\<exists>k<64. \<exists>bs'. bs = word_of_nat (128 + k) # bs' \<and> (\<exists>cp2. unat cp2 = unat cp * 64 + k \<and> Q cp2 bs'))"
    (is "?l \<longleftrightarrow> ?r")
proof
  assume ?l
  then obtain c bs' where c: "bs = c # bs'" "is_cont c" "Q (add_cont cp c) bs'" by blast
  from c(2) obtain k where k: "k < 64" "c = word_of_nat (128 + k)" "unat c = 128 + k" by (rule cont_obtain)
  have "unat (add_cont cp c) = unat cp * 64 + k" using unat_add_cont [OF assms c(2)] k(3) by simp
  with c k(1,2) show ?r by blast
next
  assume ?r
  then obtain k bs' cp2 where k: "k < 64" "bs = word_of_nat (128 + k) # bs'"
    "unat cp2 = unat cp * 64 + k" "Q cp2 bs'" by blast
  note c = cont_of_nat [OF k(1)]
  have "cp2 = add_cont cp (word_of_nat (128 + k))"
    using unat_add_cont [OF assms c(1)] c(2) k(3) by (simp add: word_unat_eq_iff)
  with k c(1) show ?l by blast
qed

lemma case_2_Inr_step: "case_2 m cp bs = Inr (cp', rest) \<longleftrightarrow>
    (\<exists>c bs'. bs = c # bs' \<and> is_cont c \<and> (add_cont cp c = cp' \<and> bs' = rest))"
  and case_3_Inr_step: "case_3 m cp bs = Inr (cp', rest) \<longleftrightarrow>
    (\<exists>c bs'. bs = c # bs' \<and> is_cont c \<and> case_2 m (add_cont cp c) bs' = Inr (cp', rest))"
  and case_4_Inr_step: "case_4 m cp bs = Inr (cp', rest) \<longleftrightarrow>
    (\<exists>c bs'. bs = c # bs' \<and> is_cont c \<and> case_3 m (add_cont cp c) bs' = Inr (cp', rest))"
  by (auto simp: case_2_def case_3_def case_4_def split: list.splits if_splits)

lemma case_2_Inr:
  assumes "unat cp < 2 ^ 26"
  shows "case_2 m cp bs = Inr (cp', rest) \<longleftrightarrow>
    (\<exists>k<64. bs = word_of_nat (128 + k) # rest \<and> unat cp' = unat cp * 64 + k)"
  unfolding case_2_Inr_step
    cont_step [OF assms, where Q = "\<lambda>cp2 bs'. cp2 = cp' \<and> bs' = rest"] by blast

lemma case_3_Inr:
  assumes "unat cp < 2 ^ 20"
  shows "case_3 m cp bs = Inr (cp', rest) \<longleftrightarrow>
    (\<exists>k<64. \<exists>j<64. bs = word_of_nat (128 + k) # word_of_nat (128 + j) # rest \<and>
       unat cp' = (unat cp * 64 + k) * 64 + j)"
proof -
  have b: "unat cp < 2 ^ 26" using assms by simp
  have *: "(\<exists>cp2. unat cp2 = unat cp * 64 + k \<and> case_2 m cp2 bs' = Inr (cp', rest)) \<longleftrightarrow>
      (\<exists>j<64. bs' = word_of_nat (128 + j) # rest \<and> unat cp' = (unat cp * 64 + k) * 64 + j)"
    if k: "k < 64" for k bs'
  proof -
    have "unat (word_of_nat (unat cp * 64 + k) :: u32) = unat cp * 64 + k"
      using k assms by (simp add: unat_of_nat take_bit_eq_mod del: of_nat_add)
    moreover have "case_2 m cp2 bs' = Inr (cp', rest) \<longleftrightarrow> (\<exists>j<64. bs' = word_of_nat (128 + j) # rest \<and> unat cp' = unat cp2 * 64 + j)"
      if "unat cp2 = unat cp * 64 + k" for cp2
      using that k assms by (intro case_2_Inr) simp
    ultimately show ?thesis by (smt (verit))
  qed
  show ?thesis
    unfolding case_3_Inr_step
      cont_step [OF b, where Q = "\<lambda>cp2 bs'. case_2 m cp2 bs' = Inr (cp', rest)"]
    using * by blast
qed

lemma case_4_Inr:
  assumes "unat cp < 2 ^ 14"
  shows "case_4 m cp bs = Inr (cp', rest) \<longleftrightarrow>
    (\<exists>k<64. \<exists>j<64. \<exists>i<64. bs = word_of_nat (128 + k) # word_of_nat (128 + j) # word_of_nat (128 + i) # rest \<and>
       unat cp' = ((unat cp * 64 + k) * 64 + j) * 64 + i)"
proof -
  have b: "unat cp < 2 ^ 26" using assms by simp
  have *: "(\<exists>cp2. unat cp2 = unat cp * 64 + k \<and> case_3 m cp2 bs' = Inr (cp', rest)) \<longleftrightarrow>
      (\<exists>j<64. \<exists>i<64. bs' = word_of_nat (128 + j) # word_of_nat (128 + i) # rest \<and> unat cp' = ((unat cp * 64 + k) * 64 + j) * 64 + i)"
    if k: "k < 64" for k bs'
  proof -
    have "unat (word_of_nat (unat cp * 64 + k) :: u32) = unat cp * 64 + k"
      using k assms by (simp add: unat_of_nat take_bit_eq_mod del: of_nat_add)
    moreover have "case_3 m cp2 bs' = Inr (cp', rest) \<longleftrightarrow> (\<exists>j<64. \<exists>i<64. bs' = word_of_nat (128 + j) # word_of_nat (128 + i) # rest \<and> unat cp' = (unat cp2 * 64 + j) * 64 + i)"
      if "unat cp2 = unat cp * 64 + k" for cp2
      using that k assms by (intro case_3_Inr) simp
    ultimately show ?thesis by (smt (verit))
  qed
  show ?thesis
    unfolding case_4_Inr_step
      cont_step [OF b, where Q = "\<lambda>cp2 bs'. case_3 m cp2 bs' = Inr (cp', rest)"]
    using * by blast
qed

lemma base64_digits:
  fixes a k j i :: nat
  assumes "k < 64" "j < 64" "i < 64"
  shows "(a * 64 + k) div 64 = a" "(a * 64 + k) mod 64 = k"
    "((a * 64 + k) * 64 + j) div 4096 = a" "((a * 64 + k) * 64 + j) div 64 = a * 64 + k"
    "(((a * 64 + k) * 64 + j) * 64 + i) div 262144 = a"
    "(((a * 64 + k) * 64 + j) * 64 + i) div 4096 = a * 64 + k"
proof -
  have d: "(x * 64 + y) div 64 = x" if "y < 64" for x y :: nat using that by simp
  have e: "n div 4096 = n div 64 div 64" "n div 262144 = n div 64 div 64 div 64" for n :: nat
    by (simp_all add: div_mult2_eq [symmetric])
  show "(a * 64 + k) div 64 = a" "(a * 64 + k) mod 64 = k"
    "((a * 64 + k) * 64 + j) div 4096 = a" "((a * 64 + k) * 64 + j) div 64 = a * 64 + k"
    "(((a * 64 + k) * 64 + j) * 64 + i) div 262144 = a"
    "(((a * 64 + k) * 64 + j) * 64 + i) div 4096 = a * 64 + k"
    using assms by (simp_all only: e d) simp
qed

lemma base64_join:
  fixes n :: nat
  shows "n div 64 * 64 + n mod 64 = n"
    "(n div 4096 * 64 + n div 64 mod 64) * 64 + n mod 64 = n"
    "((n div 262144 * 64 + n div 4096 mod 64) * 64 + n div 64 mod 64) * 64 + n mod 64 = n"
proof -
  have e: "m div 4096 = m div 64 div 64" "m div 262144 = m div 64 div 64 div 64" for m :: nat
    by (simp_all add: div_mult2_eq [symmetric])
  show "n div 64 * 64 + n mod 64 = n"
    "(n div 4096 * 64 + n div 64 mod 64) * 64 + n mod 64 = n"
    "((n div 262144 * 64 + n div 4096 mod 64) * 64 + n div 64 mod 64) * 64 + n mod 64 = n"
    by (simp_all only: e div_mult_mod_eq)
qed

lemma lead_of_nat_aux:
  assumes "l + v < 256" "countl_one (word_of_nat (l + v)) = b" "l = q * 2 ^ (7 - b)" "v < 2 ^ (7 - b)"
  shows "countl_one (word_of_nat (l + v)) = b \<and> unat (lead_codepoint (word_of_nat (l + v))) = v"
  using assms(2,4) unfolding unat_lead_codepoint assms(2) unat_u8 [OF assms(1)]
  by (simp add: assms(3))

lemma countl_one_of_nat:
  "v < 256 \<Longrightarrow> countl_one (word_of_nat v) = (if v < 128 then 0 else if v < 192 then 1 else if v < 224 then 2
      else if v < 240 then 3 else if v < 248 then 4 else if v < 252 then 5
      else if v < 254 then 6 else if v < 255 then 7 else 8)"
  by (simp only: byte_ranges unat_u8)

lemma lead_of_nat:
  "v < 128 \<Longrightarrow> countl_one (word_of_nat v) = 0 \<and> unat (lead_codepoint (word_of_nat v)) = v"
  "v < 32 \<Longrightarrow> countl_one (word_of_nat (192 + v)) = 2 \<and> unat (lead_codepoint (word_of_nat (192 + v))) = v"
  "v < 16 \<Longrightarrow> countl_one (word_of_nat (224 + v)) = 3 \<and> unat (lead_codepoint (word_of_nat (224 + v))) = v"
  "v < 8 \<Longrightarrow> countl_one (word_of_nat (240 + v)) = 4 \<and> unat (lead_codepoint (word_of_nat (240 + v))) = v"
  subgoal using lead_of_nat_aux [of 0 v 0 0] countl_one_of_nat [of v] by simp
  subgoal using countl_one_of_nat [of "192 + v"] by (intro lead_of_nat_aux [where q = 6]) auto
  subgoal using countl_one_of_nat [of "224 + v"] by (intro lead_of_nat_aux [where q = 14]) auto
  subgoal using countl_one_of_nat [of "240 + v"] by (intro lead_of_nat_aux [where q = 30]) auto
  done

lemma lead_cases:
  assumes "countl_one c = b"
  shows "b = 0 \<Longrightarrow> \<exists>v<128. c = word_of_nat v" "b = 2 \<Longrightarrow> \<exists>v<32. c = word_of_nat (192 + v)"
    "b = 3 \<Longrightarrow> \<exists>v<16. c = word_of_nat (224 + v)" "b = 4 \<Longrightarrow> \<exists>v<8. c = word_of_nat (240 + v)"
proof -
  have c: "c = word_of_nat (unat c)" by simp
  have *: "\<exists>v<k. c = word_of_nat (l + v)" if "l \<le> unat c" "unat c < l + k" for l k
  proof (intro exI conjI)
    show "unat c - l < k" using that by simp
    show "c = word_of_nat (l + (unat c - l))" using that c by (metis le_add_diff_inverse)
  qed
  show "b = 0 \<Longrightarrow> \<exists>v<128. c = word_of_nat v" using * [of 0 128] assms by (auto simp: byte_ranges split: if_splits)
  show "b = 2 \<Longrightarrow> \<exists>v<32. c = word_of_nat (192 + v)" using * [of 192 32] assms by (auto simp: byte_ranges split: if_splits)
  show "b = 3 \<Longrightarrow> \<exists>v<16. c = word_of_nat (224 + v)" using * [of 224 16] assms by (auto simp: byte_ranges split: if_splits)
  show "b = 4 \<Longrightarrow> \<exists>v<8. c = word_of_nat (240 + v)" using * [of 240 8] assms by (auto simp: byte_ranges split: if_splits)
qed

lemma next_cp_strict_Inr:
  assumes "m \<notin> {Mode_none, Mode_normal}"
  shows "next_cp m c rest = Inr (cp, rest') \<longleftrightarrow>
     countl_one c = 0 \<and> cp = lead_codepoint c \<and> rest' = rest \<or>
     countl_one c = 2 \<and> case_2 m (lead_codepoint c) rest = Inr (cp, rest') \<and> check_codepoint m cp 2 \<or>
     countl_one c = 3 \<and> case_3 m (lead_codepoint c) rest = Inr (cp, rest') \<and> check_codepoint m cp 3 \<or>
     countl_one c = 4 \<and> case_4 m (lead_codepoint c) rest = Inr (cp, rest') \<and> check_codepoint m cp 4"
  using assms by (auto simp: next_cp_def switch_bits_def case_5_def case_6_def split: sum.splits if_splits)

lemma next_cp_sound:
  assumes m: "m \<notin> {Mode_none, Mode_normal}" and n: "next_cp m c rest = Inr (cp, rest')"
  shows "allowed m (unat cp) \<and> c # rest = utf8_encode (unat cp) @ rest'"
proof -
  from n[unfolded next_cp_strict_Inr [OF m]] consider
    (one) "countl_one c = 0" "cp = lead_codepoint c" "rest' = rest"
    | (two) "countl_one c = 2" "case_2 m (lead_codepoint c) rest = Inr (cp, rest')" "check_codepoint m cp 2"
    | (three) "countl_one c = 3" "case_3 m (lead_codepoint c) rest = Inr (cp, rest')" "check_codepoint m cp 3"
    | (four) "countl_one c = 4" "case_4 m (lead_codepoint c) rest = Inr (cp, rest')" "check_codepoint m cp 4"
    by metis
  then show ?thesis
  proof cases
    case one
    then obtain v where v: "v < 128" "c = word_of_nat v" using lead_cases(1) [OF one(1)] by auto
    then have "unat cp = v" using one lead_of_nat(1) by auto
    then show ?thesis using v one by (simp add: allowed_def utf8_encode_def)
  next
    case two
    then obtain v where v: "v < 32" "c = word_of_nat (192 + v)" using lead_cases(2) [OF two(1)] by auto
    then have l: "unat (lead_codepoint c) = v" using lead_of_nat(2) by blast
    with v(1) obtain k where k: "k < 64" "rest = word_of_nat (128 + k) # rest'" "unat cp = v * 64 + k"
      using two(2) by (auto simp: case_2_Inr)
    then have "unat cp < 2048" using v(1) by simp
    with two(3) m have "allowed m (unat cp)" "128 \<le> unat cp" by (simp_all add: check_codepoint_allowed)
    with k v \<open>unat cp < 2048\<close> base64_digits [OF k(1) k(1) k(1), of v] show ?thesis
      by (simp add: utf8_encode_def del: of_nat_add)
  next
    case three
    then obtain v where v: "v < 16" "c = word_of_nat (224 + v)" using lead_cases(3) [OF three(1)] by auto
    then have l: "unat (lead_codepoint c) = v" using lead_of_nat(3) by blast
    with v(1) obtain k j where k: "k < 64" "j < 64" "rest = word_of_nat (128 + k) # word_of_nat (128 + j) # rest'"
      "unat cp = (v * 64 + k) * 64 + j"
      using three(2) by (auto simp: case_3_Inr)
    then have "unat cp < 65536" using v(1) by simp
    with three(3) m have "allowed m (unat cp)" "2048 \<le> unat cp" by (simp_all add: check_codepoint_allowed)
    moreover have "unat cp div 4096 = v" "unat cp div 64 mod 64 = k" "unat cp mod 64 = j"
      unfolding k(4) by (simp_all only: base64_digits [OF k(1,2,1)] base64_digits [OF k(2,1,1)])
    ultimately show ?thesis
      using k(3) v(2) \<open>unat cp < 65536\<close> by (simp add: utf8_encode_def del: of_nat_add)
  next
    case four
    then obtain v where v: "v < 8" "c = word_of_nat (240 + v)" using lead_cases(4) [OF four(1)] by auto
    then have l: "unat (lead_codepoint c) = v" using lead_of_nat(4) by blast
    with v(1) obtain k j i where k: "k < 64" "j < 64" "i < 64" 
      "rest = word_of_nat (128 + k) # word_of_nat (128 + j) # word_of_nat (128 + i) # rest'"
      "unat cp = ((v * 64 + k) * 64 + j) * 64 + i"
      using four(2) by (auto simp: case_4_Inr)
    then have b: "unat cp < 0x200000" using v(1) by simp
    with four(3) m have "allowed m (unat cp)" "65536 \<le> unat cp" by (simp_all add: check_codepoint_allowed)
    moreover have "unat cp div 262144 = v" "unat cp div 4096 mod 64 = k" "unat cp div 64 mod 64 = j" "unat cp mod 64 = i"
      unfolding k(5)
      by (simp_all only: base64_digits [OF k(1-3)] base64_digits [OF k(2,3,1)] base64_digits [OF k(3,1,2)])
    ultimately show ?thesis
      using k(4) v(2) by (simp add: utf8_encode_def del: of_nat_add)
  qed
qed

lemma next_cp_complete:
  assumes m: "m \<notin> {Mode_none, Mode_normal}" and a: "allowed m (unat cp)"
    and e: "c # rest = utf8_encode (unat cp) @ rest'"
  shows "next_cp m c rest = Inr (cp, rest')"
proof -
  let ?n = "unat cp"
  have b: "?n < 0x200000" using a by (simp add: allowed_def)
  consider "?n < 0x80" | "0x80 \<le> ?n" "?n < 0x800" | "0x800 \<le> ?n" "?n < 0x10000" | "0x10000 \<le> ?n"
    by linarith
  then show ?thesis
  proof cases
    case 1
    with e have c: "c = word_of_nat ?n" "rest = rest'" by (auto simp: utf8_encode_def)
    with lead_of_nat(1) [OF 1] have "countl_one c = 0" "unat (lead_codepoint c) = ?n" by (simp_all only: c)
    then show ?thesis
      unfolding next_cp_strict_Inr [OF m] using c(2) by (simp add: word_unat_eq_iff)
  next
    case 2
    with e have c: "c = word_of_nat (192 + ?n div 64)" "rest = word_of_nat (128 + ?n mod 64) # rest'"
      by (auto simp: utf8_encode_def)
    have l: "countl_one c = 2" "unat (lead_codepoint c) = ?n div 64" using lead_of_nat(2) [of "?n div 64"] 2 c by auto
    have "check_codepoint m cp 2" using check_codepoint_allowed [OF b m] a 2 by simp
    moreover have "case_2 m (lead_codepoint c) rest = Inr (cp, rest')"
      using l b c(2) by (subst case_2_Inr) (auto intro!: exI [of _ "?n mod 64"] simp del: of_nat_add)
    ultimately show ?thesis unfolding next_cp_strict_Inr [OF m] using l(1) by blast
  next
    case 3
    with e have c: "c = word_of_nat (224 + ?n div 4096)" "rest = word_of_nat (128 + ?n div 64 mod 64) # word_of_nat (128 + ?n mod 64) # rest'"
      by (auto simp: utf8_encode_def)
    have l: "countl_one c = 3" "unat (lead_codepoint c) = ?n div 4096" using lead_of_nat(3) [of "?n div 4096"] 3 c by auto
    have "check_codepoint m cp 3" using check_codepoint_allowed [OF b m] a 3 by simp
    moreover have "case_3 m (lead_codepoint c) rest = Inr (cp, rest')"
    proof -
      have "unat (lead_codepoint c) < 2 ^ 20" using l(2) 3 by simp
      from case_3_Inr [OF this, of m rest cp rest'] show ?thesis
        unfolding l(2) c(2) using base64_join(2) [of ?n]
        by (metis mod_less_divisor zero_less_numeral)
    qed
    ultimately show ?thesis unfolding next_cp_strict_Inr [OF m] using l(1) by blast
  next
    case 4
    with e have c: "c = word_of_nat (240 + ?n div 262144)" "rest = word_of_nat (128 + ?n div 4096 mod 64) # word_of_nat (128 + ?n div 64 mod 64) # word_of_nat (128 + ?n mod 64) # rest'"
      by (auto simp: utf8_encode_def)
    have l: "countl_one c = 4" "unat (lead_codepoint c) = ?n div 262144" using lead_of_nat(4) [of "?n div 262144"] 4 b c by auto
    have "check_codepoint m cp 4" using check_codepoint_allowed [OF b m] a 4 by simp
    moreover have "case_4 m (lead_codepoint c) rest = Inr (cp, rest')"
    proof -
      have "unat (lead_codepoint c) < 2 ^ 14" using l(2) b by simp
      from case_4_Inr [OF this, of m rest cp rest'] show ?thesis
        unfolding l(2) c(2) using base64_join(3) [of ?n]
        by (metis mod_less_divisor zero_less_numeral)
    qed
    ultimately show ?thesis unfolding next_cp_strict_Inr [OF m] using l(1) by blast
  qed
qed

subsection \<open>The loop, one code point at a time\<close>

lemma next_cp_shrinks: "next_cp m c rest = Inr (cp, rest') \<Longrightarrow> length rest' \<le> length rest"
  by (auto simp: next_cp_def dest: switch_bits_shrinks split: sum.splits if_splits)

lemma validate_loop_Cons:
  "validate_loop m off (c # rest) = (case next_cp m c rest of
      Inl r \<Rightarrow> (r, off)
    | Inr (cp, rest') \<Rightarrow> validate_loop m (off + (1 + length rest - length rest')) rest')"
  by (simp add: next_cp_def Let_def split: sum.splits)

declare validate_loop.simps(2) [simp del] 
declare validate_loop_Cons [simp]

lemma next_cp_induct [case_names Nil Cons]:
  assumes "P []"
    and "\<And>c rest. (\<And>cp rest'. next_cp m c rest = Inr (cp, rest') \<Longrightarrow> P rest') \<Longrightarrow> P (c # rest)"
  shows "P bs"
proof (induction bs rule: length_induct)
  case (1 bs)
  then show ?case using assms next_cp_shrinks [of m] by (cases bs) (auto simp: less_Suc_eq_le)
qed

lemma validate_loop_shift:
  "validate_loop m (k + off) bs = (fst (validate_loop m off bs), k + snd (validate_loop m off bs))"
proof (induction bs arbitrary: off rule: next_cp_induct [where m = m])
  case (Cons c rest)
  then show ?case by (auto simp: add.assoc split: sum.splits)
qed simp

text \<open>
  A label that leaves the switch has read a prefix of its input, and would have read the
  same prefix whatever follows it.
\<close>

definition reads_prefix :: "(bytes \<Rightarrow> 'r + ('a \<times> bytes)) \<Rightarrow> bool" where
  "reads_prefix f \<longleftrightarrow> (\<forall>bs x rest. f bs = Inr (x, rest) \<longrightarrow>
     (\<exists>pre. bs = pre @ rest \<and> (\<forall>zs. f (pre @ zs) = Inr (x, zs))))"

lemma reads_prefix_case:
  assumes "\<And>c. P c \<Longrightarrow> reads_prefix (g c)"
    and "\<And>c bs. f (c # bs) = (if P c then g c bs else Inl r)" and "\<And>p. f [] \<noteq> Inr p"
  shows "reads_prefix f"
  unfolding reads_prefix_def
proof (intro allI impI)
  fix bs x rest assume f: "f bs = Inr (x, rest)"
  with assms(3) obtain c bs' where bs: "bs = c # bs'" by (cases bs) auto
  with f assms(2) have "P c" and g: "g c bs' = Inr (x, rest)" by (auto split: if_splits)
  from assms(1) [OF \<open>P c\<close>] g obtain pre where "bs' = pre @ rest" "\<forall>zs. g c (pre @ zs) = Inr (x, zs)"
    unfolding reads_prefix_def by blast
  with bs \<open>P c\<close> assms(2) show "\<exists>pre. bs = pre @ rest \<and> (\<forall>zs. f (pre @ zs) = Inr (x, zs))"
    by (intro exI [of _ "c # pre"]) simp
qed

lemma reads_prefix_cases:
  shows "reads_prefix (case_2 m cp)" "reads_prefix (case_3 m cp)" "reads_prefix (case_4 m cp)"
    "reads_prefix (case_5 m cp)" "reads_prefix (case_6 m cp)"
proof -
  have 0: "reads_prefix (\<lambda>bs. Inr (x, bs))" for x :: u32 by (simp add: reads_prefix_def)
  have 2: "reads_prefix (case_2 m cp)" for cp
    by (rule reads_prefix_case [where P = is_cont, OF 0]) (auto simp: case_2_def)
  have 3: "reads_prefix (case_3 m cp)" for cp
    by (rule reads_prefix_case [where P = is_cont, OF 2]) (auto simp: case_3_def)
  have 4: "reads_prefix (case_4 m cp)" for cp
    by (rule reads_prefix_case [where P = is_cont, OF 3]) (auto simp: case_4_def)
  have 5: "reads_prefix (case_5 m cp)" for cp
    by (rule reads_prefix_case [where P = "\<lambda>c. m = Mode_normal \<and> is_cont c", OF 4]) (auto simp: case_5_def)
  have 6: "reads_prefix (case_6 m cp)" for cp
    by (rule reads_prefix_case [where P = "\<lambda>c. m = Mode_normal \<and> is_cont c", OF 5]) (auto simp: case_6_def)
  from 2 3 4 5 6 show "reads_prefix (case_2 m cp)" "reads_prefix (case_3 m cp)" "reads_prefix (case_4 m cp)"
    "reads_prefix (case_5 m cp)" "reads_prefix (case_6 m cp)" by blast+
qed

lemma reads_prefix_switch_bits: "reads_prefix (switch_bits m b cp)"
proof -
  have "reads_prefix (\<lambda>bs. Inl Invalid :: result + (u32 \<times> bytes))" by (simp add: reads_prefix_def)
  with reads_prefix_cases show ?thesis
    by (cases "b \<in> {2, 3, 4, 5, 6}") (auto simp: switch_bits_def [abs_def])
qed

lemma switch_bits_append:
  "switch_bits m b cp bs = Inr (cp', rest) \<Longrightarrow> switch_bits m b cp (bs @ ys) = Inr (cp', rest @ ys)"
  using reads_prefix_switch_bits [of m b cp] unfolding reads_prefix_def by fastforce

lemma next_cp_prefix:
  assumes "next_cp m c rest = Inr (cp, rest')"
  obtains pre where "rest = pre @ rest'" "\<And>zs. next_cp m c (pre @ zs) = Inr (cp, zs)"
proof -
  have "\<exists>pre. rest = pre @ rest' \<and> (\<forall>zs. next_cp m c (pre @ zs) = Inr (cp, zs))"
  proof (cases "countl_one c = 0")
    case True
    with assms show ?thesis by (auto simp: next_cp_def)
  next
    case False
    with assms have "switch_bits m (countl_one c) (lead_codepoint c) rest = Inr (cp, rest')"
      and ok: "check_codepoint m cp (countl_one c)"
      by (auto simp: next_cp_def split: sum.splits if_splits)
    with reads_prefix_switch_bits [of m "countl_one c" "lead_codepoint c"] obtain pre
      where "rest = pre @ rest'" "\<forall>zs. switch_bits m (countl_one c) (lead_codepoint c) (pre @ zs) = Inr (cp, zs)"
      unfolding reads_prefix_def by blast
    with ok False show ?thesis by (intro exI [of _ pre]) (simp add: next_cp_def)
  qed
  with that show thesis by blast
qed

lemma next_cp_suffix:
  "next_cp m c rest = Inr (cp, rest') \<Longrightarrow> rest' = drop (1 + length rest - length rest') (c # rest)"
  by (elim next_cp_prefix) simp

lemma next_cp_append:
  "next_cp m c rest = Inr (cp, rest') \<Longrightarrow> next_cp m c (rest @ ys) = Inr (cp, rest' @ ys)"
  by (elim next_cp_prefix) simp

text \<open>The early returns of the pedantic modes reject only what no continuation can repair.\<close>

definition hopeless :: "mode \<Rightarrow> result + (u32 \<times> bytes) \<Rightarrow> bool" where
  "hopeless m r \<longleftrightarrow> r = Inl Invalid \<or>
     (m \<in> {Mode_pedantic, Mode_extreme} \<and> (\<exists>cp rest. r = Inr (cp, rest) \<and> 0x10FFFF < unat cp))"

lemma unat_push_bit:
  assumes "unat (cp :: u32) < 2 ^ k" "k + n \<le> 32"
  shows "unat (push_bit n cp) = unat cp * 2 ^ n"
proof -
  have "unat cp * 2 ^ n < 2 ^ k * 2 ^ n" using assms(1) by simp
  also have "\<dots> = 2 ^ (k + n)" by (rule power_add [symmetric])
  also have "\<dots> \<le> 2 ^ 32" using assms(2) by (rule power_increasing) simp
  finally have "unat cp * 2 ^ n < 2 ^ 32" .
  then have "take_bit 32 (push_bit n (unat cp)) = unat cp * 2 ^ n"
    unfolding push_bit_eq_mult by (rule take_bit_nat_eq_self)
  then show ?thesis by (simp only: unsigned_push_bit_eq len_num1 len_bit0 len_bit1) simp
qed


lemma hopeless_cont:
  "case_2 m cp (c # bs) = (if is_cont c then Inr (add_cont cp c, bs) else Inl Invalid)"
  "case_3 m cp (c # bs) = (if is_cont c then case_2 m (add_cont cp c) bs else Inl Invalid)"
  "case_4 m cp (c # bs) = (if is_cont c then case_3 m (add_cont cp c) bs else Inl Invalid)"
  by (simp_all add: case_2_def case_3_def case_4_def)

lemma add_cont_bounds:
  assumes "unat cp < 2 ^ n" "n \<le> 26" "is_cont c"
  shows "unat cp * 64 \<le> unat (add_cont cp c)" "unat (add_cont cp c) < 2 ^ n * 64"
proof -
  have "unat cp < 2 ^ 26" using assms(1) power_increasing [OF assms(2), of "2::nat"] by simp
  note u = unat_add_cont [OF this assms(3)]
  show "unat cp * 64 \<le> unat (add_cont cp c)" by (simp add: u)
  have "unat c < 192" using assms(3) by (simp add: byte_ranges)
  then show "unat (add_cont cp c) < 2 ^ n * 64" using assms(1) by (simp add: u)
qed

lemma case_Nil_Invalid:
  assumes "m \<in> {Mode_pedantic, Mode_extreme}"
  shows "unat cp < 2 ^ 26 \<Longrightarrow> case_2 m cp [] = Inl (if 0x10FFFF < unat cp * 2 ^ 6 then Invalid else Valid_incomplete)"
    "unat cp < 2 ^ 20 \<Longrightarrow> case_3 m cp [] = Inl (if 0x10FFFF < unat cp * 2 ^ 12 then Invalid else Valid_incomplete)"
    "unat cp < 2 ^ 14 \<Longrightarrow> case_4 m cp [] = Inl (if 0x10FFFF < unat cp * 2 ^ 18 then Invalid else Valid_incomplete)"
  using assms unat_push_bit [of cp 26 6] unat_push_bit [of cp 20 12] unat_push_bit [of cp 14 18]
  by (auto simp add: case_2_def case_3_def case_4_def word_less_nat_alt)

lemma hopeless_big:
  assumes m: "m \<in> {Mode_pedantic, Mode_extreme}"
  shows hopeless_big_2: "\<And>cp bs. unat cp < 2 ^ 26 \<Longrightarrow> 0x10FFFF < unat cp * 2 ^ 6 \<Longrightarrow> hopeless m (case_2 m cp bs)"
    and hopeless_big_3: "\<And>cp bs. unat cp < 2 ^ 20 \<Longrightarrow> 0x10FFFF < unat cp * 2 ^ 12 \<Longrightarrow> hopeless m (case_3 m cp bs)"
    and hopeless_big_4: "\<And>cp bs. unat cp < 2 ^ 14 \<Longrightarrow> 0x10FFFF < unat cp * 2 ^ 18 \<Longrightarrow> hopeless m (case_4 m cp bs)"
proof -
  show two: "hopeless m (case_2 m cp bs)" if "unat cp < 2 ^ 26" "0x10FFFF < unat cp * 2 ^ 6" for cp bs
  proof (cases bs)
    case Nil
    with that show ?thesis by (simp add: case_Nil_Invalid [OF m] hopeless_def)
  next
    case (Cons c bs')
    have "0x10FFFF < unat (add_cont cp c)" if c: "is_cont c"
      using add_cont_bounds(1) [OF \<open>unat cp < 2 ^ 26\<close> _ c] \<open>0x10FFFF < unat cp * 2 ^ 6\<close> by simp
    then show ?thesis using m by (auto simp: Cons hopeless_cont hopeless_def)
  qed
  show three: "hopeless m (case_3 m cp bs)" if "unat cp < 2 ^ 20" "0x10FFFF < unat cp * 2 ^ 12" for cp bs
  proof (cases bs)
    case Nil
    with that show ?thesis by (simp add: case_Nil_Invalid [OF m] hopeless_def)
  next
    case (Cons c bs')
    have "hopeless m (case_2 m (add_cont cp c) bs')" if c: "is_cont c"
      using add_cont_bounds [OF \<open>unat cp < 2 ^ 20\<close> _ c] \<open>0x10FFFF < unat cp * 2 ^ 12\<close> by (intro two) simp_all
    then show ?thesis by (simp add: Cons hopeless_cont hopeless_def)
  qed
  show "hopeless m (case_4 m cp bs)" if "unat cp < 2 ^ 14" "0x10FFFF < unat cp * 2 ^ 18" for cp bs
  proof (cases bs)
    case Nil
    with that show ?thesis by (simp add: case_Nil_Invalid [OF m] hopeless_def)
  next
    case (Cons c bs')
    have "hopeless m (case_3 m (add_cont cp c) bs')" if c: "is_cont c"
      using add_cont_bounds [OF \<open>unat cp < 2 ^ 14\<close> _ c] \<open>0x10FFFF < unat cp * 2 ^ 18\<close> by (intro three) simp_all
    then show ?thesis by (simp add: Cons hopeless_cont hopeless_def)
  qed
qed

lemma case_append_hopeless:
  assumes m: "m \<in> {Mode_pedantic, Mode_extreme}"
  shows "\<And>cp bs. unat cp < 2 ^ 26 \<Longrightarrow> case_2 m cp bs = Inl Invalid \<Longrightarrow> hopeless m (case_2 m cp (bs @ ys))"
    and "\<And>cp bs. unat cp < 2 ^ 20 \<Longrightarrow> case_3 m cp bs = Inl Invalid \<Longrightarrow> hopeless m (case_3 m cp (bs @ ys))"
    and "\<And>cp bs. unat cp < 2 ^ 14 \<Longrightarrow> case_4 m cp bs = Inl Invalid \<Longrightarrow> hopeless m (case_4 m cp (bs @ ys))"
proof -
  show two: "hopeless m (case_2 m cp (bs @ ys))" if "unat cp < 2 ^ 26" "case_2 m cp bs = Inl Invalid" for cp bs
    using that hopeless_big_2 [OF m]
    by (cases bs) (auto simp: case_Nil_Invalid [OF m] hopeless_cont hopeless_def split: if_splits)
  show three: "hopeless m (case_3 m cp (bs @ ys))" if "unat cp < 2 ^ 20" "case_3 m cp bs = Inl Invalid" for cp bs
    using that hopeless_big_3 [OF m] add_cont_bounds(2) [OF that(1)]
    by (cases bs) (auto simp: case_Nil_Invalid [OF m] hopeless_cont intro: two split: if_splits simp: hopeless_def [where r = "Inl _"])
  show "hopeless m (case_4 m cp (bs @ ys))" if "unat cp < 2 ^ 14" "case_4 m cp bs = Inl Invalid" for cp bs
    using that hopeless_big_4 [OF m] add_cont_bounds(2) [OF that(1)]
    by (cases bs) (auto simp: case_Nil_Invalid [OF m] hopeless_cont intro: three split: if_splits simp: hopeless_def [where r = "Inl _"])
qed


lemma case_2_append_Invalid:
  "m \<in> {Mode_normal, Mode_strict} \<Longrightarrow> case_2 m cp bs = Inl Invalid \<Longrightarrow> case_2 m cp (bs @ ys) = Inl Invalid"
  by (cases bs) (auto simp: case_2_def split: if_splits)

lemma case_3_append_Invalid:
  "m \<in> {Mode_normal, Mode_strict} \<Longrightarrow> case_3 m cp bs = Inl Invalid \<Longrightarrow> case_3 m cp (bs @ ys) = Inl Invalid"
  by (cases bs) (auto simp: case_3_def case_2_append_Invalid split: if_splits)

lemma case_4_append_Invalid:
  "m \<in> {Mode_normal, Mode_strict} \<Longrightarrow> case_4 m cp bs = Inl Invalid \<Longrightarrow> case_4 m cp (bs @ ys) = Inl Invalid"
  by (cases bs) (auto simp: case_4_def case_3_append_Invalid split: if_splits)

lemma case_5_append_Invalid:
  "m \<in> {Mode_normal, Mode_strict} \<Longrightarrow> case_5 m cp bs = Inl Invalid \<Longrightarrow> case_5 m cp (bs @ ys) = Inl Invalid"
  by (cases bs) (auto simp: case_5_def case_4_append_Invalid split: if_splits)

lemma case_6_append_Invalid:
  "m \<in> {Mode_normal, Mode_strict} \<Longrightarrow> case_6 m cp bs = Inl Invalid \<Longrightarrow> case_6 m cp (bs @ ys) = Inl Invalid"
  by (cases bs) (auto simp: case_6_def case_5_append_Invalid split: if_splits)

lemmas case_appends_Invalid = case_2_append_Invalid case_3_append_Invalid case_4_append_Invalid
  case_5_append_Invalid case_6_append_Invalid

lemma hopeless_checked:
  assumes "hopeless m r"
  shows "(case r of Inl x \<Rightarrow> Inl x | Inr (cp, rest) \<Rightarrow>
     if check_codepoint m cp b then Inr (cp, rest) else Inl Invalid) = Inl Invalid"
  using assms
  by (auto simp: hopeless_def check_codepoint_def check_pedantic_def word_less_nat_alt split: sum.splits)

lemma lead_codepoint_less: "2 \<le> countl_one c \<Longrightarrow> unat (lead_codepoint c) < 2 ^ 14"
  unfolding unat_lead_codepoint
  using power_increasing [of "7 - countl_one c" 14 "2 :: nat"]
  by (intro less_le_trans [OF mod_less_divisor]) simp_all

lemma next_cp_Invalid_append:
  assumes "m \<noteq> Mode_none" and i: "next_cp m c rest = Inl Invalid"
  shows "next_cp m c (rest @ ys) = Inl Invalid"
proof (cases "\<exists>cp rest'. switch_bits m (countl_one c) (lead_codepoint c) rest = Inr (cp, rest')")
  case True
  with i show ?thesis
    by (auto simp: next_cp_def switch_bits_append split: if_splits)
next
  case False
  let ?s = "switch_bits m (countl_one c) (lead_codepoint c)"
  from False i have n: "countl_one c \<noteq> 0" and s: "?s rest = Inl Invalid"
    by (auto simp: next_cp_def split: if_splits sum.splits)
  have "hopeless m (?s (rest @ ys))"
  proof (cases "m \<in> {Mode_normal, Mode_strict}")
    case True
    with s show ?thesis
      by (auto simp: switch_bits_def hopeless_def case_appends_Invalid split: if_splits)
  next
    case False
    with assms(1) have m: "m \<in> {Mode_pedantic, Mode_extreme}" by (cases m) auto
    have b: "2 \<le> countl_one c \<Longrightarrow> unat (lead_codepoint c) < 2 ^ 26" "2 \<le> countl_one c \<Longrightarrow> unat (lead_codepoint c) < 2 ^ 20"
      using lead_codepoint_less [of c] by simp_all
    from s m case_append_hopeless [OF m] b lead_codepoint_less [of c] show ?thesis
      by (auto simp: switch_bits_def hopeless_def [where r = "Inl _"] case_5_def case_6_def split: if_splits)
  qed
  from hopeless_checked [OF this] n show ?thesis by (simp add: next_cp_def)
qed

lemma next_cp_no_Valid: "next_cp m c rest \<noteq> Inl Valid"
proof -
  have "case_2 m cp bs \<noteq> Inl Valid" for cp bs by (auto simp: case_2_def split: list.splits)
  moreover from this have "case_3 m cp bs \<noteq> Inl Valid" for cp bs by (auto simp: case_3_def split: list.splits)
  moreover from this have "case_4 m cp bs \<noteq> Inl Valid" for cp bs by (auto simp: case_4_def split: list.splits)
  moreover from this have "case_5 m cp bs \<noteq> Inl Valid" for cp bs by (auto simp: case_5_def split: list.splits)
  moreover from this have "case_6 m cp bs \<noteq> Inl Valid" for cp bs by (auto simp: case_6_def split: list.splits)
  ultimately show ?thesis by (auto simp: next_cp_def switch_bits_def split: sum.splits)
qed

subsection \<open>What the strict modes accept\<close>

lemma utf8_encode_nonempty [simp]: "utf8_encode n \<noteq> []"
  by (simp add: utf8_encode_def)

lemma utf8_encode_Cons: "\<exists>c es. utf8_encode n = c # es"
  using utf8_encode_nonempty [of n] by (cases "utf8_encode n") auto

lemma validate_loop_Valid_iff:
  assumes m: "m \<notin> {Mode_none, Mode_normal}"
  shows "fst (validate_loop m off sv) = Valid \<longleftrightarrow>
    (\<exists>ns. (\<forall>n \<in> set ns. allowed m n) \<and> sv = concat (map utf8_encode ns))"
proof (induction sv arbitrary: off rule: next_cp_induct [where m = m])
  case Nil
  show ?case by (auto intro!: exI [of _ "[]"])
next
  case (Cons c rest)
  show ?case (is "?l \<longleftrightarrow> ?r")
  proof
    assume ?l
    then obtain cp rest' where n: "next_cp m c rest = Inr (cp, rest')"
      and v: "fst (validate_loop m (off + (1 + length rest - length rest')) rest') = Valid"
      by (auto split: sum.splits) (metis next_cp_no_Valid)
    from Cons [OF n] v obtain ns where ns: "\<forall>n \<in> set ns. allowed m n" "rest' = concat (map utf8_encode ns)" by blast
    from next_cp_sound [OF m n] ns show ?r
      by (intro exI [of _ "unat cp # ns"]) simp
  next
    assume ?r
    then obtain ns where ns: "\<forall>n \<in> set ns. allowed m n" "c # rest = concat (map utf8_encode ns)" by blast
    then obtain n ns' where n: "ns = n # ns'" by (cases ns) auto
    then have a: "allowed m n" using ns by simp
    then have u: "unat (word_of_nat n :: u32) = n" by (simp add: allowed_def unat_of_nat take_bit_nat_eq_self)
    have nx: "next_cp m c rest = Inr (word_of_nat n, concat (map utf8_encode ns'))"
      using a ns(2) n by (intro next_cp_complete [OF m]) (simp_all only: u list.map concat.simps)
    then show ?l using Cons [OF nx] ns(1) n by auto
  qed
qed

subsection \<open>Resuming at \<open>*last_pos\<close>\<close>

lemma validate_loop_bound: "snd (validate_loop m off bs) \<le> off + length bs"
proof (induction bs arbitrary: off rule: next_cp_induct [where m = m])
  case (Cons c rest)
  show ?case
  proof (cases "next_cp m c rest")
    case (Inr p)
    then obtain cp rest' where n: "next_cp m c rest = Inr (cp, rest')" by (cases p) auto
    from Cons [OF n, of "off + (1 + length rest - length rest')"] next_cp_shrinks [OF n] n
    show ?thesis by simp
  qed simp
qed simp

lemma validate_loop_resume:
  assumes "fst (validate_loop m off xs) \<noteq> Invalid"
  shows "off \<le> snd (validate_loop m off xs) \<and>
    validate_loop m off (xs @ ys) = validate_loop m (snd (validate_loop m off xs)) (drop (snd (validate_loop m off xs) - off) xs @ ys)"
  using assms
proof (induction xs arbitrary: off rule: next_cp_induct [where m = m])
  case Nil
  then show ?case by simp
next
  case (Cons c rest)
  show ?case
  proof (cases "next_cp m c rest")
    case (Inl r)
    with Cons.prems show ?thesis by simp
  next
    case (Inr p)
    then obtain cp rest' where n: "next_cp m c rest = Inr (cp, rest')" by (cases p) auto
    let ?k = "1 + length rest - length rest'"
    from Cons.prems n have "fst (validate_loop m (off + ?k) rest') \<noteq> Invalid" by simp
    from Cons.IH [OF n this] have le: "off + ?k \<le> snd (validate_loop m (off + ?k) rest')"
      and eq: "validate_loop m (off + ?k) (rest' @ ys) =
        validate_loop m (snd (validate_loop m (off + ?k) rest')) (drop (snd (validate_loop m (off + ?k) rest') - (off + ?k)) rest' @ ys)"
      by blast+
    have "snd (validate_loop m (off + ?k) rest') - off = (snd (validate_loop m (off + ?k) rest') - (off + ?k)) + ?k"
      using le by simp
    then have "drop (snd (validate_loop m (off + ?k) rest') - off) (c # rest) =
       drop (snd (validate_loop m (off + ?k) rest') - (off + ?k)) rest'"
      by (metis drop_drop next_cp_suffix [OF n])
    with n next_cp_append [OF n, of ys] eq le next_cp_shrinks [OF n] show ?thesis
      by simp
  qed
qed

lemma validate_loop_fail_fast:
  assumes "m \<noteq> Mode_none" "fst (validate_loop m off xs) = Invalid"
  shows "fst (validate_loop m off (xs @ ys)) = Invalid"
  using assms(2)
proof (induction xs arbitrary: off rule: next_cp_induct [where m = m])
  case (Cons c rest)
  show ?case
  proof (cases "next_cp m c rest")
    case (Inl r)
    with Cons.prems next_cp_Invalid_append [OF assms(1), of c rest ys] show ?thesis by simp
  next
    case (Inr p)
    then obtain cp rest' where n: "next_cp m c rest = Inr (cp, rest')" by (cases p) auto
    then show ?thesis
      using Cons.IH [OF n] Cons.prems next_cp_append [OF n, of ys] next_cp_shrinks [OF n] by simp
  qed
qed simp

interpretation utf8: resumable_validator "validate m" for m
proof unfold_locales
  fix xs ys :: bytes
  show "validate m [] = (Valid, 0)" by (simp add: validate_def)
  show "snd (validate m xs) \<le> length xs"
    using validate_loop_bound [of m 0 xs] by (simp add: validate_def)
  show "fst (validate m xs) = Invalid \<Longrightarrow> fst (validate m (xs @ ys)) = Invalid"
    using validate_loop_fail_fast by (simp add: validate_def split: if_splits)
  show "validate m (xs @ ys) = (fst (validate m (drop (snd (validate m xs)) xs @ ys)),
      snd (validate m xs) + snd (validate m (drop (snd (validate m xs)) xs @ ys)))"
    if "fst (validate m xs) \<noteq> Invalid"
    using that validate_loop_resume [of m 0 xs ys]
      validate_loop_shift [of m "snd (validate_loop m 0 xs)" 0 "drop (snd (validate_loop m 0 xs)) xs @ ys"]
    by (cases "m = Mode_none") (simp_all add: validate_def)
qed


lemma validate_loop_take:
  "validate_loop m off (take (snd (validate_loop m off bs) - off) bs) = (Valid, snd (validate_loop m off bs))
   \<and> off \<le> snd (validate_loop m off bs)"
proof (induction bs arbitrary: off rule: next_cp_induct [where m = m])
  case (Cons c rest)
  show ?case
  proof (cases "next_cp m c rest")
    case (Inr p)
    then obtain cp rest' where n: "next_cp m c rest = Inr (cp, rest')" by (cases p) auto
    then obtain pre where pre: "rest = pre @ rest'" "\<And>zs. next_cp m c (pre @ zs) = Inr (cp, zs)"
      by (rule next_cp_prefix) blast
    let ?off = "off + Suc (length pre)"
    let ?q = "snd (validate_loop m ?off rest')"
    have IH: "validate_loop m ?off (take (?q - ?off) rest') = (Valid, ?q)" "?off \<le> ?q"
      using Cons.IH [OF n, of ?off] by blast+
    from IH(2) obtain k where "?q = ?off + k" by (auto simp: le_iff_add)
    then have "take (?q - off) (c # rest) = c # pre @ take (?q - ?off) rest'"
      by (simp add: pre(1))
    with IH n pre show ?thesis by simp
  qed simp
qed simp

subsection \<open>Properties\<close>

text \<open>
  C3: in the modes strict, pedantic and extreme \<open>validate\<close> answers \<open>valid\<close> exactly for the
  concatenations of UTF-8 encodings, in their shortest form, of code points the mode allows.
\<close>

theorem validate_accepts_utf8:
  assumes "m \<in> {Mode_strict, Mode_pedantic, Mode_extreme}"
  shows "fst (validate m sv) = Valid \<longleftrightarrow>
    (\<exists>ns. (\<forall>n \<in> set ns. allowed m n) \<and> sv = concat (map utf8_encode ns))"
  using assms validate_loop_Valid_iff [of m 0 sv] by (auto simp: validate_def)

theorem validate_accepts_utf8_witness:
  "fst (validate Mode_pedantic [0xCE, 0xBA, 0xE1, 0xBD, 0xB9]) = Valid"
proof -
  have "(\<forall>n \<in> set [0x3BA, 0x1F79 :: nat]. allowed Mode_pedantic n) \<and>
     [0xCE, 0xBA, 0xE1, 0xBD, 0xB9] = concat (map utf8_encode [0x3BA, 0x1F79])"
    by (simp add: allowed_def utf8_encode_def)
  then show ?thesis
    using validate_accepts_utf8 [of Mode_pedantic "[0xCE, 0xBA, 0xE1, 0xBD, 0xB9]"] by blast
qed

text \<open>
  Validation can be resumed. When a prefix \<open>xs\<close> was not refused, the verdict and the
  position for \<open>xs @ ys\<close> are those of a check that starts at the position \<open>*last_pos\<close>
  left by the check of \<open>xs\<close>; in every mode.
\<close>

theorem validate_resumes:
  assumes "fst (validate m xs) \<noteq> Invalid"
  shows "validate m (xs @ ys) =
    (fst (validate m (drop (snd (validate m xs)) xs @ ys)),
     snd (validate m xs) + snd (validate m (drop (snd (validate m xs)) xs @ ys)))"
  using assms by (rule utf8.check_resume)

theorem validate_resumes_witness:
  "fst (validate Mode_pedantic [0x61, 0xCE]) = Valid_incomplete \<and>
   validate Mode_pedantic ([0x61, 0xCE] @ [0xBA]) = (Valid, 3)"
proof -
  have 1: "validate Mode_pedantic [0x61, 0xCE] = (Valid_incomplete, 1)" by code_simp
  have 2: "validate Mode_pedantic [0xCE, 0xBA] = (Valid, 2)" by code_simp
  have "fst (validate Mode_pedantic [0x61, 0xCE]) \<noteq> Invalid" by (simp add: 1)
  from validate_resumes [OF this, of "[0xBA]"] show ?thesis by (simp add: 1 2)
qed

text \<open>
  failing fast is sound. Once a prefix of the input is refused, no continuation makes
  it acceptable, so closing a connection on a bad fragment never refuses a good message.
\<close>

theorem validate_fails_fast:
  "fst (validate m xs) = Invalid \<Longrightarrow> fst (validate m (xs @ ys)) = Invalid"
  by (rule utf8.check_fail_fast)

theorem validate_fails_fast_witness:
  "fst (validate Mode_pedantic [0xF5]) = Invalid \<and> fst (validate Mode_pedantic ([0xF5] @ [0x80, 0x80, 0x80])) = Invalid"
proof -
  have "fst (validate Mode_pedantic [0xF5]) = Invalid" by code_simp
  with validate_fails_fast [OF this] show ?thesis by blast
qed

text \<open>
  On return \<open>*last_pos\<close> is within the view and everything before it is a complete and
  valid sequence; for a valid view it is the end.
\<close>

theorem validate_last_pos:
  "snd (validate m sv) \<le> length sv \<and>
   validate m (take (snd (validate m sv)) sv) = (Valid, snd (validate m sv)) \<and>
   (fst (validate m sv) = Valid \<longrightarrow> snd (validate m sv) = length sv)"
proof -
  have "validate m (take (snd (validate m sv)) sv) = (Valid, snd (validate m sv))"
    using validate_loop_take [of m 0 sv] utf8.check_bound [of m sv] by (simp add: validate_def)
  moreover have "fst (validate_loop m off bs) = Valid \<Longrightarrow> snd (validate_loop m off bs) = off + length bs" for off bs
  proof (induction bs arbitrary: off rule: next_cp_induct [where m = m])
    case (Cons c rest)
    then show ?case using next_cp_shrinks [of m c rest] next_cp_no_Valid [of m c rest]
      by (auto split: sum.splits)
  qed simp
  ultimately show ?thesis using utf8.check_bound [of m sv] by (simp add: validate_def)
qed

theorem validate_last_pos_witness:
  "snd (validate Mode_strict [0x61, 0xC0, 0xAF]) = 1 \<and> validate Mode_strict (take 1 [0x61, 0xC0, 0xAF]) = (Valid, 1)"
proof -
  have 1: "snd (validate Mode_strict [0x61, 0xC0, 0xAF]) = 1" by code_simp
  show ?thesis using validate_last_pos [of Mode_strict "[0x61, 0xC0, 0xAF]"] unfolding 1 by blast
qed

lemma utf8_encode_inj:
  assumes "allowed Mode_strict n" "allowed Mode_strict k" "utf8_encode n @ xs = utf8_encode k @ ys"
  shows "n = k"
proof -
  obtain c rest where c: "utf8_encode n @ xs = c # rest" using utf8_encode_Cons [of n] by auto
  have u: "unat (word_of_nat n :: u32) = n" "unat (word_of_nat k :: u32) = k"
    using assms(1,2) by (simp_all add: allowed_def unat_of_nat take_bit_nat_eq_self)
  have "next_cp Mode_strict c rest = Inr (word_of_nat n, xs)"
    using c assms(1) by (intro next_cp_complete) (simp_all only: u, simp_all)
  moreover have "next_cp Mode_strict c rest = Inr (word_of_nat k, ys)"
    using c assms(2,3) by (intro next_cp_complete) (simp_all only: u, simp_all)
  ultimately have "unat (word_of_nat n :: u32) = unat (word_of_nat k :: u32)" by simp
  then show ?thesis by (simp only: u)
qed

text \<open>
  The pedantic mode, the default of the websocket client, never accepts U+FEFF, nor the
  code points with the same low 16 bits on the other planes, although they are Unicode
  scalar values: a text that contains one, encoded correctly, is not \<open>valid\<close>.
\<close>

theorem pedantic_refuses_feff:
  assumes "plane < 17"
  shows "unicode_scalar (plane * 0x10000 + 0xFEFF) \<and>
    fst (validate Mode_pedantic (utf8_encode (plane * 0x10000 + 0xFEFF) @ rest)) \<noteq> Valid"
proof -
  let ?n = "plane * 0x10000 + 0xFEFF"
  have a: "allowed Mode_strict ?n" using assms by (simp add: allowed_def)
  have "False" if v: "fst (validate Mode_pedantic (utf8_encode ?n @ rest)) = Valid"
  proof -
    from validate_loop_Valid_iff [of Mode_pedantic 0] v obtain ns
      where ns: "\<forall>k \<in> set ns. allowed Mode_pedantic k" "utf8_encode ?n @ rest = concat (map utf8_encode ns)"
      by (auto simp: validate_def)
    obtain k ns' where k: "ns = k # ns'" using ns(2) by (cases ns) auto
    then have "allowed Mode_pedantic k" and e: "utf8_encode ?n @ rest = utf8_encode k @ concat (map utf8_encode ns')"
      using ns by auto
    then have "?n = k" by (intro utf8_encode_inj [OF a _ e]) (simp add: allowed_def)
    with \<open>allowed Mode_pedantic k\<close> show False by (auto simp: allowed_def)
  qed
  then show ?thesis using assms by (auto simp: unicode_scalar_def)
qed

theorem pedantic_refuses_feff_witness:
  "unicode_scalar 0xFEFF \<and> fst (validate Mode_pedantic [0xEF, 0xBB, 0xBF]) \<noteq> Valid"
  using pedantic_refuses_feff [of 0 "[]"] by (simp add: utf8_encode_def)

end
