(* ===== verification/Cpp_Std.thy ===== *)
theory Cpp_Std
  imports Prelude
begin

text \<open>
  What the sources use of the C++ standard library: exceptions as values, searching in
  \<open>std::string\<close> and \<open>std::string_view\<close> (a position is \<open>Some i\<close>, \<open>npos\<close> is \<open>None\<close>),
  \<open>std::to_string\<close>, \<open>std::stoi\<close>, \<open>std::stoul\<close> and \<open>std::stoull\<close>.
\<close>

subsection \<open>Exceptions\<close>

text \<open>
  \<open>Curl_exception code is_multi\<close> is \<open>asyncpp::curl::exception\<close>; the others are the
  standard exceptions the code throws or lets through.
\<close>

datatype cpp_error =
    Invalid_argument | Out_of_range | Logic_error | Runtime_error | Bad_alloc
  | Curl_exception int bool

text \<open>
  The outcome of code that may not end and may throw: \<open>None\<close> when it does not end,
  \<open>Some (Inl e)\<close> when it throws, \<open>Some (Inr x)\<close> when it returns.
\<close>

type_synonym 'a outcome = "(cpp_error + 'a) option"

abbreviation Ret :: "'a \<Rightarrow> 'a outcome" where
  "Ret x \<equiv> Some (Inr x)"

abbreviation Throw :: "cpp_error \<Rightarrow> 'a outcome" where
  "Throw e \<equiv> Some (Inl e)"

definition andthen :: "'a outcome \<Rightarrow> ('a \<Rightarrow> 'b outcome) \<Rightarrow> 'b outcome" where
  "andthen m f = (case m of None \<Rightarrow> None | Some (Inl e) \<Rightarrow> Throw e | Some (Inr x) \<Rightarrow> f x)"

lemma andthen_simps [simp]:
  "andthen None f = None" "andthen (Throw e) f = Throw e" "andthen (Ret x) f = f x"
  by (simp_all add: andthen_def)

lemma andthen_Ret: "andthen m f = Ret y \<longleftrightarrow> (\<exists>x. m = Ret x \<and> f x = Ret y)"
  by (auto simp: andthen_def split: option.splits sum.splits)

subsection \<open>Searching\<close>

fun find_if :: "('a \<Rightarrow> bool) \<Rightarrow> 'a list \<Rightarrow> nat option" where
  "find_if p [] = None"
| "find_if p (x # xs) = (if p x then Some 0 else map_option Suc (find_if p xs))"

fun find_last_if :: "('a \<Rightarrow> bool) \<Rightarrow> 'a list \<Rightarrow> nat option" where
  "find_last_if p [] = None"
| "find_last_if p (x # xs) =
     (case find_last_if p xs of Some i \<Rightarrow> Some (Suc i) | None \<Rightarrow> if p x then Some 0 else None)"

fun find_sub :: "'a list \<Rightarrow> 'a list \<Rightarrow> nat option" where
  "find_sub d [] = (if d = [] then Some 0 else None)"
| "find_sub d (x # xs) =
     (if take (length d) (x # xs) = d then Some 0 else map_option Suc (find_sub d xs))"

text \<open>\<open>s.find(d, offset)\<close>\<close>

definition find_from :: "'a list \<Rightarrow> 'a list \<Rightarrow> nat \<Rightarrow> nat option" where
  "find_from d s off = (if off > length s then None else map_option ((+) off) (find_sub d (drop off s)))"

text \<open>\<open>s.substr(pos, n)\<close> throws \<open>std::out_of_range\<close> when \<open>pos > s.size()\<close>; no \<open>n\<close> is \<open>npos\<close>.\<close>

definition substr :: "'a list \<Rightarrow> nat \<Rightarrow> nat \<Rightarrow> cpp_error + 'a list" where
  "substr s pos n = (if pos > length s then Inl Out_of_range else Inr (take n (drop pos s)))"

definition substr_npos :: "'a list \<Rightarrow> nat \<Rightarrow> cpp_error + 'a list" where
  "substr_npos s pos = (if pos > length s then Inl Out_of_range else Inr (drop pos s))"

subsection \<open>Characters and numbers\<close>

definition is_space :: "char \<Rightarrow> bool" where
  "is_space c \<longleftrightarrow> c \<in> {CHR 0x20, CHR 0x09, CHR 0x0A, CHR 0x0B, CHR 0x0C, CHR 0x0D}"

definition is_digit :: "char \<Rightarrow> bool" where
  "is_digit c \<longleftrightarrow> 48 \<le> (of_char c :: nat) \<and> (of_char c :: nat) \<le> 57"

definition digit_value :: "char \<Rightarrow> nat" where
  "digit_value c = of_char c - 48"

definition digit_char :: "nat \<Rightarrow> char" where
  "digit_char d = char_of (48 + d)"

fun nat_to_string :: "nat \<Rightarrow> string" where
  "nat_to_string n = (if n < 10 then [digit_char n] else nat_to_string (n div 10) @ [digit_char (n mod 10)])"

declare nat_to_string.simps [simp del]

definition int_to_string :: "int \<Rightarrow> string" where
  "int_to_string i = (if i < 0 then CHR ''-'' # nat_to_string (nat (- i)) else nat_to_string (nat i))"

definition read_digits :: "string \<Rightarrow> nat" where
  "read_digits s = foldl (\<lambda>n c. 10 * n + digit_value c) 0 s"

text \<open>
  The common part of \<open>strtol\<close> and \<open>strtoul\<close> in base 10: white space, an optional sign, the
  longest run of digits (\<open>None\<close> when it is empty); whatever follows is ignored.
\<close>

definition scan_number :: "string \<Rightarrow> (bool \<times> nat) option" where
  "scan_number s =
     (let t = dropWhile is_space s;
          neg = (case t of c # _ \<Rightarrow> c = CHR ''-'' | [] \<Rightarrow> False);
          u = (case t of c # t' \<Rightarrow> if c = CHR ''-'' \<or> c = CHR ''+'' then t' else t | [] \<Rightarrow> []);
          ds = takeWhile is_digit u
      in if ds = [] then None else Some (neg, read_digits ds))"

definition stoi :: "string \<Rightarrow> cpp_error + int" where
  "stoi s = (case scan_number s of
       None \<Rightarrow> Inl Invalid_argument
     | Some (neg, n) \<Rightarrow>
         let v = (if neg then - int n else int n) in
         if v < - (2 ^ 31) \<or> v > 2 ^ 31 - 1 then Inl Out_of_range else Inr v)"

text \<open>\<open>std::stoul\<close> and \<open>std::stoull\<close> are the same on a 64-bit target; a minus sign negates modulo \<open>2 ^ 64\<close>.\<close>

definition stoull :: "string \<Rightarrow> cpp_error + nat" where
  "stoull s = (case scan_number s of
       None \<Rightarrow> Inl Invalid_argument
     | Some (neg, n) \<Rightarrow>
         if n \<ge> 2 ^ 64 then Inl Out_of_range
         else Inr (if neg then (2 ^ 64 - n) mod 2 ^ 64 else n))"

subsection \<open>Facts on searching\<close>

lemma find_if_None_iff [simp]: "find_if p xs = None \<longleftrightarrow> (\<forall>x \<in> set xs. \<not> p x)"
  by (induction xs) auto

lemma find_if_takeWhile:
  "find_if p xs = Some i \<Longrightarrow> take i xs = takeWhile (\<lambda>x. \<not> p x) xs \<and> drop i xs = dropWhile (\<lambda>x. \<not> p x) xs \<and>
     i < length xs \<and> p (xs ! i)"
  by (induction xs arbitrary: i) (auto split: if_splits)

lemma find_if_hit: "\<forall>x \<in> set xs. \<not> p x \<Longrightarrow> p y \<Longrightarrow> find_if p (xs @ y # ys) = Some (length xs)"
  by (induction xs) auto

lemma find_last_if_None_iff [simp]: "find_last_if p xs = None \<longleftrightarrow> (\<forall>x \<in> set xs. \<not> p x)"
  by (induction xs) (auto split: option.splits)

lemma find_last_if_hit:
  "p y \<Longrightarrow> \<forall>x \<in> set ys. \<not> p x \<Longrightarrow> find_last_if p (xs @ y # ys) = Some (length xs)"
  by (induction xs) (auto split: option.splits)

lemma find_last_if_Some:
  "find_last_if p xs = Some i \<Longrightarrow> i < length xs \<and> p (xs ! i) \<and> (\<forall>x \<in> set (drop (Suc i) xs). \<not> p x)"
  by (induction xs arbitrary: i) (auto split: option.splits if_splits)

lemma find_sub_Some:
  "find_sub d s = Some i \<Longrightarrow> drop i s = d @ drop (i + length d) s \<and> i + length d \<le> length s"
proof (induction d s arbitrary: i rule: find_sub.induct)
  case (2 d x xs)
  show ?case
  proof (cases "take (length d) (x # xs) = d")
    case True
    with "2.prems" have "i = 0" by simp
    moreover have "length d \<le> length (x # xs)" using True by (metis length_take min.cobounded1)
    ultimately show ?thesis using True append_take_drop_id [of "length d" "x # xs"] by simp
  next
    case False
    with "2.prems" obtain j where "find_sub d xs = Some j" "i = Suc j" by auto
    with "2.IH" [OF False] show ?thesis by auto
  qed
qed (auto split: if_splits)

lemma find_sub_first:
  "find_sub d s = Some i \<Longrightarrow> j < i \<Longrightarrow> take (length d) (drop j s) \<noteq> d"
proof (induction d s arbitrary: i j rule: find_sub.induct)
  case (2 d x xs)
  then show ?case by (cases j) (auto split: if_splits)
qed (auto split: if_splits)

lemma find_sub_None: "find_sub d s = None \<Longrightarrow> take (length d) (drop j s) \<noteq> d"
proof (induction d s arbitrary: j rule: find_sub.induct)
  case (2 d x xs)
  then show ?case by (cases j) (auto split: if_splits)
qed (auto split: if_splits)

lemma find_sub_here: "d \<noteq> [] \<Longrightarrow> find_sub d (d @ ys) = Some 0"
  by (cases d) auto

lemma find_sub_skip:
  "d \<noteq> [] \<Longrightarrow> hd d \<notin> set xs \<Longrightarrow> find_sub d (xs @ ys) = map_option ((+) (length xs)) (find_sub d ys)"
proof (induction xs)
  case Nil
  show ?case by (cases "find_sub d ys") simp_all
next
  case (Cons x xs)
  have "take (length d) (x # xs @ ys) \<noteq> d" using Cons.prems by (cases d) auto
  with Cons show ?case by (cases "find_sub d ys") simp_all
qed

lemma find_sub_absent: "d \<noteq> [] \<Longrightarrow> hd d \<notin> set xs \<Longrightarrow> find_sub d xs = None"
  using find_sub_skip [of d xs "[]"] by simp

lemma find_sub_map: "inj f \<Longrightarrow> find_sub (map f d) (map f s) = find_sub d s"
proof (induction d s rule: find_sub.induct)
  case (2 d x xs)
  have "(take (length d) (map f (x # xs)) = map f d) = (take (length d) (x # xs) = d)"
    by (simp only: take_map inj_map_eq_map [OF 2(2)])
  with 2 show ?case by simp
qed simp

lemma find_sub_append: "find_sub d xs = Some i \<Longrightarrow> find_sub d (xs @ ys) = Some i"
proof (induction d xs arbitrary: i rule: find_sub.induct)
  case (1 d)
  then show ?case by (cases ys) (auto split: if_splits)
next
  case (2 d x xs)
  show ?case
  proof (cases "take (length d) (x # xs) = d")
    case True
    then have "length d \<le> length (x # xs)" by (metis length_take min.cobounded1)
    with True have "take (length d) ((x # xs) @ ys) = d" by (simp only: take_append) simp
    with True "2.prems" show ?thesis by (simp only: find_sub.simps append_Cons simp_thms if_True)
  next
    case False
    with "2.prems" obtain j where j: "find_sub d xs = Some j" "i = Suc j" by auto
    with "2.IH" False have "find_sub d (xs @ ys) = Some j" by blast
    moreover have "length d \<le> length (x # xs)" using find_sub_Some [OF j(1)] by simp
    then have "take (length d) ((x # xs) @ ys) \<noteq> d" using False by (simp only: take_append) simp
    ultimately show ?thesis using j(2) by simp
  qed
qed
lemma find_sub_char: "find_sub [c] s = find_if ((=) c) s"
  by (induction s) auto

subsection \<open>Facts on numbers\<close>

lemma of_char_digit_char: "d < 10 \<Longrightarrow> (of_char (digit_char d) :: nat) = 48 + d"
  by (simp add: digit_char_def of_char_of)

lemma digit_char_facts [simp]:
  assumes "d < 10"
  shows "is_digit (digit_char d)" "digit_value (digit_char d) = d"
  using assms by (simp_all add: is_digit_def digit_value_def of_char_digit_char)

lemma read_digits_snoc: "read_digits (s @ [c]) = 10 * read_digits s + digit_value c"
  by (simp add: read_digits_def)

lemma nat_to_string_digits: "\<forall>c \<in> set (nat_to_string n). is_digit c"
proof (induction n rule: nat_to_string.induct)
  case (1 n)
  show ?case by (subst nat_to_string.simps) (use 1 in auto)
qed

lemma nat_to_string_nonempty [simp]: "nat_to_string n \<noteq> []"
  by (subst nat_to_string.simps) simp

lemma read_nat_to_string: "read_digits (nat_to_string n) = n"
proof (induction n rule: nat_to_string.induct)
  case (1 n)
  show ?case
  proof (cases "n < 10")
    case True
    then show ?thesis by (subst nat_to_string.simps) (simp add: read_digits_def)
  next
    case False
    with 1 show ?thesis by (subst nat_to_string.simps) (simp add: read_digits_snoc)
  qed
qed

lemma not_digit_facts: "\<not> is_digit (CHR ''-'')" "\<not> is_digit (CHR ''+'')" "is_digit c \<Longrightarrow> \<not> is_space c"
  by (auto simp: is_digit_def is_space_def)

lemma scan_nat_to_string:
  assumes "rest = [] \<or> \<not> is_digit (hd rest)"
  shows "scan_number (nat_to_string n @ rest) = Some (False, n)"
proof -
  obtain c cs where c: "nat_to_string n = c # cs" by (cases "nat_to_string n") auto
  then have d: "is_digit c" "\<forall>x \<in> set cs. is_digit x" using nat_to_string_digits [of n] by auto
  then have "\<not> is_space c" "c \<noteq> CHR ''-''" "c \<noteq> CHR ''+''" using not_digit_facts by auto
  moreover have "takeWhile is_digit (c # cs @ rest) = c # cs"
    using d assms by (cases rest) (auto simp: takeWhile_append)
  ultimately show ?thesis using read_nat_to_string [of n] c by (simp add: scan_number_def Let_def)
qed

lemma scan_minus_nat_to_string: "scan_number (CHR ''-'' # nat_to_string n) = Some (True, n)"
proof -
  have eq: "takeWhile is_digit (nat_to_string n) = nat_to_string n"
    using nat_to_string_digits by (simp add: takeWhile_eq_all_conv)
  have "\<not> is_space (CHR ''-'')" by (simp add: is_space_def)
  then show ?thesis by (simp add: scan_number_def Let_def read_nat_to_string eq)
qed

lemma stoi_int_to_string:
  assumes "- (2 ^ 31) \<le> i" "i < 2 ^ 31"
  shows "stoi (int_to_string i) = Inr i"
  using assms scan_nat_to_string [of "[]" "nat i"] scan_minus_nat_to_string [of "nat (- i)"]
  by (auto simp: stoi_def int_to_string_def Let_def)

lemma stoull_nat_to_string: "n < 2 ^ 64 \<Longrightarrow> stoull (nat_to_string n) = Inr n"
  using scan_nat_to_string [of "[]" n] by (simp add: stoull_def)

end
