(* ===== verification/Codec.thy ===== *)
theory Codec
  imports Cpp_Std
begin

text \<open>
  The contract of a text encoding of octets (\<open>base64\<close>, \<open>base64url\<close>): encoding succeeds on
  every input that fits, and decoding undoes it. The websocket handshake compares encoded
  digests, for which it needs the encoding to be injective; that is proved here once.
\<close>

locale octet_codec =
  fixes enc :: "bytes \<Rightarrow> cpp_error + string"
    and dec :: "string \<Rightarrow> bytes option"
    and fits :: "bytes \<Rightarrow> bool"
  assumes dec_enc: "fits x \<Longrightarrow> \<exists>s. enc x = Inr s \<and> dec s = Some x"
begin

lemma enc_succeeds: "fits x \<Longrightarrow> \<exists>s. enc x = Inr s"
  using dec_enc by blast

lemma enc_inj: "fits x \<Longrightarrow> fits y \<Longrightarrow> enc x = enc y \<Longrightarrow> x = y"
  using dec_enc [of x] dec_enc [of y] by auto

lemma enc_eq_iff: "fits x \<Longrightarrow> fits y \<Longrightarrow> enc x = Inr s \<Longrightarrow> enc y = Inr t \<Longrightarrow> s = t \<longleftrightarrow> x = y"
  using enc_inj [of x y] by auto

end

end
