(* ===== verification/Base64.thy ===== *)
theory Base64
  imports Codec
begin

text \<open>
  \<open>src/curl/base64.cpp\<close>: \<open>base64\<close> and \<open>base64url\<close>. Octets are bytes, encoded text is a
  string. The decoder reads its \<open>string_view\<close> by index without comparing the index with
  the size; such a read is \<open>None\<close> here, and so is the result of a decoder that makes one.
\<close>

subsection \<open>Encoding\<close>

definition base64_table :: string where
  "base64_table = ''ABCDEFGHIJKLMNOPQRSTUVWXYZabcdefghijklmnopqrstuvwxyz0123456789+/''"

definition table_char :: "u8 \<Rightarrow> char" where
  "table_char v = base64_table ! unat v"

text \<open>What the loop and the branch after it write through \<open>out\<close>.\<close>

fun encode_groups :: "bytes \<Rightarrow> string" where
  "encode_groups (a # b # c # rest) =
     table_char (drop_bit 2 a) #
     table_char (push_bit 4 (a AND 0x03) OR drop_bit 4 b) #
     table_char (push_bit 2 (b AND 0x0f) OR drop_bit 6 c) #
     table_char (c AND 0x3f) # encode_groups rest"
| "encode_groups [a, b] =
     [table_char (drop_bit 2 a), table_char (push_bit 4 (a AND 0x03) OR drop_bit 4 b),
      table_char (push_bit 2 (b AND 0x0f)), CHR ''='']"
| "encode_groups [a] =
     [table_char (drop_bit 2 a), table_char (push_bit 4 (a AND 0x03)), CHR ''='', CHR ''='']"
| "encode_groups [] = []"

text \<open>
  \<open>olen\<close> is computed in \<open>size_t\<close>; the result has \<open>olen\<close> characters, zero where the loop
  wrote nothing.
\<close>

definition base64_encode :: "bytes \<Rightarrow> cpp_error + string" where
  "base64_encode data =
     (let size = length data;
          olen = (4 * ((size + 2) mod 2 ^ 64 div 3)) mod 2 ^ 64
      in if olen < size then Inl Logic_error
         else let out = encode_groups data in Inr (out @ replicate (olen - length out) (CHR 0x00)))"

subsection \<open>Decoding\<close>

definition B64index :: "nat list" where
  "B64index =
    [0, 0, 0, 0, 0, 0, 0, 0, 0, 0, 0, 0, 0, 0, 0, 0, 0, 0, 0, 0, 0, 0, 0, 0, 0,
     0, 0, 0, 0, 0, 0, 0, 0, 0, 0, 0, 0, 0, 0, 0, 0, 0, 0, 62, 63, 62, 62, 63, 52, 53,
     54, 55, 56, 57, 58, 59, 60, 61, 0, 0, 0, 0, 0, 0, 0, 0, 1, 2, 3, 4, 5, 6, 7, 8, 9,
     10, 11, 12, 13, 14, 15, 16, 17, 18, 19, 20, 21, 22, 23, 24, 25, 0, 0, 0, 0, 63, 0, 26, 27, 28,
     29, 30, 31, 32, 33, 34, 35, 36, 37, 38, 39, 40, 41, 42, 43, 44, 45, 46, 47, 48, 49, 50, 51]"

text \<open>\<open>static_cast<int>(B64index[p[i]])\<close>; the array has 256 elements, the ones not listed are 0.\<close>

definition char_index :: "char \<Rightarrow> u32" where
  "char_index c = (let k = (of_char c :: nat) in
     if k < length B64index then word_of_nat (B64index ! k) else 0)"

definition index_at :: "string \<Rightarrow> nat \<Rightarrow> u32 option" where
  "index_at p i = (if i < length p then Some (char_index (p ! i)) else None)"

definition group_value :: "string \<Rightarrow> nat \<Rightarrow> u32 option" where
  "group_value p i = (case (index_at p i, index_at p (i + 1), index_at p (i + 2), index_at p (i + 3)) of
       (Some w, Some x, Some y, Some z) \<Rightarrow> Some (push_bit 18 w OR push_bit 12 x OR push_bit 6 y OR z)
     | _ \<Rightarrow> None)"

function decode_loop :: "string \<Rightarrow> nat \<Rightarrow> nat \<Rightarrow> bytes option" where
  "decode_loop p L i =
     (if i < L then
        (case group_value p i of
           None \<Rightarrow> None
         | Some n \<Rightarrow> map_option (\<lambda>out. ucast (drop_bit 16 n) # ucast (drop_bit 8 n AND 0xFF) # ucast (n AND 0xFF) # out)
                      (decode_loop p L (i + 4)))
      else Some [])"
  by pat_completeness auto
termination
  by (relation "measure (\<lambda>(p, L, i). L - i)") auto

declare decode_loop.simps [simp del]

text \<open>The last, padded group; the first octet overwrites the zero that \<open>resize\<close> left there.\<close>

definition decode_tail :: "string \<Rightarrow> nat \<Rightarrow> bytes option" where
  "decode_tail p L = (case (index_at p L, index_at p (L + 1)) of
       (Some w, Some x) \<Rightarrow>
         (let n = push_bit 18 w OR push_bit 12 x in
          if length p > L + 2 \<and> p ! (L + 2) \<noteq> CHR ''=''
          then Some [ucast (drop_bit 16 n), ucast (drop_bit 8 (n OR push_bit 6 (char_index (p ! (L + 2)))) AND 0xFF)]
          else Some [ucast (drop_bit 16 n)])
     | _ \<Rightarrow> None)"

definition base64_decode :: "string \<Rightarrow> bytes option" where
  "base64_decode p =
     (let size = length p;
          pad = (if size > 0 \<and> (size mod 4 \<noteq> 0 \<or> p ! (size - 1) = CHR ''='') then 1 else 0);
          L = ((size + 3) div 4 - pad) * 4
      in case decode_loop p L 0 of
           None \<Rightarrow> None
         | Some out \<Rightarrow> if pad = 1 then map_option (\<lambda>t. out @ t) (decode_tail p L) else Some out)"

subsection \<open>base64url\<close>

definition to_url_char :: "char \<Rightarrow> char" where
  "to_url_char c = (if c = CHR ''+'' then CHR ''-'' else if c = CHR ''/'' then CHR ''_'' else c)"

definition from_url_char :: "char \<Rightarrow> char" where
  "from_url_char c = (if c = CHR ''-'' then CHR ''+'' else if c = CHR ''_'' then CHR ''/'' else c)"

definition base64url_encode :: "bytes \<Rightarrow> cpp_error + string" where
  "base64url_encode data = (case base64_encode data of
       Inl e \<Rightarrow> Inl e
     | Inr res \<Rightarrow>
         let res = map to_url_char res in
         Inr (case find_if ((=) (CHR ''='')) res of Some pos \<Rightarrow> take pos res | None \<Rightarrow> res))"

definition base64url_decode :: "string \<Rightarrow> bytes option" where
  "base64url_decode data =
     (let d = map from_url_char data;
          d = d @ replicate ((length d + 3) div 4 * 4 - length d) (CHR ''='')
      in base64_decode d)"


subsection \<open>Sextets and octets\<close>

lemma mask_consts: "(0x03 :: u8) = mask 2" "(0x0f :: u8) = mask 4" "(0x3f :: u8) = mask 6" "(0xFF :: u32) = mask 8" 
  by (simp_all add: mask_eq_exp_minus_1)

lemma u8_eqI:
  fixes a b :: u8
  assumes "bit a 0 = bit b 0" "bit a 1 = bit b 1" "bit a 2 = bit b 2" "bit a 3 = bit b 3"
    "bit a 4 = bit b 4" "bit a 5 = bit b 5" "bit a 6 = bit b 6" "bit a 7 = bit b 7"
  shows "a = b"
proof (rule bit_word_eqI)
  fix n assume "n < LENGTH(8)"
  then have "n \<in> {0, 1, 2, 3, 4, 5, 6, 7}" by auto
  with assms show "bit a n = bit b n" by auto
qed

lemma regroup:
  fixes a b c :: u8
  defines "n \<equiv> (push_bit 18 (ucast (drop_bit 2 a)) OR push_bit 12 (ucast (push_bit 4 (a AND 0x03) OR drop_bit 4 b)) OR push_bit 6 (ucast (push_bit 2 (b AND 0x0f) OR drop_bit 6 c)) OR ucast (c AND 0x3f) :: u32)"
  shows "ucast (drop_bit 16 n) = a" "ucast (drop_bit 8 n AND 0xFF) = b" "ucast (n AND 0xFF) = c"
  unfolding n_def mask_consts by (rule u8_eqI; simp add: bit_simps)+


text \<open>The characters of a group, by name: the first to the fourth, and the two that a padded group ends with.\<close>

definition ch1 :: "u8 \<Rightarrow> char" where
  "ch1 a = table_char (drop_bit 2 a)"

definition ch2 :: "u8 \<Rightarrow> u8 \<Rightarrow> char" where
  "ch2 a b = table_char (push_bit 4 (a AND 0x03) OR drop_bit 4 b)"

definition ch3 :: "u8 \<Rightarrow> u8 \<Rightarrow> char" where
  "ch3 b c = table_char (push_bit 2 (b AND 0x0f) OR drop_bit 6 c)"

definition ch4 :: "u8 \<Rightarrow> char" where
  "ch4 c = table_char (c AND 0x3f)"

lemma encode_groups_chars:
  "encode_groups [] = []"
  "encode_groups [a] = [ch1 a, ch2 a 0, CHR ''='', CHR ''='']"
  "encode_groups [a, b] = [ch1 a, ch2 a b, ch3 b 0, CHR ''='']"
  "encode_groups (a # b # c # rest) = ch1 a # ch2 a b # ch3 b c # ch4 c # encode_groups rest"
  by (simp_all add: ch1_def ch2_def ch3_def ch4_def)

declare encode_groups.simps [simp del] encode_groups_chars [simp]

lemma table_index: "map char_index base64_table = map word_of_nat [0..<64]"
  by (simp add: base64_table_def char_index_def B64index_def upt_conv_Cons)

lemma table_length: "length base64_table = 64"
  by (simp add: base64_table_def)

lemma table_special: "set base64_table \<inter> {CHR ''='', CHR ''-'', CHR ''_''} = {}"
  by (simp add: base64_table_def)

lemma table_char_sextet:
  fixes v :: u8
  assumes "\<not> bit v 6 \<and> \<not> bit v 7"
  shows "char_index (table_char v) = ucast v \<and> table_char v \<noteq> CHR ''='' \<and> table_char v \<noteq> CHR ''-'' \<and> table_char v \<noteq> CHR ''_''"
proof -
  have "take_bit 6 v = v" using assms by (intro u8_eqI) (simp_all add: bit_simps)
  then have "take_bit 6 (unat v) = unat v" by (metis unsigned_take_bit_eq)
  moreover have "take_bit 6 (unat v) < 64" by (simp add: take_bit_eq_mod)
  ultimately have v: "unat v < 64" by simp
  then have "char_index (base64_table ! unat v) = map char_index base64_table ! unat v" by (simp add: table_length)
  also have "\<dots> = ucast v" using v by (simp add: table_index)
  finally have "char_index (table_char v) = ucast v" by (simp add: table_char_def)
  moreover have "table_char v \<in> set base64_table" using v by (simp add: table_char_def table_length)
  ultimately show ?thesis using table_special by blast
qed

lemma sextet_bits:
  fixes a b :: u8
  shows "\<not> bit (drop_bit 2 a) 6 \<and> \<not> bit (drop_bit 2 a) 7"
    "\<not> bit (push_bit 4 (a AND 0x03) OR drop_bit 4 b) 6 \<and> \<not> bit (push_bit 4 (a AND 0x03) OR drop_bit 4 b) 7"
    "\<not> bit (push_bit 2 (a AND 0x0f) OR drop_bit 6 b) 6 \<and> \<not> bit (push_bit 2 (a AND 0x0f) OR drop_bit 6 b) 7"
    "\<not> bit (a AND 0x3f) 6 \<and> \<not> bit (a AND 0x3f) 7"
  unfolding mask_consts by (simp_all add: bit_simps)

lemmas sextet_facts = sextet_bits [THEN table_char_sextet]

lemma ch_index [simp]:
  "char_index (ch1 a) = ucast (drop_bit 2 a)"
  "char_index (ch2 a b) = ucast (push_bit 4 (a AND 0x03) OR drop_bit 4 b)"
  "char_index (ch3 b c) = ucast (push_bit 2 (b AND 0x0f) OR drop_bit 6 c)"
  "char_index (ch4 c) = ucast (c AND 0x3f)"
  unfolding ch1_def ch2_def ch3_def ch4_def by (simp_all only: sextet_facts)

lemma ch_not_special [simp]:
  "ch1 a \<noteq> CHR ''=''" "ch2 a b \<noteq> CHR ''=''" "ch3 b c \<noteq> CHR ''=''" "ch4 c \<noteq> CHR ''=''"
  "ch1 a \<noteq> CHR ''-''" "ch2 a b \<noteq> CHR ''-''" "ch3 b c \<noteq> CHR ''-''" "ch4 c \<noteq> CHR ''-''"
  "ch1 a \<noteq> CHR ''_''" "ch2 a b \<noteq> CHR ''_''" "ch3 b c \<noteq> CHR ''_''" "ch4 c \<noteq> CHR ''_''"
  unfolding ch1_def ch2_def ch3_def ch4_def by (simp_all only: sextet_facts not_False_eq_True)

definition join_index :: "char \<Rightarrow> char \<Rightarrow> u32" where
  "join_index w x = push_bit 18 (char_index w) OR push_bit 12 (char_index x)"

lemma regroup_tail:
  "ucast (drop_bit 16 (join_index (ch1 a) (ch2 a b))) = a"
  "ucast (drop_bit 8 (join_index (ch1 a) (ch2 a b) OR push_bit 6 (char_index (ch3 b c))) AND 0xFF) = b"
  unfolding join_index_def ch_index mask_consts by (rule u8_eqI; simp add: bit_simps)+

subsection \<open>Round trip\<close>

lemma length_encode_groups: "length (encode_groups x) = 4 * ((length x + 2) div 3)"
proof (induction x rule: encode_groups.induct)
  case (1 a b c rest)
  have "(length (a # b # c # rest) + 2) div 3 = (length rest + 2) div 3 + 1" by simp
  with 1 show ?case by simp
qed simp_all

lemma encode_groups_append: "length x mod 3 = 0 \<Longrightarrow> encode_groups (x @ y) = encode_groups x @ encode_groups y"
proof (induction x rule: encode_groups.induct)
  case (1 a b c rest)
  have "length (a # b # c # rest) mod 3 = length rest mod 3" by simp
  with 1 show ?case by simp
qed simp_all

lemma index_at_group:
  "index_at (pre @ w # x # post) (length pre) = Some (char_index w)"
  "index_at (pre @ w # x # post) (length pre + 1) = Some (char_index x)"
  "index_at (pre @ w # x # y # post) (length pre + 2) = Some (char_index y)"
  "index_at (pre @ w # x # y # z # post) (length pre + 3) = Some (char_index z)"
  by (simp_all add: index_at_def nth_append)

lemma decode_loop_step:
  assumes "i < L" "group_value p i = Some n" "decode_loop p L (i + 4) = Some out"
  shows "decode_loop p L i = Some (ucast (drop_bit 16 n) # ucast (drop_bit 8 n AND 0xFF) # ucast (n AND 0xFF) # out)"
  using assms by (subst decode_loop.simps) simp

lemma decode_loop_groups:
  "decode_loop (pre @ encode_groups x @ post) (length pre + 4 * (length x div 3)) (length pre)
     = Some (take (3 * (length x div 3)) x)"
proof (induction x arbitrary: pre rule: encode_groups.induct)
  case (1 a b c rest)
  let ?g = "[ch1 a, ch2 a b, ch3 b c, ch4 c]"
  let ?p = "pre @ encode_groups (a # b # c # rest) @ post"
  let ?n = "push_bit 18 (char_index (ch1 a)) OR push_bit 12 (char_index (ch2 a b)) OR push_bit 6 (char_index (ch3 b c)) OR char_index (ch4 c)"
  have d: "length (a # b # c # rest) div 3 = length rest div 3 + 1" by simp
  have p: "?p = pre @ ch1 a # ch2 a b # ch3 b c # ch4 c # (encode_groups rest @ post)"
    and p': "?p = (pre @ ?g) @ encode_groups rest @ post" by simp_all
  have v: "group_value ?p (length pre) = Some ?n"
    unfolding p group_value_def index_at_group by simp
  have r: "ucast (drop_bit 16 ?n) = a" "ucast (drop_bit 8 ?n AND 0xFF) = b" "ucast (?n AND 0xFF) = c"
    unfolding ch_index by (rule regroup)+
  have i: "decode_loop ?p (length pre + 4 * (length (a # b # c # rest) div 3)) (length pre + 4)
     = Some (take (3 * (length rest div 3)) rest)"
  proof -
    have "length pre + 4 * (length rest div 3 + 1) = length (pre @ ?g) + 4 * (length rest div 3)"
      "length pre + 4 = length (pre @ ?g)" by simp_all
    then show ?thesis unfolding p' d using 1 [of "pre @ ?g"] by (simp only:)
  qed
  have less: "length pre < length pre + 4 * (length (a # b # c # rest) div 3)" unfolding d by simp
  have l: "decode_loop ?p (length pre + 4 * (length (a # b # c # rest) div 3)) (length pre)
      = Some (a # b # c # take (3 * (length rest div 3)) rest)"
    using decode_loop_step [OF less v i] unfolding r .
  have e: "a # b # c # take (3 * (length rest div 3)) rest
      = take (3 * (length (a # b # c # rest) div 3)) (a # b # c # rest)"
  proof -
    have "3 * (length rest div 3 + 1) = Suc (Suc (Suc (3 * (length rest div 3))))" by simp
    then show ?thesis unfolding d by (simp only: take_Suc_Cons)
  qed
  show ?case by (rule trans [OF l arg_cong [OF e, of Some]])
qed (simp_all add: decode_loop.simps)

lemma base64_encode_eq:
  assumes "length x < 2 ^ 62"
  shows "base64_encode x = Inr (encode_groups x)"
proof -
  have "(length x + 2) mod 2 ^ 64 = length x + 2" using assms by simp
  moreover have "4 * ((length x + 2) div 3) < 2 ^ 64" using assms by simp
  moreover have "length x \<le> 4 * ((length x + 2) div 3)" by presburger
  ultimately show ?thesis by (simp add: base64_encode_def length_encode_groups)
qed

lemma decode_tail_one: "decode_tail (pre @ ch1 a # ch2 a b # CHR ''='' # post) (length pre) = Some [a]"
  "decode_tail (pre @ [ch1 a, ch2 a b]) (length pre) = Some [a]"
  unfolding decode_tail_def index_at_group
  by (simp_all only: join_index_def [symmetric] Let_def option.case prod.case regroup_tail) (simp_all add: nth_append)

lemma decode_tail_two: "decode_tail (pre @ ch1 a # ch2 a b # ch3 b c # post) (length pre) = Some [a, b]"
proof -
  have "(pre @ ch1 a # ch2 a b # ch3 b c # post) ! (length pre + 2) = ch3 b c" by (simp add: nth_append)
  then show ?thesis
    unfolding decode_tail_def index_at_group
    by (simp only: join_index_def [symmetric] Let_def option.case prod.case regroup_tail) simp
qed

lemma encode_groups_last: "length x mod 3 = 0 \<Longrightarrow> x \<noteq> [] \<Longrightarrow> last (encode_groups x) \<noteq> CHR ''=''"
proof (induction x rule: encode_groups.induct)
  case (1 a b c rest)
  have "length (a # b # c # rest) mod 3 = length rest mod 3" by simp
  with 1 show ?case by (cases rest) (auto simp: length_encode_groups dest: arg_cong [of _ _ length])
qed simp_all

text \<open>The padding characters may be missing: \<open>n\<close> of the trailing \<open>=\<close> are enough.\<close>

lemma split_groups:
  fixes x :: bytes
  obtains (full) "length x mod 3 = 0"
    | (one) f a where "x = f @ [a]" "length f mod 3 = 0"
    | (two) f a b where "x = f @ [a, b]" "length f mod 3 = 0"
proof -
  define k where "k = 3 * (length x div 3)"
  have k: "length (take k x) mod 3 = 0" "x = take k x @ drop k x" "length (drop k x) = length x mod 3"
    by (simp_all add: k_def minus_mult_div_eq_mod)
  have "length x mod 3 < 3" by simp
  with k(3) consider "drop k x = []" | a where "drop k x = [a]" | a b where "drop k x = [a, b]"
    by (cases "drop k x" rule: encode_groups.cases) auto
  then show thesis
    using k full one two by cases (metis append_Nil2 | metis)+
qed

lemma base64_decode_groups: "length x mod 3 = 0 \<Longrightarrow> base64_decode (encode_groups x) = Some x"
proof (cases "x = []")
  case False
  assume "length x mod 3 = 0"
  then obtain k where k: "length x = 3 * k" by auto
  have l: "length (encode_groups x) = 4 * k" using k by (simp add: length_encode_groups)
  have "k > 0" using False k by (cases k) auto
  then have "encode_groups x \<noteq> []" using l by auto
  then have "encode_groups x ! (4 * k - 1) \<noteq> CHR ''=''"
    using encode_groups_last [of x] False k l by (simp add: last_conv_nth)
  moreover have "decode_loop (encode_groups x) (4 * k) 0 = Some x"
    using decode_loop_groups [of "[]" x "[]"] k by simp
  ultimately show ?thesis using l by (simp add: base64_decode_def Let_def mult.commute)
qed (simp add: base64_decode_def decode_loop.simps)

lemma base64_decode_padded:
  assumes f: "length f mod 3 = 0" and p: "length p \<in> {2, 3, 4}" "length p = 4 \<Longrightarrow> p ! 3 = CHR ''=''"
    and t: "decode_tail (encode_groups f @ p) (length (encode_groups f)) = Some out"
  shows "base64_decode (encode_groups f @ p) = Some (f @ out)"
proof -
  from f obtain k where k: "length f = 3 * k" by auto
  have l: "length (encode_groups f) = 4 * k" using k by (simp add: length_encode_groups)
  have loop: "decode_loop (encode_groups f @ p) (4 * k) 0 = Some f"
    using decode_loop_groups [of "[]" f p] k by simp
  have pad: "length (encode_groups f @ p) mod 4 \<noteq> 0 \<or> (encode_groups f @ p) ! (length (encode_groups f @ p) - 1) = CHR ''=''"
    using p l by (auto simp: nth_append)
  have L: "((length (encode_groups f @ p) + 3) div 4 - 1) * 4 = 4 * k" using p(1) l by auto
  have "length (encode_groups f @ p) > 0" using p(1) by auto
  with pad have c: "(length (encode_groups f @ p) > 0 \<and> (length (encode_groups f @ p) mod 4 \<noteq> 0 \<or> (encode_groups f @ p) ! (length (encode_groups f @ p) - 1) = CHR ''='')) = True"
    by simp
  show ?thesis
    unfolding base64_decode_def Let_def c if_True L loop using t l by simp
qed

lemma base64_decode_encode_groups: "base64_decode (encode_groups x) = Some x"
proof (cases x rule: split_groups)
  case full
  then show ?thesis by (rule base64_decode_groups)
next
  case (one f a)
  then show ?thesis
    using base64_decode_padded [OF one(2), of "[ch1 a, ch2 a 0, CHR ''='', CHR ''='']"]
      decode_tail_one(1) [of "encode_groups f" a 0 "[CHR ''='']"]
    by (simp add: encode_groups_append)
next
  case (two f a b)
  then show ?thesis
    using base64_decode_padded [OF two(2), of "[ch1 a, ch2 a b, ch3 b 0, CHR ''='']"]
      decode_tail_two [of "encode_groups f" a b 0 "[CHR ''='']"]
    by (simp add: encode_groups_append)
qed


subsection \<open>The URL alphabet\<close>

lemma encode_groups_no_eq: "length x mod 3 = 0 \<Longrightarrow> CHR ''='' \<notin> set (encode_groups x)"
proof (induction x rule: encode_groups.induct)
  case (1 a b c rest)
  have "length (a # b # c # rest) mod 3 = length rest mod 3" by simp
  with 1 show ?case by (simp add: eq_commute [of "CHR ''=''"])
qed simp_all

lemma encode_groups_no_url:
  "CHR ''-'' \<notin> set (encode_groups x) \<and> CHR ''_'' \<notin> set (encode_groups x)"
  by (induction x rule: encode_groups.induct)
    (simp_all add: eq_commute [of "CHR ''-''"] eq_commute [of "CHR ''_''"])

lemma encode_groups_stem:
  obtains s k where "encode_groups x = s @ replicate k (CHR ''='')" "CHR ''='' \<notin> set s" "k < 3"
    "base64_decode (encode_groups x) = Some x" "length (encode_groups x) mod 4 = 0"
proof -
  have m: "length (encode_groups x) mod 4 = 0" by (simp add: length_encode_groups)
  note d = base64_decode_encode_groups [of x]
  show thesis
  proof (cases x rule: split_groups)
    case full
    then show ?thesis using that [of "encode_groups x" 0] encode_groups_no_eq d m by simp
  next
    case (one f a)
    then show ?thesis
      using that [of "encode_groups f @ [ch1 a, ch2 a 0]" 2] encode_groups_no_eq [OF one(2)] d m
      by (simp add: encode_groups_append eq_commute [of "CHR ''=''"] numeral_2_eq_2)
  next
    case (two f a b)
    then show ?thesis
      using that [of "encode_groups f @ [ch1 a, ch2 a b, ch3 b 0]" 1] encode_groups_no_eq [OF two(2)] d m
      by (simp add: encode_groups_append eq_commute [of "CHR ''=''"])
  qed
qed

lemma to_url_eq [simp]: "CHR ''='' = to_url_char c \<longleftrightarrow> CHR ''='' = c"
  by (simp add: to_url_char_def)

lemma from_to_url: "c \<noteq> CHR ''-'' \<Longrightarrow> c \<noteq> CHR ''_'' \<Longrightarrow> from_url_char (to_url_char c) = c"
  by (simp add: to_url_char_def from_url_char_def)

lemma map_from_to_url: "CHR ''-'' \<notin> set s \<Longrightarrow> CHR ''_'' \<notin> set s \<Longrightarrow> map (from_url_char \<circ> to_url_char) s = s"
  by (induction s) (auto simp: from_to_url)

lemma base64url_encode_stem:
  assumes "length x < 2 ^ 62" "encode_groups x = s @ replicate k (CHR ''='')" "CHR ''='' \<notin> set s"
  shows "base64url_encode x = Inr (map to_url_char s)"
proof -
  have n: "\<forall>c \<in> set (map to_url_char s). CHR ''='' \<noteq> c"
    using assms(3) by auto
  have "find_if ((=) (CHR ''='')) (map to_url_char s @ replicate k (CHR ''='')) = (if k = 0 then None else Some (length s))"
    using n find_if_hit [of "map to_url_char s" "(=) (CHR ''='')" "CHR ''=''"] by (cases k) auto
  moreover have "to_url_char (CHR ''='') = CHR ''=''" by (simp add: to_url_char_def)
  ultimately show ?thesis
    using assms(2) by (auto simp: base64url_encode_def base64_encode_eq [OF assms(1)] Let_def map_replicate_const split: if_splits)
qed

lemma base64url_decode_encode:
  assumes "length x < 2 ^ 62"
  shows "\<exists>s. base64url_encode x = Inr s \<and> base64url_decode s = Some x"
proof (rule encode_groups_stem [of x])
  fix s k assume a: "encode_groups x = s @ replicate k (CHR ''='')" "CHR ''='' \<notin> set s" "k < 3"
    "base64_decode (encode_groups x) = Some x" "length (encode_groups x) mod 4 = 0"
  have s: "map (from_url_char \<circ> to_url_char) s = s"
    using encode_groups_no_url [of x] a(1) by (intro map_from_to_url) auto
  have "(length s + k) mod 4 = 0" using a(1,5) by simp
  then obtain q where "length s + k = 4 * q" by auto
  then have "(length s + 3) div 4 = q" using a(3) by (intro div_nat_eqI) simp_all
  then have "(length s + 3) div 4 * 4 - length s = k" using \<open>length s + k = 4 * q\<close> by simp
  then have "base64url_decode (map to_url_char s) = Some x"
    using a(1,4) s by (simp add: base64url_decode_def Let_def)
  then show ?thesis using base64url_encode_stem [OF assms a(1,2)] by blast
qed

subsection \<open>Both encodings are octet codecs\<close>

interpretation b64: octet_codec base64_encode base64_decode "\<lambda>x. length x < 2 ^ 62"
  by unfold_locales (simp add: base64_encode_eq base64_decode_encode_groups)

interpretation b64url: octet_codec base64url_encode base64url_decode "\<lambda>x. length x < 2 ^ 62"
  by unfold_locales (rule base64url_decode_encode)


subsection \<open>Properties\<close>

text \<open>
  C32: \<open>base64::encode\<close> turns every input shorter than 2^62 octets into a text of four
  characters for each started group of three octets, and \<open>base64::decode\<close> gives the input back.
\<close>

theorem base64_round_trip:
  assumes "length x < 2 ^ 62"
  shows "\<exists>s. base64_encode x = Inr s \<and> length s = 4 * ((length x + 2) div 3) \<and> base64_decode s = Some x"
  using b64.dec_enc [of x] assms by (auto simp: base64_encode_eq length_encode_groups)

theorem base64_round_trip_witness:
  "\<exists>s. base64_encode [0x66, 0x6f] = Inr s \<and> length s = 4 \<and> base64_decode s = Some [0x66, 0x6f]"
  using base64_round_trip [of "[0x66, 0x6f]"] by simp

lemma to_url_no_plus [simp]: "CHR ''+'' \<noteq> to_url_char c" "CHR ''/'' \<noteq> to_url_char c"
  by (simp_all add: to_url_char_def)

text \<open>
  \<open>base64url::encode\<close> writes neither padding nor the two characters that are not safe in
  a URL, and \<open>base64url::decode\<close> gives the input back.
\<close>

theorem base64url_round_trip:
  assumes "length x < 2 ^ 62"
  shows "\<exists>s. base64url_encode x = Inr s \<and> base64url_decode s = Some x \<and>
    set s \<inter> {CHR ''='', CHR ''+'', CHR ''/''} = {}"
proof (rule encode_groups_stem [of x])
  fix s k assume a: "encode_groups x = s @ replicate k (CHR ''='')" "CHR ''='' \<notin> set s"
  have "base64url_encode x = Inr (map to_url_char s)" by (rule base64url_encode_stem [OF assms a])
  moreover have "set (map to_url_char s) \<inter> {CHR ''='', CHR ''+'', CHR ''/''} = {}"
    using a(2) by (auto simp: to_url_char_def split: if_splits)
  ultimately show ?thesis using b64url.dec_enc [of x] assms by auto
qed

theorem base64url_round_trip_witness:
  "\<exists>s. base64url_encode [0xfb] = Inr s \<and> base64url_decode s = Some [0xfb] \<and>
    set s \<inter> {CHR ''='', CHR ''+'', CHR ''/''} = {}"
  using base64url_round_trip [of "[0xfb]"] by simp

lemma decode_loop_in_bounds:
  "L \<le> length p \<Longrightarrow> L mod 4 = 0 \<Longrightarrow> i mod 4 = 0 \<Longrightarrow> \<exists>out. decode_loop p L i = Some out"
proof (induction p L i rule: decode_loop.induct)
  case (1 p L i)
  show ?case
  proof (cases "i < L")
    case True
    then have "i + 3 < L" using 1(3,4) by presburger
    then have "\<exists>n. group_value p i = Some n" using 1(2) by (simp add: group_value_def index_at_def)
    moreover have "(i + 4) mod 4 = 0" using 1(4) by simp
    ultimately show ?thesis using True 1 by (subst decode_loop.simps) auto
  qed (simp add: decode_loop.simps)
qed

lemma decode_tail_in_bounds: "decode_tail p L = None \<longleftrightarrow> length p \<le> L + 1"
  by (simp add: decode_tail_def index_at_def Let_def)

text \<open>
  C40: \<open>base64::decode\<close> stays inside its input exactly if the length is not one more than a
  multiple of four; for every other length it returns, whatever the characters are. The
  decoder for URLs pads first and always stays inside.
\<close>

theorem base64_decode_in_bounds:
  "(base64_decode s = None \<longleftrightarrow> length s mod 4 = 1) \<and> base64url_decode u \<noteq> None"
proof -
  have *: "base64_decode s = None \<longleftrightarrow> length s mod 4 = 1" for s
  proof -
    define pad :: nat where "pad = (if length s > 0 \<and> (length s mod 4 \<noteq> 0 \<or> s ! (length s - 1) = CHR ''='') then 1 else 0)"
    define L where "L = ((length s + 3) div 4 - pad) * 4"
    have "L \<le> length s" "L mod 4 = 0" unfolding L_def pad_def by auto
    then obtain out where "decode_loop s L 0 = Some out" using decode_loop_in_bounds [of L s 0] by auto
    then have "base64_decode s = None \<longleftrightarrow> pad = 1 \<and> length s \<le> L + 1"
      using decode_tail_in_bounds [of s L]
      unfolding base64_decode_def Let_def pad_def [symmetric] unfolding L_def [symmetric]
      by (auto simp: pad_def)
    also have "\<dots> \<longleftrightarrow> length s mod 4 = 1"
    proof (cases "length s mod 4 = 0")
      case True
      then obtain q where q: "length s = 4 * q" by auto
      have "pad = 1 \<Longrightarrow> length s > 0" unfolding pad_def by presburger
      then have "pad = 1 \<Longrightarrow> q > 0" using q by linarith
      then have "pad = 1 \<Longrightarrow> L + 4 = length s" using q by (cases q) (simp_all add: L_def)
      with True show ?thesis by auto
    next
      case False
      then have p: "pad = 1" by (auto simp: pad_def intro: Nat.gr0I)
      define q r where "q = length s div 4" and "r = length s mod 4"
      then have q: "length s = 4 * q + r" "r < 4" "length s mod 4 = r" by simp_all
      then have "r > 0" using False by simp
      then have "(length s + 3) div 4 = q + 1" using q(1,2) by (intro div_nat_eqI) simp_all
      then have "L = 4 * q" using p by (simp add: L_def)
      with p q \<open>r > 0\<close> show ?thesis by auto
    qed
    finally show ?thesis .
  qed
  have "length (map from_url_char u @ replicate ((length u + 3) div 4 * 4 - length u) (CHR ''='')) mod 4 = 0"
    by simp
  then have "base64url_decode u \<noteq> None" using * by (simp add: base64url_decode_def Let_def)
  with * show ?thesis by simp
qed

end
