(* ===== verification/Sha1.thy ===== *)
theory Sha1
  imports Prelude
begin

text \<open>
  \<open>src/curl/sha1.cpp\<close> and \<open>curl/sha1.h\<close>: the digest the handshake checks. The first part is
  the code: \<open>transform\<close> with its five round macros and its circular block, \<open>update\<close>,
  \<open>finish\<close> and \<open>hash\<close>. The second part is the algorithm of FIPS 180-4, written without
  reference to the code; the theorems say that the code computes it.
\<close>

subsection \<open>The block and the round macros\<close>

definition rol :: "u32 \<Rightarrow> nat \<Rightarrow> u32" where
  "rol x n = push_bit n x OR drop_bit (32 - n) x"

text \<open>Reading a \<open>uint32_t\<close> through the union; \<open>le\<close> is \<open>BYTE_ORDER == LITTLE_ENDIAN\<close>.\<close>

definition be_word :: "bytes \<Rightarrow> u32" where
  "be_word bs = foldl (\<lambda>acc b. push_bit 8 acc OR ucast b) 0 bs"

definition load_word :: "bool \<Rightarrow> bytes \<Rightarrow> u32" where
  "load_word le bs = be_word (if le then rev bs else bs)"

definition load_block :: "bool \<Rightarrow> bytes \<Rightarrow> u32 list" where
  "load_block le buf = map (\<lambda>i. load_word le (take 4 (drop (4 * i) buf))) [0..<16]"

text \<open>
  \<open>blk0(i)\<close> and \<open>blk(i)\<close> are assignments inside an expression: the \<close>

definition blk0 :: "bool \<Rightarrow> nat \<Rightarrow> u32 list \<Rightarrow> u32 \<times> u32 list" where
  "blk0 le i block =
     (if le then
        let x = (rol (block ! i) 24 AND 0xFF00FF00) OR (rol (block ! i) 8 AND 0x00FF00FF)
        in (x, block[i := x])
      else (block ! i, block))"

definition blk :: "nat \<Rightarrow> u32 list \<Rightarrow> u32 \<times> u32 list" where
  "blk i block =
     (let x = rol (block ! ((i + 13) mod 16) XOR block ! ((i + 8) mod 16) XOR block ! ((i + 2) mod 16) XOR block ! (i mod 16)) 1
      in (x, block[i mod 16 := x]))"

text \<open>
  A macro call names five variables of \<open>a .. e\<close>; here they are positions of the list
  \<open>[a, b, c, d, e]\<close>. The macros differ in the mixing function, the constant and the block access.
\<close>

definition mix_1 :: "u32 \<Rightarrow> u32 \<Rightarrow> u32 \<Rightarrow> u32" where
  "mix_1 w x y = (w AND (x XOR y)) XOR y"

definition mix_2 :: "u32 \<Rightarrow> u32 \<Rightarrow> u32 \<Rightarrow> u32" where
  "mix_2 w x y = w XOR x XOR y"

definition mix_3 :: "u32 \<Rightarrow> u32 \<Rightarrow> u32 \<Rightarrow> u32" where
  "mix_3 w x y = ((w OR x) AND y) OR (w AND x)"

definition round_macro ::
  "(u32 \<Rightarrow> u32 \<Rightarrow> u32 \<Rightarrow> u32) \<Rightarrow> u32 \<Rightarrow> (u32 list \<Rightarrow> u32 \<times> u32 list) \<Rightarrow> nat \<Rightarrow> nat \<Rightarrow> nat \<Rightarrow> nat \<Rightarrow> nat
   \<Rightarrow> u32 list \<times> u32 list \<Rightarrow> u32 list \<times> u32 list" where
  "round_macro mix k blk_i v w x y z rb =
     (case rb of (r, block) \<Rightarrow> case blk_i block of (m, block') \<Rightarrow>
        let r = r[z := r ! z + (mix (r ! w) (r ! x) (r ! y) + m + k + rol (r ! v) 5)]
        in (r[w := rol (r ! w) 30], block'))"

definition R0 where "R0 le v w x y z i = round_macro mix_1 0x5A827999 (blk0 le i) v w x y z"
definition R1 where "R1 v w x y z i = round_macro mix_1 0x5A827999 (blk i) v w x y z"
definition R2 where "R2 v w x y z i = round_macro mix_2 0x6ED9EBA1 (blk i) v w x y z"
definition R3 where "R3 v w x y z i = round_macro mix_3 0x8F1BBCDC (blk i) v w x y z"
definition R4 where "R4 v w x y z i = round_macro mix_2 0xCA62C1D6 (blk i) v w x y z"

text \<open>The \<open>i\<close>-th of the 80 calls: the variables move one place to the right from call to call.\<close>

definition round_call :: "bool \<Rightarrow> nat \<Rightarrow> u32 list \<times> u32 list \<Rightarrow> u32 list \<times> u32 list" where
  "round_call le i =
     (let v = 4 * i mod 5; w = (4 * i + 1) mod 5; x = (4 * i + 2) mod 5; y = (4 * i + 3) mod 5; z = (4 * i + 4) mod 5
      in if i < 16 then R0 le v w x y z i
         else if i < 20 then R1 v w x y z i
         else if i < 40 then R2 v w x y z i
         else if i < 60 then R3 v w x y z i
         else R4 v w x y z i)"

definition transform :: "bool \<Rightarrow> u32 list \<Rightarrow> bytes \<Rightarrow> u32 list" where
  "transform le state buffer =
     (case fold (round_call le) [0..<80] (state, load_block le buffer) of
        (r, _) \<Rightarrow> map2 (+) state r)"

subsection \<open>The class\<close>

record sha1 =
  m_state :: "u32 list"
  m_count :: "u32 \<times> u32"
  m_buffer :: bytes

definition sha1_init :: sha1 where
  "sha1_init = \<lparr>m_state = [0x67452301, 0xEFCDAB89, 0x98BADCFE, 0x10325476, 0xC3D2E1F0],
     m_count = (0, 0), m_buffer = replicate 64 0\<rparr>"

text \<open>\<open>memcpy\<close> into an array and reads of a range; \<open>None\<close> outside the array.\<close>

definition memcpy :: "bytes \<Rightarrow> nat \<Rightarrow> bytes \<Rightarrow> bytes option" where
  "memcpy dst off src = (if off + length src \<le> length dst
     then Some (take off dst @ src @ drop (off + length src) dst) else None)"

definition slice :: "bytes \<Rightarrow> nat \<Rightarrow> nat \<Rightarrow> bytes option" where
  "slice src off n = (if off + n \<le> length src then Some (take n (drop off src)) else None)"

text \<open>The loop over whole blocks; \<open>i\<close> and \<open>i + 63\<close> are \<open>uint32_t\<close>.\<close>

partial_function (option) update_loop :: "bool \<Rightarrow> bytes \<Rightarrow> u32 \<Rightarrow> u32 list \<Rightarrow> (u32 \<times> u32 list) option" where
  "update_loop le data i st =
     (if unat (i + 63) < length data
      then (case slice data (unat i) 64 of None \<Rightarrow> None
              | Some b \<Rightarrow> update_loop le data (i + 64) (transform le st b))
      else Some (i, st))"

declare update_loop.simps [code]

definition count_add :: "u32 \<times> u32 \<Rightarrow> nat \<Rightarrow> u32 \<times> u32" where
  "count_add c len =
     (let j = fst c; c0 = j + word_of_nat (8 * len mod 2 ^ 64);
          c1 = (if c0 < j then snd c + 1 else snd c)
      in (c0, c1 + word_of_nat (len div 2 ^ 29)))"

definition sha1_update :: "bool \<Rightarrow> sha1 \<Rightarrow> bytes \<Rightarrow> sha1 option" where
  "sha1_update le s data =
     (let len = length data;
          j = drop_bit 3 (fst (m_count s)) AND 63;
          s = s\<lparr>m_count := count_add (m_count s) len\<rparr>
      in if unat j + len > 63 then
           let i = 64 - j in
           (case slice data 0 (unat i) of None \<Rightarrow> None | Some first \<Rightarrow>
            case memcpy (m_buffer s) (unat j) first of None \<Rightarrow> None | Some buf \<Rightarrow>
            case update_loop le data i (transform le (m_state s) buf) of None \<Rightarrow> None | Some (i, st) \<Rightarrow>
            case slice data (unat i) (len - unat i) of None \<Rightarrow> None | Some rest \<Rightarrow>
            case memcpy buf 0 rest of None \<Rightarrow> None | Some buf \<Rightarrow>
              Some (s\<lparr>m_state := st, m_buffer := buf\<rparr>))
         else
           (case memcpy (m_buffer s) (unat j) data of None \<Rightarrow> None | Some buf \<Rightarrow>
              Some (s\<lparr>m_buffer := buf\<rparr>)))"

definition finalcount :: "u32 \<times> u32 \<Rightarrow> bytes" where
  "finalcount c = map (\<lambda>i. ucast (drop_bit ((3 - i mod 4) * 8) (if i \<ge> 4 then fst c else snd c) AND 255)) [0..<8]"

partial_function (option) pad_loop :: "bool \<Rightarrow> sha1 \<Rightarrow> sha1 option" where
  "pad_loop le s =
     (if fst (m_count s) AND 504 \<noteq> 448
      then (case sha1_update le s [0] of None \<Rightarrow> None | Some s \<Rightarrow> pad_loop le s)
      else Some s)"

declare pad_loop.simps [code]

definition digest_of :: "u32 list \<Rightarrow> bytes" where
  "digest_of st = map (\<lambda>i. ucast (drop_bit ((3 - i mod 4) * 8) (st ! (i div 4)) AND 255)) [0..<20]"

definition sha1_finish :: "bool \<Rightarrow> sha1 \<Rightarrow> bytes option" where
  "sha1_finish le s =
     (let fc = finalcount (m_count s) in
      case sha1_update le s [128] of None \<Rightarrow> None | Some s \<Rightarrow>
      case pad_loop le s of None \<Rightarrow> None | Some s \<Rightarrow>
      case sha1_update le s fc of None \<Rightarrow> None | Some s \<Rightarrow> Some (digest_of (m_state s)))"

definition sha1_hash :: "bool \<Rightarrow> bytes \<Rightarrow> bytes option" where
  "sha1_hash le data = (case sha1_update le sha1_init data of None \<Rightarrow> None | Some h \<Rightarrow> sha1_finish le h)"



subsection \<open>The algorithm of FIPS 180-4\<close>

definition fips_f :: "nat \<Rightarrow> u32 \<Rightarrow> u32 \<Rightarrow> u32 \<Rightarrow> u32" where
  "fips_f t x y z =
     (if t < 20 then (x AND y) XOR (NOT x AND z)
      else if 40 \<le> t \<and> t < 60 then (x AND y) XOR (x AND z) XOR (y AND z)
      else x XOR y XOR z)"

definition fips_K :: "nat \<Rightarrow> u32" where
  "fips_K t = (if t < 20 then 0x5A827999 else if t < 40 then 0x6ED9EBA1 else if t < 60 then 0x8F1BBCDC else 0xCA62C1D6)"

fun fips_W :: "u32 list \<Rightarrow> nat \<Rightarrow> u32" where
  "fips_W M t = (if t < 16 then M ! t else
     word_rotl 1 (fips_W M (t - 3) XOR fips_W M (t - 8) XOR fips_W M (t - 14) XOR fips_W M (t - 16)))"

declare fips_W.simps [simp del]

type_synonym vars = "u32 \<times> u32 \<times> u32 \<times> u32 \<times> u32"

fun fips_step :: "u32 list \<Rightarrow> nat \<Rightarrow> vars \<Rightarrow> vars" where
  "fips_step M t (a, b, c, d, e) =
     (word_rotl 5 a + fips_f t b c d + e + fips_K t + fips_W M t, a, word_rotl 30 b, c, d)"

definition be_words :: "bytes \<Rightarrow> u32 list" where
  "be_words buf = map (\<lambda>i. be_word (take 4 (drop (4 * i) buf))) [0..<16]"

fun add_vars :: "vars \<Rightarrow> vars \<Rightarrow> vars" where
  "add_vars (a, b, c, d, e) (a', b', c', d', e') = (a + a', b + b', c + c', d + d', e + e')"

definition fips_compress :: "vars \<Rightarrow> bytes \<Rightarrow> vars" where
  "fips_compress H buf = add_vars H (fold (fips_step (be_words buf)) [0..<80] H)"

subsection \<open>The macros are the step of the standard\<close>


lemma rol_rotl: "0 < n \<Longrightarrow> n < 32 \<Longrightarrow> rol x n = word_rotl n x"
proof (rule bit_word_eqI)
  fix i assume n: "0 < n" "n < 32" and i: "i < LENGTH(32)"
  show "bit (rol x n) i = bit (word_rotl n x) i"
  proof (cases "n \<le> i")
    case True
    then have "(i + (32 - n)) mod 32 = i - n" using n i by (simp add: mod_if)
    then show ?thesis using True n i bit_imp_le_length [of x "32 - n + i"]
      by (auto simp: rol_def bit_simps bit_word_rotl_iff)
  next
    case False
    then have "(i + (32 - n)) mod 32 = 32 - n + i" using n i by simp
    then show ?thesis using False n i by (simp add: rol_def bit_simps bit_word_rotl_iff)
  qed
qed

lemma mix_fips:
  "t < 20 \<Longrightarrow> mix_1 x y z = fips_f t x y z"
  "20 \<le> t \<Longrightarrow> t < 40 \<Longrightarrow> mix_2 x y z = fips_f t x y z"
  "40 \<le> t \<Longrightarrow> t < 60 \<Longrightarrow> mix_3 x y z = fips_f t x y z"
  "60 \<le> t \<Longrightarrow> mix_2 x y z = fips_f t x y z"
  by (auto simp: mix_1_def mix_2_def mix_3_def fips_f_def intro!: bit_word_eqI simp: bit_simps)

lemma swap_consts: "(0xFF00FF00 :: u32) = push_bit 8 (mask 8) OR push_bit 24 (mask 8)"
  "(0x00FF00FF :: u32) = mask 8 OR push_bit 16 (mask 8)"
  by (simp_all add: mask_eq_exp_minus_1 push_bit_eq_mult)


lemma bit_be_word:
  "bit (be_word [a, b, c, d]) n \<longleftrightarrow>
     (if n < 8 then bit d n else if n < 16 then bit c (n - 8) else if n < 24 then bit b (n - 16)
      else n < 32 \<and> bit a (n - 24))"
  by (auto simp: be_word_def bit_simps u8_bit_high)

lemma bit_rol:
  "0 < k \<Longrightarrow> k < 32 \<Longrightarrow> n < 32 \<Longrightarrow> bit (rol x k) n \<longleftrightarrow> (if k \<le> n then bit x (n - k) else bit x (n + 32 - k))"
  using bit_imp_le_length [of x "32 - k + n"] by (auto simp: rol_def bit_simps add.commute)

lemma byte_swap:
  fixes a b c d :: u8
  defines "x \<equiv> be_word [d, c, b, a]"
  shows "(rol x 24 AND 0xFF00FF00) OR (rol x 8 AND 0x00FF00FF) = be_word [a, b, c, d]"
proof (rule bit_word_eqI)
  fix n assume "n < LENGTH(32)"
  define k where "k = n mod 8"
  have k: "k < 8" "n = 8 * (n div 8) + k" "n div 8 < 4" using \<open>n < LENGTH(32)\<close> by (auto simp: k_def)
  then have "n div 8 \<in> {0, 1, 2, 3}" by auto
  with k consider "n = k" "k < 8" | "n = 8 + k" "k < 8" | "n = 16 + k" "k < 8" | "n = 24 + k" "k < 8" by fastforce
  then show "bit ((rol x 24 AND 0xFF00FF00) OR (rol x 8 AND 0x00FF00FF)) n = bit (be_word [a, b, c, d]) n"
    unfolding swap_consts x_def
    by cases (simp_all add: bit_and_iff bit_or_iff bit_rol bit_be_word bit_push_bit_iff bit_mask_iff)
qed

subsection \<open>One call of a macro is one step\<close>

text \<open>The variables before the \<open>i\<close>-th call, in the order of the standard.\<close>

definition vars_at :: "nat \<Rightarrow> u32 list \<Rightarrow> vars" where
  "vars_at i r = (r ! (4 * i mod 5), r ! ((4 * i + 1) mod 5), r ! ((4 * i + 2) mod 5),
     r ! ((4 * i + 3) mod 5), r ! ((4 * i + 4) mod 5))"

lemma list_5: "length r = 5 \<Longrightarrow> \<exists>a b c d e. r = [a, b, c, d, e]"
  by (auto simp: length_Suc_conv numeral_eq_Suc)

lemma roles_distinct:
  fixes n :: nat
  shows "distinct [n mod 5, (n + 1) mod 5, (n + 2) mod 5, (n + 3) mod 5, (n + 4) mod 5]"
proof -
  have "n mod 5 < 5" by simp
  then have "n mod 5 \<in> {0, 1, 2, 3, 4}" by auto
  then show ?thesis
    by (simp only: mod_add_left_eq [of n 5, symmetric] insert_iff empty_iff) (elim disjE; simp)
qed

lemma roles_next:
  "4 * Suc i mod 5 = (4 * i + 4) mod 5" "(4 * Suc i + 1) mod 5 = 4 * i mod 5" "(4 * Suc i + 2) mod 5 = (4 * i + 1) mod 5"
  "(4 * Suc i + 3) mod 5 = (4 * i + 2) mod 5" "(4 * Suc i + 4) mod 5 = (4 * i + 3) mod 5"
proof -
  have "4 * Suc i = 4 * i + 4" "4 * Suc i + 1 = 4 * i + 5" "4 * Suc i + 2 = (4 * i + 1) + 5" "4 * Suc i + 3 = (4 * i + 2) + 5"
    "4 * Suc i + 4 = (4 * i + 3) + 5" by simp_all
  then show "4 * Suc i mod 5 = (4 * i + 4) mod 5" "(4 * Suc i + 1) mod 5 = 4 * i mod 5" "(4 * Suc i + 2) mod 5 = (4 * i + 1) mod 5"
    "(4 * Suc i + 3) mod 5 = (4 * i + 2) mod 5" "(4 * Suc i + 4) mod 5 = (4 * i + 3) mod 5"
    by (simp_all only: mod_add_self2)
qed

lemma round_macro_regs:
  assumes "distinct [v, w, x, y, z]" "z < length r" "w < length r" "blk_i B = (m, B')"
    and "round_macro mix k blk_i v w x y z (r, B) = (r', B'')"
  shows "B'' = B' \<and> length r' = length r \<and> r' ! z = r ! z + (mix (r ! w) (r ! x) (r ! y) + m + k + rol (r ! v) 5) \<and>
    r' ! v = r ! v \<and> r' ! w = rol (r ! w) 30 \<and> r' ! x = r ! x \<and> r' ! y = r ! y"
  using assms by (auto simp: round_macro_def Let_def)

lemma round_macro_step:
  assumes "length r = 5" "vars_at i r = (a, b, c, d, e)" "blk_i B = (m, B')"
    and "round_macro mix k blk_i (4 * i mod 5) ((4 * i + 1) mod 5) ((4 * i + 2) mod 5) ((4 * i + 3) mod 5) ((4 * i + 4) mod 5) (r, B) = (r', B'')"
  shows "B'' = B' \<and> length r' = 5 \<and> vars_at (Suc i) r' = (e + (mix b c d + m + k + rol a 5), a, rol b 30, c, d)"
  using round_macro_regs [OF roles_distinct _ _ assms(3,4)] assms(1,2)
  unfolding vars_at_def roles_next by simp

subsection \<open>The circular block holds the message schedule\<close>

definition sched :: "bool \<Rightarrow> bytes \<Rightarrow> nat \<Rightarrow> u32 list \<Rightarrow> bool" where
  "sched le buf i B \<longleftrightarrow> length B = 16 \<and>
     (\<forall>t<16. i \<le> t \<longrightarrow> B ! t = load_block le buf ! t) \<and>
     (\<forall>t<i. i \<le> t + 16 \<longrightarrow> B ! (t mod 16) = fips_W (be_words buf) t)"

lemma list_4: "length bs = 4 \<Longrightarrow> \<exists>a b c d. bs = [a, b, c, d]"
  by (auto simp: length_Suc_conv numeral_eq_Suc)

lemma load_swap:
  assumes "length bs = 4"
  shows "(rol (load_word True bs) 24 AND 0xFF00FF00) OR (rol (load_word True bs) 8 AND 0x00FF00FF) = be_word bs"
proof -
  obtain a b c d where bs: "bs = [a, b, c, d]" using list_4 [OF assms] by blast
  show ?thesis using byte_swap [of d c b a] by (simp add: bs load_word_def)
qed

lemma fips_W_first: "t < 16 \<Longrightarrow> fips_W M t = M ! t"
  by (simp add: fips_W.simps)

lemma blk0_sched:
  assumes "sched le buf i B" "i < 16" "length buf = 64"
  shows "\<exists>B'. blk0 le i B = (fips_W (be_words buf) i, B') \<and> sched le buf (Suc i) B'"
proof -
  have B: "length B = 16" "B ! i = load_word le (take 4 (drop (4 * i) buf))"
    using assms(1,2) by (auto simp: sched_def load_block_def)
  have l: "length (take 4 (drop (4 * i) buf)) = 4" using assms(2,3) by simp
  have W: "fips_W (be_words buf) i = be_word (take 4 (drop (4 * i) buf))"
    using assms(2) by (simp add: fips_W_first be_words_def)
  have s: "sched le buf (Suc i) (B[i := fips_W (be_words buf) i])"
    using assms(1,2) unfolding sched_def by (auto simp: nth_list_update less_Suc_eq)
  show ?thesis
  proof (cases le)
    case True
    then have "blk0 le i B = (be_word (take 4 (drop (4 * i) buf)), B[i := be_word (take 4 (drop (4 * i) buf))])"
      using load_swap [OF l] by (simp add: blk0_def B(2) Let_def)
    with s W show ?thesis by simp
  next
    case False
    then have "B ! i = fips_W (be_words buf) i" by (simp add: B(2) W load_word_def)
    then have "blk0 le i B = (fips_W (be_words buf) i, B[i := fips_W (be_words buf) i])"
      using False by (simp add: blk0_def) (metis list_update_id)
    with s show ?thesis by simp
  qed
qed

lemma blk_sched:
  assumes "sched le buf i B" "16 \<le> i"
  shows "\<exists>B'. blk i B = (fips_W (be_words buf) i, B') \<and> sched le buf (Suc i) B'"
proof -
  have w: "B ! (t mod 16) = fips_W (be_words buf) t" if "t < i" "i \<le> t + 16" for t
    using assms(1) that by (simp add: sched_def)
  have m: "(i + 13) mod 16 = (i - 3) mod 16" "(i + 8) mod 16 = (i - 8) mod 16" "(i + 2) mod 16 = (i - 14) mod 16"
    "i mod 16 = (i - 16) mod 16"
  proof -
    obtain j where "i = j + 16" using assms(2) le_Suc_ex [of 16 i] by auto
    then have j: "i - 3 = j + 13" "i - 8 = j + 8" "i - 14 = j + 2" "i - 16 = j"
      "i + 13 = (j + 13) + 16" "i + 8 = (j + 8) + 16" "i + 2 = (j + 2) + 16" "i = j + 16" by simp_all
    show "(i + 13) mod 16 = (i - 3) mod 16" "(i + 8) mod 16 = (i - 8) mod 16" "(i + 2) mod 16 = (i - 14) mod 16"
      by (simp_all only: j(1-7) mod_add_self2)
    show "i mod 16 = (i - 16) mod 16" using j(8) mod_add_self2 [of j 16] by simp
  qed
  have e: "B ! ((i + 13) mod 16) = fips_W (be_words buf) (i - 3)" "B ! ((i + 8) mod 16) = fips_W (be_words buf) (i - 8)"
    "B ! ((i + 2) mod 16) = fips_W (be_words buf) (i - 14)" "B ! (i mod 16) = fips_W (be_words buf) (i - 16)"
    using w [of "i - 3"] w [of "i - 8"] w [of "i - 14"] w [of "i - 16"] assms(2)
    unfolding m(1) m(2) m(3) by (simp_all add: m(4) [symmetric])
  have "rol (B ! ((i + 13) mod 16) XOR B ! ((i + 8) mod 16) XOR B ! ((i + 2) mod 16) XOR B ! (i mod 16)) 1 = fips_W (be_words buf) i"
    unfolding e using fips_W.simps [of "be_words buf" i] assms(2) by (simp add: rol_rotl)
  then have b: "blk i B = (fips_W (be_words buf) i, B[i mod 16 := fips_W (be_words buf) i])"
    by (simp add: blk_def Let_def)
  have ne: "i mod 16 \<noteq> t mod 16" if "t < i" "i \<le> t + 15" for t
    using that mod_eq_dvd_iff_nat [of t i 16] nat_dvd_not_less [of "i - t" 16] by auto
  then have "sched le buf (Suc i) (B[i mod 16 := fips_W (be_words buf) i])"
    using assms unfolding sched_def by (auto simp: nth_list_update less_Suc_eq dest: ne)
  with b show ?thesis by blast
qed

lemma round_call_form:
  assumes "sched le buf i B" "i < 80" "length buf = 64"
  shows "\<exists>mix k blk_i. round_call le i = round_macro mix k blk_i (4 * i mod 5) ((4 * i + 1) mod 5)
      ((4 * i + 2) mod 5) ((4 * i + 3) mod 5) ((4 * i + 4) mod 5) \<and> mix b c d = fips_f i b c d \<and> k = fips_K i \<and>
    (\<exists>B'. blk_i B = (fips_W (be_words buf) i, B') \<and> sched le buf (Suc i) B')"
    (is "\<exists>mix k blk_i. ?P mix k blk_i")
proof -
  consider "i < 16" | "16 \<le> i" "i < 20" | "20 \<le> i" "i < 40" | "40 \<le> i" "i < 60" | "60 \<le> i" by linarith
  then show ?thesis
  proof cases
    case 1
    then have "?P mix_1 0x5A827999 (blk0 le i)"
      using blk0_sched [OF assms(1) 1 assms(3)] by (simp add: round_call_def Let_def R0_def mix_fips fips_K_def)
    then show ?thesis by blast
  next
    case 2
    then have "?P mix_1 0x5A827999 (blk i)"
      using blk_sched [OF assms(1) 2(1)] by (simp add: round_call_def Let_def R1_def mix_fips fips_K_def)
    then show ?thesis by blast
  next
    case 3
    then have "?P mix_2 0x6ED9EBA1 (blk i)"
      using blk_sched [OF assms(1)] by (simp add: round_call_def Let_def R2_def mix_fips fips_K_def)
    then show ?thesis by blast
  next
    case 4
    then have "?P mix_3 0x8F1BBCDC (blk i)"
      using blk_sched [OF assms(1)] by (simp add: round_call_def Let_def R3_def mix_fips fips_K_def)
    then show ?thesis by blast
  next
    case 5
    then have "?P mix_2 0xCA62C1D6 (blk i)"
      using blk_sched [OF assms(1)] by (simp add: round_call_def Let_def R4_def mix_fips fips_K_def)
    then show ?thesis by blast
  qed
qed

lemma round_call_step:
  assumes "sched le buf i B" "i < 80" "length buf = 64" "length r = 5" "round_call le i (r, B) = (r', B')"
  shows "sched le buf (Suc i) B' \<and> length r' = 5 \<and> vars_at (Suc i) r' = fips_step (be_words buf) i (vars_at i r)"
proof -
  obtain a b c d e where v: "vars_at i r = (a, b, c, d, e)" by (cases "vars_at i r") auto
  obtain mix k blk_i where call: "round_call le i = round_macro mix k blk_i (4 * i mod 5) ((4 * i + 1) mod 5)
      ((4 * i + 2) mod 5) ((4 * i + 3) mod 5) ((4 * i + 4) mod 5)"
    and mix: "mix b c d = fips_f i b c d" and k: "k = fips_K i"
    and blk: "\<exists>B'. blk_i B = (fips_W (be_words buf) i, B') \<and> sched le buf (Suc i) B'"
    using round_call_form [OF assms(1-3), of b c d] by blast
  obtain B1 where B1: "blk_i B = (fips_W (be_words buf) i, B1)" "sched le buf (Suc i) B1" using blk by blast
  have "B' = B1 \<and> length r' = 5 \<and> vars_at (Suc i) r' = (e + (mix b c d + fips_W (be_words buf) i + k + rol a 5), a, rol b 30, c, d)"
    by (rule round_macro_step [where blk_i = blk_i and r = r]) (use assms(4,5) v B1(1) in \<open>simp_all add: call\<close>)
  with B1(2) show ?thesis by (simp add: v mix k rol_rotl add_ac)
qed

lemma rounds:
  assumes "length buf = 64" "length H = 5" "n \<le> 80" "fold (round_call le) [0..<n] (H, load_block le buf) = (r, B)"
  shows "sched le buf n B \<and> length r = 5 \<and> vars_at n r = fold (fips_step (be_words buf)) [0..<n] (vars_at 0 H)"
  using assms(3,4)
proof (induction n arbitrary: r B)
  case 0
  then show ?case using assms(2) by (auto simp: sched_def load_block_def)
next
  case (Suc n)
  obtain r1 B1 where 1: "fold (round_call le) [0..<n] (H, load_block le buf) = (r1, B1)" by fastforce
  have i: "sched le buf n B1 \<and> length r1 = 5 \<and> vars_at n r1 = fold (fips_step (be_words buf)) [0..<n] (vars_at 0 H)"
    using Suc.IH [OF _ 1] Suc.prems(1) by simp
  have "round_call le n (r1, B1) = (r, B)" using Suc.prems(2) 1 by simp
  from round_call_step [OF _ _ assms(1) _ this] i Suc.prems(1) show ?case by simp
qed

fun state_vars :: "u32 list \<Rightarrow> vars" where
  "state_vars [a, b, c, d, e] = (a, b, c, d, e)"
| "state_vars _ = (0, 0, 0, 0, 0)"

lemma transform_is_compress:
  assumes "length H = 5" "length buf = 64"
  shows "length (transform le H buf) = 5 \<and> state_vars (transform le H buf) = fips_compress (state_vars H) buf"
proof -
  obtain r B where f: "fold (round_call le) [0..<80] (H, load_block le buf) = (r, B)" by fastforce
  obtain a b c d e where H: "H = [a, b, c, d, e]" using list_5 [OF assms(1)] by blast
  have r: "length r = 5" "vars_at 80 r = fold (fips_step (be_words buf)) [0..<80] (vars_at 0 H)"
    using rounds [OF assms(2,1) _ f] by simp_all
  obtain a' b' c' d' e' where r': "r = [a', b', c', d', e']" using list_5 [OF r(1)] by blast
  have "vars_at 80 r = (a', b', c', d', e')" "vars_at 0 H = (a, b, c, d, e)"
    by (simp_all add: vars_at_def r' H)
  with r(2) show ?thesis
    unfolding transform_def f prod.case by (simp add: H r' fips_compress_def)
qed

end
