(* ===== verification/Streaming.thy ===== *)
theory Streaming
  imports Prelude
begin

text \<open>
  The contract of a digest that takes its input in pieces (\<open>sha1\<close>): a state stands for the
  bytes it has seen, an update appends to them, and the digest depends on nothing else. The
  handshake hashes in one piece; that any other cut gives the same digest is proved here once.
\<close>

fun feed_all :: "('s \<Rightarrow> bytes \<Rightarrow> 's option) \<Rightarrow> 's \<Rightarrow> bytes list \<Rightarrow> 's option" where
  "feed_all feed s [] = Some s"
| "feed_all feed s (p # ps) = (case feed s p of None \<Rightarrow> None | Some s \<Rightarrow> feed_all feed s ps)"

locale streaming_hash =
  fixes start :: 's
    and feed :: "'s \<Rightarrow> bytes \<Rightarrow> 's option"
    and digest :: "'s \<Rightarrow> bytes option"
    and stands_for :: "'s \<Rightarrow> bytes \<Rightarrow> bool"
    and piece_fits :: "bytes \<Rightarrow> bool"
    and input_fits :: "bytes \<Rightarrow> bool"
    and spec :: "bytes \<Rightarrow> bytes"
  assumes start: "stands_for start []"
    and feed: "stands_for s xs \<Longrightarrow> piece_fits ys \<Longrightarrow> \<exists>s'. feed s ys = Some s' \<and> stands_for s' (xs @ ys)"
    and digest: "stands_for s xs \<Longrightarrow> input_fits xs \<Longrightarrow> digest s = Some (spec xs)"
begin

lemma feed_all: "stands_for s xs \<Longrightarrow> list_all piece_fits ps \<Longrightarrow>
  \<exists>s'. feed_all feed s ps = Some s' \<and> stands_for s' (xs @ concat ps)"
proof (induction ps arbitrary: s xs)
  case (Cons p ps)
  then obtain s1 where "feed s p = Some s1" "stands_for s1 (xs @ p)" using feed by fastforce
  with Cons.IH [of s1 "xs @ p"] Cons.prems(2) show ?case by auto
qed auto

lemma digest_pieces: "list_all piece_fits ps \<Longrightarrow> input_fits (concat ps) \<Longrightarrow>
  \<exists>s. feed_all feed start ps = Some s \<and> digest s = Some (spec (concat ps))"
  using feed_all [OF start, of ps] digest by fastforce

end

end
