(* ===== verification/Sha1_Props.thy ===== *)
theory Sha1_Props
  imports Sha1 Streaming
begin

text \<open>
  The digest of \<open>Sha1\<close> is the digest of FIPS 180-4, however the input is cut into calls of
  \<open>update\<close>.
\<close>

subsection \<open>The digest of the standard\<close>

function fips_blocks :: "vars \<Rightarrow> bytes \<Rightarrow> vars" where
  "fips_blocks H xs = (if length xs < 64 then H else fips_blocks (fips_compress H (take 64 xs)) (drop 64 xs))"
  by pat_completeness auto
termination
  by (relation "measure (\<lambda>(H, xs). length xs)") auto

declare fips_blocks.simps [simp del]

definition be64 :: "nat \<Rightarrow> bytes" where
  "be64 n = map (\<lambda>i. word_of_nat (n div 2 ^ (8 * (7 - i)))) [0..<8]"

definition fips_pad :: "bytes \<Rightarrow> bytes" where
  "fips_pad xs = xs @ [0x80] @ replicate ((119 - length xs mod 64) mod 64) 0 @ be64 (8 * length xs)"

definition be_bytes :: "u32 \<Rightarrow> bytes" where
  "be_bytes w = [ucast (drop_bit 24 w), ucast (drop_bit 16 w), ucast (drop_bit 8 w), ucast w]"

fun vars_bytes :: "vars \<Rightarrow> bytes" where
  "vars_bytes (a, b, c, d, e) = be_bytes a @ be_bytes b @ be_bytes c @ be_bytes d @ be_bytes e"

definition fips_H0 :: vars where
  "fips_H0 = (0x67452301, 0xEFCDAB89, 0x98BADCFE, 0x10325476, 0xC3D2E1F0)"

definition fips_sha1 :: "bytes \<Rightarrow> bytes" where
  "fips_sha1 xs = vars_bytes (fips_blocks fips_H0 (fips_pad xs))"

lemma fips_blocks_append: "length xs mod 64 = 0 \<Longrightarrow> fips_blocks H (xs @ ys) = fips_blocks (fips_blocks H xs) ys"
proof (induction H xs rule: fips_blocks.induct)
  case (1 H xs)
  show ?case
  proof (cases "length xs < 64")
    case True
    with 1(2) have "xs = []" by auto
    then show ?thesis by (simp add: fips_blocks.simps [of H "[]"])
  next
    case False
    then have l: "length (drop 64 xs) mod 64 = 0" using 1(2) by (simp add: le_mod_geq [symmetric] not_less)
    have "fips_blocks H (xs @ ys) = fips_blocks (fips_compress H (take 64 xs)) (drop 64 xs @ ys)"
      using False by (subst fips_blocks.simps) simp
    also have "\<dots> = fips_blocks (fips_blocks (fips_compress H (take 64 xs)) (drop 64 xs)) ys"
      by (rule 1(1) [OF False l])
    also have "fips_blocks (fips_compress H (take 64 xs)) (drop 64 xs) = fips_blocks H xs"
      using False by (subst (2) fips_blocks.simps) simp
    finally show ?thesis .
  qed
qed

lemma fips_blocks_short: "length xs < 64 \<Longrightarrow> fips_blocks H xs = H"
  by (simp add: fips_blocks.simps)

lemma fips_blocks_one: "length xs = 64 \<Longrightarrow> fips_blocks H xs = fips_compress H xs"
  by (subst fips_blocks.simps) (simp add: fips_blocks_short)

subsection \<open>The bit count\<close>

lemma unat_u32: "unat (word_of_nat n :: u32) = n mod 2 ^ 32"
  by (simp only: unat_of_nat take_bit_eq_mod) simp

definition count_of :: "nat \<Rightarrow> u32 \<times> u32" where
  "count_of n = (word_of_nat (8 * n), word_of_nat (8 * n div 2 ^ 32))"

lemma wrap_less:
  fixes j l K :: nat
  assumes "j < K" "l < K"
  shows "(j + l) mod K < j \<longleftrightarrow> K \<le> j + l" "(j + l) div K = (if K \<le> j + l then 1 else 0)"
proof -
  have "(j + l) mod K = (if K \<le> j + l then j + l - K else j + l)"
    using assms by (auto simp: le_mod_geq)
  then show "(j + l) mod K < j \<longleftrightarrow> K \<le> j + l" using assms by auto
  show "(j + l) div K = (if K \<le> j + l then 1 else 0)" using assms by (auto simp: div_if)
qed

lemma count_add_of:
  assumes "len < 2 ^ 61"
  shows "count_add (count_of n) len = count_of (n + len)"
proof -
  define j l :: nat where "j = 8 * n mod 2 ^ 32" and "l = 8 * len mod 2 ^ 32"
  have m: "8 * len mod 2 ^ 64 = 8 * len" using assms by simp
  have c0: "(word_of_nat (8 * n) + word_of_nat (8 * len) :: u32) = word_of_nat (8 * (n + len))"
    by (simp add: distrib_left)
  have "unat (word_of_nat (8 * n) :: u32) = j" by (simp only: j_def unat_u32)
  moreover have "unat (word_of_nat (8 * (n + len)) :: u32) = (j + l) mod 2 ^ 32"
    by (simp only: j_def l_def unat_u32 distrib_left mod_add_eq)
  moreover have b: "j < 2 ^ 32" "l < 2 ^ 32" by (simp_all add: j_def l_def)
  ultimately have less: "(word_of_nat (8 * (n + len)) :: u32) < word_of_nat (8 * n) \<longleftrightarrow> 2 ^ 32 \<le> j + l"
    unfolding word_less_nat_alt using wrap_less(1) by (simp only:)
  have "8 * (n + len) div 2 ^ 32 = 8 * n div 2 ^ 32 + 8 * len div 2 ^ 32 + (j + l) div 2 ^ 32"
    unfolding j_def l_def distrib_left by (rule div_add1_eq)
  moreover have "(j + l) div 2 ^ 32 = (if 2 ^ 32 \<le> j + l then 1 else 0)"
    by (rule wrap_less(2) [OF b])
  moreover have "8 * len div 2 ^ 32 = len div 2 ^ 29" by simp
  ultimately have "(word_of_nat (8 * (n + len) div 2 ^ 32) :: u32) =
      (if 2 ^ 32 \<le> j + l then word_of_nat (8 * n div 2 ^ 32) + 1 else word_of_nat (8 * n div 2 ^ 32)) + word_of_nat (len div 2 ^ 29)"
    by (simp only:) simp
  then show ?thesis
    unfolding count_add_def count_of_def Let_def fst_conv snd_conv m c0 less by simp
qed

lemma count_position: "unat (drop_bit 3 (fst (count_of n)) AND 63) = n mod 64"
proof -
  have "(63 :: u32) = mask 6" by (simp add: mask_eq_exp_minus_1)
  then have "unat (drop_bit 3 (fst (count_of n)) AND 63) = take_bit 6 (drop_bit 3 (unat (word_of_nat (8 * n) :: u32)))"
    by (simp only: count_of_def fst_conv take_bit_eq_mask [symmetric] unsigned_take_bit_eq unsigned_drop_bit_eq)
      (simp add: take_bit_drop_bit min_def)
  also have "\<dots> = (8 * n mod 2 ^ 32) div 8 mod 64"
    by (simp only: unat_u32 take_bit_eq_mod drop_bit_eq_div) simp
  also have "(8 * n mod 2 ^ 32) div 8 = n mod 2 ^ 29" using mult_mod_right [of 8 n "2 ^ 29"] by simp
  also have "n mod 2 ^ 29 mod 64 = n mod 64" by (simp add: mod_mod_cancel)
  finally show ?thesis .
qed

subsection \<open>What a state stands for\<close>

definition sha1_rel :: "sha1 \<Rightarrow> bytes \<Rightarrow> bool" where
  "sha1_rel s xs \<longleftrightarrow> length (m_state s) = 5 \<and> state_vars (m_state s) = fips_blocks fips_H0 xs \<and>
     length (m_buffer s) = 64 \<and> take (length xs mod 64) (m_buffer s) = drop (length xs - length xs mod 64) xs \<and>
     m_count s = count_of (length xs)"

lemma sha1_rel_init: "sha1_rel sha1_init []"
  by (simp add: sha1_rel_def sha1_init_def fips_blocks_short fips_H0_def count_of_def)

definition piece_fits :: "bytes \<Rightarrow> bool" where
  "piece_fits data \<longleftrightarrow> length data \<le> 2 ^ 32 - 64"

lemma update_loop_blocks:
  assumes "piece_fits data" "unat i \<le> length data" "length st = 5"
  shows "\<exists>i' st'. update_loop le data i st = Some (i', st') \<and> length st' = 5 \<and>
    state_vars st' = fips_blocks (state_vars st) (drop (unat i) data) \<and>
    unat i' = length data - (length data - unat i) mod 64"
  using assms(2,3)
proof (induction "length data - unat i" arbitrary: i st rule: less_induct)
  case less
  have "unat i + 64 \<le> 2 ^ 32" using assms(1) less.prems(1) by (simp add: piece_fits_def)
  then have i63: "unat (i + 63) = unat i + 63"
    by (simp add: unat_word_ariths)
  show ?case
  proof (cases "unat i + 63 < length data")
    case True
    then have i64: "unat (i + 64) = unat i + 64"
      using assms(1) by (simp add: unat_word_ariths piece_fits_def)
    let ?b = "take 64 (drop (unat i) data)" and ?st = "transform le st (take 64 (drop (unat i) data))"
    have st: "length ?st = 5" "state_vars ?st = fips_compress (state_vars st) ?b"
      using transform_is_compress [of st ?b le] less.prems(2) True by simp_all
    have "\<exists>i' st'. update_loop le data (i + 64) ?st = Some (i', st') \<and> length st' = 5 \<and>
      state_vars st' = fips_blocks (state_vars ?st) (drop (unat (i + 64)) data) \<and>
      unat i' = length data - (length data - unat (i + 64)) mod 64"
      using True i64 st(1) by (intro less.hyps) simp_all
    moreover have "update_loop le data i st = update_loop le data (i + 64) ?st"
      using True i63 by (subst update_loop.simps) (simp add: slice_def)
    moreover have "fips_blocks (state_vars st) (drop (unat i) data) = fips_blocks (fips_compress (state_vars st) ?b) (drop (unat i + 64) data)"
    proof -
      have "\<not> length (drop (unat i) data) < 64" using True by simp
      then show ?thesis
        using fips_blocks.simps [of "state_vars st" "drop (unat i) data"] by (simp only: if_False drop_drop add.commute)
    qed
    moreover have "(length data - unat i) mod 64 = (length data - (unat i + 64)) mod 64"
      using True le_mod_geq [of 64 "length data - unat i"] by simp
    ultimately show ?thesis by (simp add: st(2) i64)
  next
    case False
    then have "update_loop le data i st = Some (i, st)" using i63 by (subst update_loop.simps) simp
    moreover have "(length data - unat i) mod 64 = length data - unat i" using False by simp
    ultimately show ?thesis using less.prems False by (simp add: fips_blocks_short)
  qed
qed

lemma fips_blocks_tail: "fips_blocks H xs = fips_blocks H (take (length xs - length xs mod 64) xs)"
proof -
  have l: "length (take (length xs - length xs mod 64) xs) mod 64 = 0" by simp
  have "fips_blocks H xs = fips_blocks H (take (length xs - length xs mod 64) xs @ drop (length xs - length xs mod 64) xs)"
    by simp
  also have "\<dots> = fips_blocks (fips_blocks H (take (length xs - length xs mod 64) xs)) (drop (length xs - length xs mod 64) xs)"
    by (rule fips_blocks_append [OF l])
  finally show ?thesis by (simp add: fips_blocks_short)
qed

lemma sha1_update_short:
  assumes "sha1_rel s xs" "length xs mod 64 + length ys \<le> 63"
  shows "\<exists>s'. sha1_update le s ys = Some s' \<and> sha1_rel s' (xs @ ys)"
proof -
  let ?n = "length xs" and ?j = "length xs mod 64"
  have c: "count_add (m_count s) (length ys) = count_of (?n + length ys)"
    using assms by (simp add: sha1_rel_def count_add_of)
  have j: "unat (drop_bit 3 (fst (m_count s)) AND 63) = ?j"
    using assms(1) by (simp add: sha1_rel_def count_position)
  have b: "length (m_buffer s) = 64" "take ?j (m_buffer s) = drop (?n - ?j) xs"
    using assms(1) by (simp_all add: sha1_rel_def)
  let ?buf = "take ?j (m_buffer s) @ ys @ drop (?j + length ys) (m_buffer s)"
  have u: "sha1_update le s ys = Some (s\<lparr>m_count := count_of (?n + length ys), m_buffer := ?buf\<rparr>)"
    using assms(2) b(1) by (simp add: sha1_update_def Let_def j c memcpy_def)
  have m: "(?n + length ys) mod 64 = ?j + length ys"
    using assms(2) mod_add_left_eq [of ?n 64 "length ys"] by simp
  have w: "?n + length ys - (?j + length ys) = ?n - ?j" by simp
  have "fips_blocks fips_H0 (xs @ ys) = fips_blocks fips_H0 (take (?n - ?j) xs)"
    using fips_blocks_tail [of fips_H0 "xs @ ys"] m w by simp
  also have "\<dots> = fips_blocks fips_H0 xs" by (rule fips_blocks_tail [symmetric])
  finally have "fips_blocks fips_H0 (xs @ ys) = fips_blocks fips_H0 xs" .
  then have "sha1_rel (s\<lparr>m_count := count_of (?n + length ys), m_buffer := ?buf\<rparr>) (xs @ ys)"
    using assms b m w by (simp add: sha1_rel_def)
  with u show ?thesis by blast
qed

lemma sha1_update_long:
  assumes "sha1_rel s xs" "piece_fits ys" "63 < length xs mod 64 + length ys"
  shows "\<exists>s'. sha1_update le s ys = Some s' \<and> sha1_rel s' (xs @ ys)"
proof -
  define n j k where "n = length xs" and "j = length xs mod 64" and "k = 64 - j"
  have jk: "j < 64" "j + k = 64" "k \<le> length ys" using assms(3) by (simp_all add: j_def k_def)
  have c: "count_add (m_count s) (length ys) = count_of (n + length ys)"
    using assms(1,2) by (simp add: sha1_rel_def count_add_of n_def piece_fits_def)
  have j: "unat (drop_bit 3 (fst (m_count s)) AND 63) = j"
    using assms(1) by (simp add: sha1_rel_def count_position j_def)
  then have i: "unat (64 - (drop_bit 3 (fst (m_count s)) AND 63)) = k"
    using jk by (subst unat_sub) (simp_all add: word_le_nat_alt k_def)
  have b: "length (m_buffer s) = 64" "take j (m_buffer s) = drop (n - j) xs"
    using assms(1) by (simp_all add: sha1_rel_def n_def j_def)
  let ?buf = "take j (m_buffer s) @ take k ys"
  have buf: "length ?buf = 64" using b(1) jk by simp
  let ?st = "transform le (m_state s) ?buf"
  have st: "length ?st = 5" "state_vars ?st = fips_compress (fips_blocks fips_H0 xs) ?buf"
    using transform_is_compress [of "m_state s" ?buf le] assms(1) buf by (simp_all add: sha1_rel_def)
  have whole: "length (xs @ take k ys) mod 64 = 0"
  proof -
    have "n mod 64 + k = 64" using jk by (simp add: n_def j_def)
    then have "(n + k) mod 64 = 0" using mod_add_left_eq [of n 64 k] by simp
    then show ?thesis using jk by (simp add: n_def)
  qed
  have st': "state_vars ?st = fips_blocks fips_H0 (xs @ take k ys)"
  proof -
    have l: "length (take (n - j) xs) mod 64 = 0" by (simp add: n_def j_def)
    have "take (n - j) xs @ take j (m_buffer s) = xs" using b(2) by simp
    then have x: "xs @ take k ys = take (n - j) xs @ ?buf" by (metis append.assoc)
    have "fips_blocks fips_H0 (xs @ take k ys) = fips_blocks (fips_blocks fips_H0 (take (n - j) xs)) ?buf"
      unfolding x by (rule fips_blocks_append [OF l])
    also have "fips_blocks fips_H0 (take (n - j) xs) = fips_blocks fips_H0 xs"
      using fips_blocks_tail [of fips_H0 xs] by (simp add: n_def j_def)
    finally show ?thesis using st(2) fips_blocks_one [OF buf] by simp
  qed
  obtain i' t where loop: "update_loop le ys (64 - (drop_bit 3 (fst (m_count s)) AND 63)) ?st = Some (i', t)" "length t = 5"
    "state_vars t = fips_blocks (state_vars ?st) (drop k ys)" "unat i' = length ys - (length ys - k) mod 64"
    using update_loop_blocks [OF assms(2) _ st(1), of _ le] jk(3) i by (metis i)
  define m where "m = (length ys - k) mod 64"
  have m: "m < 64" "m \<le> length ys" "unat i' = length ys - m" using loop(4) jk(3) by (auto simp: m_def intro: order_trans [OF mod_less_eq_dividend])
  have "length (xs @ ys) = length (xs @ take k ys) + (length ys - k)" using jk by simp
  then have "length (xs @ ys) mod 64 = (length (xs @ take k ys) mod 64 + (length ys - k)) mod 64"
    by (simp only: mod_add_left_eq)
  then have mm: "length (xs @ ys) mod 64 = m"
    by (simp only: whole m_def add_0)
  let ?buf' = "drop (length ys - m) ys @ drop m ?buf"
  let ?s = "s\<lparr>m_count := count_of (n + length ys), m_state := t, m_buffer := ?buf'\<rparr>"
  have u: "sha1_update le s ys = Some ?s"
    using jk buf b(1) m loop(1) assms(3)
    by (simp add: sha1_update_def Let_def j i c memcpy_def slice_def del: length_append)
  have "fips_blocks fips_H0 (xs @ ys) = fips_blocks (fips_blocks fips_H0 (xs @ take k ys)) (drop k ys)"
    using fips_blocks_append [OF whole, of fips_H0 "drop k ys"] by simp
  then have "state_vars t = fips_blocks fips_H0 (xs @ ys)" using loop(3) st' by simp
  then have "sha1_rel ?s (xs @ ys)"
    unfolding sha1_rel_def mm using loop(2) buf m by (simp add: n_def)
  with u show ?thesis by blast
qed

lemma sha1_update_rel:
  assumes "sha1_rel s xs" "piece_fits ys"
  shows "\<exists>s'. sha1_update le s ys = Some s' \<and> sha1_rel s' (xs @ ys)"
  using sha1_update_short [OF assms(1)] sha1_update_long [OF assms] by fastforce

subsection \<open>Padding and the digest\<close>

lemma count_448: "fst (count_of n) AND 504 = 448 \<longleftrightarrow> n mod 64 = 56"
proof -
  have c: "(504 :: u32) = push_bit 3 (mask 6)" "(63 :: u32) = mask 6"
    by (simp_all add: mask_eq_exp_minus_1 push_bit_eq_mult)
  have "fst (count_of n) AND 504 = push_bit 3 (drop_bit 3 (fst (count_of n)) AND 63)" (is "_ = push_bit 3 ?j")
    unfolding c by (intro bit_word_eqI) (auto simp: bit_simps)
  moreover have "unat ?j = n mod 64" by (rule count_position)
  then have "?j = word_of_nat (n mod 64)" by (metis of_nat_unat ucast_id)
  ultimately have e: "fst (count_of n) AND 504 = 8 * word_of_nat (n mod 64)" by (simp add: push_bit_eq_mult)
  have "unat (8 * word_of_nat (n mod 64) :: u32) = 8 * (n mod 64)"
    by (simp add: unat_word_ariths unat_u32)
  then show ?thesis unfolding e word_unat_eq_iff by simp
qed

lemma pad_loop_rel:
  assumes "sha1_rel s xs" "k < 64" "(length xs + k) mod 64 = 56"
  shows "\<exists>s'. pad_loop le s = Some s' \<and> sha1_rel s' (xs @ replicate k 0)"
  using assms
proof (induction k arbitrary: s xs)
  case 0
  then have "m_count s = count_of (length xs)" by (simp add: sha1_rel_def)
  then show ?case using 0 by (subst pad_loop.simps) (simp add: count_448)
next
  case (Suc k)
  have "m_count s = count_of (length xs)" using Suc.prems(1) by (simp add: sha1_rel_def)
  moreover have "length xs mod 64 \<noteq> 56"
  proof
    assume "length xs mod 64 = 56"
    then have "(56 + Suc k) mod 64 = 56" using Suc.prems(3) mod_add_left_eq [of "length xs" 64 "Suc k"] by simp
    then show False using Suc.prems(2) by presburger
  qed
  ultimately have l: "pad_loop le s = (case sha1_update le s [0] of None \<Rightarrow> None | Some s \<Rightarrow> pad_loop le s)"
    by (subst pad_loop.simps) (simp add: count_448)
  obtain s1 where s1: "sha1_update le s [0] = Some s1" "sha1_rel s1 (xs @ [0])"
    using sha1_update_rel [OF Suc.prems(1), of "[0]" le] by (auto simp: piece_fits_def)
  with Suc.IH [OF s1(2)] Suc.prems(2,3) show ?case by (auto simp: l)
qed

lemma finalcount_split: "finalcount (word_of_nat m, word_of_nat (m div 2 ^ 32)) = be64 m"
proof -
  have b: "ucast (drop_bit k (word_of_nat n :: u32) AND 255) = (word_of_nat (n div 2 ^ k) :: u8)" if "k \<le> 24" for k n
  proof -
    have m: "(255 :: u32) = mask 8" by (simp add: mask_eq_exp_minus_1)
    show ?thesis unfolding m using that
      by (intro bit_word_eqI) (auto simp: bit_simps simp flip: drop_bit_eq_div)
  qed
  show ?thesis
    unfolding finalcount_def be64_def fst_conv snd_conv
    using b [of 0 m] b [of 0 "m div 2 ^ 32"] by (simp add: b upt_conv_Cons flip: div_mult2_eq)
qed

lemma finalcount_be64: "finalcount (count_of n) = be64 (8 * n)"
  unfolding count_of_def by (rule finalcount_split)

lemma digest_vars:
  assumes "length st = 5"
  shows "digest_of st = vars_bytes (state_vars st)"
proof -
  have b: "(ucast (w AND 255) :: u8) = ucast (w :: u32)" for w
  proof -
    have m: "(255 :: u32) = mask 8" by (simp add: mask_eq_exp_minus_1)
    show ?thesis unfolding m by (intro bit_word_eqI) (auto simp: bit_simps)
  qed
  obtain v w x y z where "st = [v, w, x, y, z]" using list_5 [OF assms] by blast
  then show ?thesis by (simp add: digest_of_def be_bytes_def upt_conv_Cons b)
qed

definition input_fits :: "bytes \<Rightarrow> bool" where
  "input_fits xs \<longleftrightarrow> length xs < 2 ^ 61"

lemma sha1_finish_rel:
  assumes "sha1_rel s xs" "input_fits xs"
  shows "sha1_finish le s = Some (fips_sha1 xs)"
proof -
  define k where "k = (119 - length xs mod 64) mod 64"
  have k: "k < 64" "(length (xs @ [128]) + k) mod 64 = 56"
  proof -
    show "k < 64" by (simp add: k_def)
    define r where "r = length xs mod 64"
    have "r < 64" by (simp add: r_def)
    then have "(119 - r) mod 64 = (if r \<le> 55 then 55 - r else 119 - r)" by (auto simp: le_mod_geq)
    with \<open>r < 64\<close> have "(r + 1 + (119 - r) mod 64) mod 64 = 56" by auto
    then have "(length xs mod 64 + 1 + k) mod 64 = 56" by (simp only: k_def r_def)
    then show "(length (xs @ [128]) + k) mod 64 = 56"
      using mod_add_left_eq [of "length xs" 64 "1 + k"] by simp
  qed
  obtain s1 where s1: "sha1_update le s [128] = Some s1" "sha1_rel s1 (xs @ [128])"
    using sha1_update_rel [OF assms(1), of "[128]" le] by (auto simp: piece_fits_def)
  obtain s2 where s2: "pad_loop le s1 = Some s2" "sha1_rel s2 ((xs @ [128]) @ replicate k 0)"
    using pad_loop_rel [OF s1(2) k] by blast
  have fc: "finalcount (m_count s) = be64 (8 * length xs)"
    using assms by (simp add: sha1_rel_def input_fits_def finalcount_be64)
  have "piece_fits (be64 (8 * length xs))" by (simp add: piece_fits_def be64_def)
  then obtain s3 where s3: "sha1_update le s2 (be64 (8 * length xs)) = Some s3"
    "sha1_rel s3 (((xs @ [128]) @ replicate k 0) @ be64 (8 * length xs))"
    using sha1_update_rel [OF s2(2)] by blast
  have "fips_pad xs = ((xs @ [128]) @ replicate k 0) @ be64 (8 * length xs)"
    by (simp add: fips_pad_def k_def)
  then show ?thesis
    using s1 s2 s3 fc digest_vars [of "m_state s3"]
    by (simp add: sha1_finish_def Let_def sha1_rel_def fips_sha1_def)
qed

interpretation sha1: streaming_hash sha1_init "sha1_update le" "sha1_finish le" sha1_rel piece_fits input_fits fips_sha1
  for le
  by unfold_locales (use sha1_rel_init sha1_update_rel sha1_finish_rel in blast)+

lemma sha1_hash_fips:
  assumes "length data \<le> 2 ^ 32 - 64"
  shows "sha1_hash le data = Some (fips_sha1 data)"
proof -
  have "piece_fits data" "input_fits data" using assms by (simp_all add: piece_fits_def input_fits_def)
  then show ?thesis
    using sha1.feed [OF sha1.start, of data le] sha1.digest [of _ data le] by (auto simp: sha1_hash_def)
qed

lemma length_fips_sha1 [simp]: "length (fips_sha1 xs) = 20"
  by (cases "fips_blocks fips_H0 (fips_pad xs)") (simp add: fips_sha1_def be_bytes_def)

subsection \<open>Properties\<close>

text \<open>
  C4: \<open>sha1::hash\<close> returns, on either byte order, and gives the SHA-1 digest of FIPS 180-4,
  for every input of at most 2^32 - 64 bytes: the unrolled rounds on a circular block, the
  swapped choice and majority functions, the carry of the bit count and the padding one byte
  at a time compute what the standard defines with an 80 word schedule and a padded message.
\<close>

theorem sha1_hash_is_fips:
  assumes "length data \<le> 2 ^ 32 - 64"
  shows "sha1_hash le data = Some (fips_sha1 data)"
  using assms by (rule sha1_hash_fips)

theorem sha1_hash_is_fips_witness:
  "sha1_hash True (bytes_of_string ''abc'') = Some (fips_sha1 (bytes_of_string ''abc''))"
  by (rule sha1_hash_is_fips) simp

text \<open>
  Any sequence of \<open>update\<close> calls, however it cuts the input (the pieces each at most
  2^32 - 64 bytes, together less than 2^61), followed by \<open>finish\<close>, gives the digest of the
  concatenation.
\<close>

theorem sha1_pieces:
  assumes "list_all (\<lambda>p. length p \<le> 2 ^ 32 - 64) ps" "length (concat ps) < 2 ^ 61"
  shows "\<exists>s. feed_all (sha1_update le) sha1_init ps = Some s \<and> sha1_finish le s = Some (fips_sha1 (concat ps))"
proof -
  have "list_all piece_fits ps" using assms(1) by (simp add: list_all_iff piece_fits_def)
  then show ?thesis using sha1.digest_pieces [of ps le] assms(2) by (simp add: input_fits_def)
qed

theorem sha1_pieces_witness:
  "\<exists>s. feed_all (sha1_update True) sha1_init [[0x61], [], [0x62, 0x63]] = Some s \<and>
     sha1_finish True s = Some (fips_sha1 [0x61, 0x62, 0x63])"
  using sha1_pieces [of "[[0x61], [], [0x62, 0x63]]" True] by simp

lemma update_loop_short_input:
  assumes "update_loop le data i st = Some r"
  shows "length data < 2 ^ 32"
proof (rule update_loop.raw_induct [where P = "\<lambda>le data i st r. length data < 2 ^ 32", OF _ assms])
  fix loop :: "bool \<Rightarrow> bytes \<Rightarrow> u32 \<Rightarrow> u32 list \<Rightarrow> (u32 \<times> u32 list) option" and le data i st r
  assume IH: "\<And>le data i st r. loop le data i st = Some r \<Longrightarrow> length data < 2 ^ 32"
    and body: "(if unat (i + 63) < length data then case slice data (unat i) 64 of None \<Rightarrow> None
      | Some b \<Rightarrow> loop le data (i + 64) (transform le st b) else Some (i, st)) = Some r"
  show "length data < 2 ^ 32"
  proof (cases "unat (i + 63) < length data")
    case True
    with body IH show ?thesis by (auto split: option.splits)
  next
    case False
    moreover have "unat (i + 63) < 2 ^ 32" using unsigned_less [of "i + 63", where 'a = nat] by simp
    ultimately show ?thesis by linarith
  qed
qed

text \<open>
  A single \<open>update\<close> with 2^32 bytes or more does not return: the index of the loop is a
  \<open>uint32_t\<close>, the bound it is compared with is a \<open>size_t\<close>.
\<close>

theorem sha1_update_hangs:
  assumes "2 ^ 32 \<le> length data"
  shows "sha1_update le s data = None"
proof -
  have "update_loop le data i st = None" for i st
    using update_loop_short_input [of le data i st] assms by (cases "update_loop le data i st") auto
  then show ?thesis using assms by (auto simp: sha1_update_def Let_def split: option.splits)
qed

theorem sha1_update_hangs_witness: "sha1_update True sha1_init (replicate (2 ^ 32) 0) = None"
  by (rule sha1_update_hangs) simp

end
