(* ===== verification/Util.thy ===== *)
theory Util
  imports Cpp_Std
begin

text \<open>
  The string helpers of \<open>include/asyncpp/curl/util.h\<close>: the comparison of header names
  without regard to case, the trimming functions and \<open>string_split\<close>, with what they
  compute: an order whose equivalence is equality up to case, the string between its outer
  blanks, and the unique way of cutting a string at a separator.
\<close>

subsection \<open>case_insensitive_less\<close>

text \<open>\<open>tolower\<close> of the C locale on a (signed) \<open>char\<close>.\<close>

definition char_value :: "char \<Rightarrow> int" where
  "char_value c = (if (of_char c :: int) < 128 then of_char c else of_char c - 256)"

definition tolower :: "char \<Rightarrow> int" where
  "tolower c = (if 65 \<le> char_value c \<and> char_value c \<le> 90 then char_value c + 32 else char_value c)"

text \<open>\<open>std::lexicographical_compare\<close>\<close>

fun lexicographical_compare :: "('a \<Rightarrow> 'a \<Rightarrow> bool) \<Rightarrow> 'a list \<Rightarrow> 'a list \<Rightarrow> bool" where
  "lexicographical_compare lt xs [] = False"
| "lexicographical_compare lt [] (y # ys) = True"
| "lexicographical_compare lt (x # xs) (y # ys) =
     (if lt x y then True else if lt y x then False else lexicographical_compare lt xs ys)"

definition case_insensitive_less :: "string \<Rightarrow> string \<Rightarrow> bool" where
  "case_insensitive_less lhs rhs = lexicographical_compare (\<lambda>c1 c2. tolower c1 < tolower c2) lhs rhs"

subsection \<open>Trimming\<close>

text \<open>
  \<open>s.erase(0, npos)\<close> empties the string; \<open>string_rtrim\<close> leaves a string of blanks alone.
\<close>

definition string_ltrim :: "string \<Rightarrow> string" where
  "string_ltrim s = (case find_if (\<lambda>c. \<not> is_space c) s of None \<Rightarrow> [] | Some i \<Rightarrow> drop i s)"

definition string_rtrim :: "string \<Rightarrow> string" where
  "string_rtrim s = (case find_last_if (\<lambda>c. \<not> is_space c) s of None \<Rightarrow> s | Some i \<Rightarrow> take (i + 1) s)"

definition string_trim :: "string \<Rightarrow> string" where
  "string_trim s = string_ltrim (string_rtrim s)"

subsection \<open>Splitting\<close>

text \<open>
  The loop of \<open>string_split\<close>; \<open>res\<close> is the vector so far. With an empty separator the
  offset never moves and the loop does not end, hence the option.
\<close>

partial_function (option) string_split_loop ::
  "'a list \<Rightarrow> 'a list \<Rightarrow> nat \<Rightarrow> 'a list list \<Rightarrow> 'a list list option" where
  "string_split_loop str delim offset res =
     (case find_from delim str offset of
        None \<Rightarrow> Some (res @ [drop offset str])
      | Some pos \<Rightarrow> string_split_loop str delim (pos + length delim) (res @ [take (pos - offset) (drop offset str)]))"

definition string_split :: "'a list \<Rightarrow> 'a list \<Rightarrow> 'a list list option" where
  "string_split str delim = string_split_loop str delim 0 []"

subsection \<open>The order on header names\<close>

lemma lexicographical_compare_irrefl:
  "(\<And>x. \<not> lt x x) \<Longrightarrow> \<not> lexicographical_compare lt xs xs"
  by (induction xs) auto

lemma lexicographical_compare_key:
  fixes k :: "'a \<Rightarrow> 'b :: linorder"
  shows "lexicographical_compare (\<lambda>x y. k x < k y) xs ys \<longleftrightarrow>
     lexicographical_compare (<) (map k xs) (map k ys)"
proof (induction xs arbitrary: ys)
  case Nil
  then show ?case by (cases ys) auto
next
  case (Cons x xs)
  then show ?case by (cases ys) auto
qed

lemma lexicographical_compare_trans:
  fixes xs :: "'b :: linorder list"
  assumes "lexicographical_compare (<) xs ys" "lexicographical_compare (<) ys zs"
  shows "lexicographical_compare (<) xs zs"
  using assms
proof (induction xs arbitrary: ys zs)
  case Nil
  then show ?case by (cases ys; cases zs) auto
next
  case (Cons x xs)
  then obtain y ys' z zs' where "ys = y # ys'" "zs = z # zs'" by (cases ys; cases zs) auto
  with Cons show ?case by (auto split: if_splits)
qed

lemma lexicographical_compare_total:
  fixes xs :: "'b :: linorder list"
  shows "xs = ys \<or> lexicographical_compare (<) xs ys \<or> lexicographical_compare (<) ys xs"
proof (induction xs arbitrary: ys)
  case Nil
  then show ?case by (cases ys) auto
next
  case (Cons x xs)
  show ?case
  proof (cases ys)
    case (Cons y ys')
    with Cons.IH [of ys'] show ?thesis by auto
  qed simp
qed

lemma case_insensitive_less_key:
  "case_insensitive_less a b \<longleftrightarrow> lexicographical_compare (<) (map tolower a) (map tolower b)"
  unfolding case_insensitive_less_def by (rule lexicographical_compare_key)

text \<open>The equivalence of the comparator, by which the header maps look names up.\<close>

definition same_name :: "string \<Rightarrow> string \<Rightarrow> bool" where
  "same_name a b \<longleftrightarrow> \<not> case_insensitive_less a b \<and> \<not> case_insensitive_less b a"

lemma same_name_iff: "same_name a b \<longleftrightarrow> map tolower a = map tolower b"
  using lexicographical_compare_total [of "map tolower a" "map tolower b"]
    lexicographical_compare_irrefl [where lt = "(<)" and xs = "map tolower b"]
  by (auto simp: same_name_def case_insensitive_less_key)

text \<open>
  The comparator of the header maps is a strict weak order, as \<open>std::multimap\<close> requires:
  irreflexive and transitive, and names it does not separate are exactly those that agree
  after \<open>tolower\<close>, which is an equivalence.
\<close>

theorem case_insensitive_less_weak_order:
  "\<not> case_insensitive_less a a \<and>
   (case_insensitive_less a b \<and> case_insensitive_less b c \<longrightarrow> case_insensitive_less a c) \<and>
   (\<not> case_insensitive_less a b \<and> \<not> case_insensitive_less b a \<longleftrightarrow> map tolower a = map tolower b)"
  using lexicographical_compare_trans [of "map tolower a" "map tolower b" "map tolower c"]
    lexicographical_compare_irrefl [where lt = "(<)" and xs = "map tolower a"] same_name_iff [of a b]
  by (auto simp: case_insensitive_less_key same_name_def)

theorem case_insensitive_less_weak_order_witness:
  "case_insensitive_less ''Accept'' ''connection'' \<and> case_insensitive_less ''Accept'' ''HOST'' \<and>
   map tolower ''Host'' = map tolower ''HOST''"
proof -
  have "case_insensitive_less ''Accept'' ''connection''" "case_insensitive_less ''connection'' ''HOST''"
    "\<not> case_insensitive_less ''Host'' ''HOST''" "\<not> case_insensitive_less ''HOST'' ''Host''"
    by code_simp+
  then show ?thesis
    using case_insensitive_less_weak_order [of "''Accept''" "''connection''" "''HOST''"]
      case_insensitive_less_weak_order [of "''Host''" "''HOST''"] by blast
qed

subsection \<open>What trimming leaves\<close>

lemma string_ltrim_eq: "string_ltrim s = dropWhile is_space s"
proof (cases "find_if (\<lambda>c. \<not> is_space c) s")
  case (Some i)
  with find_if_takeWhile [OF Some] show ?thesis by (simp add: string_ltrim_def)
next
  case None
  moreover from None have "dropWhile is_space s = []" by simp
  ultimately show ?thesis by (simp only: string_ltrim_def option.case)
qed

lemma string_trim_blanks: "\<forall>c \<in> set s. is_space c \<Longrightarrow> string_trim s = []"
proof -
  assume "\<forall>c \<in> set s. is_space c"
  then have "find_last_if (\<lambda>c. \<not> is_space c) s = None" by simp
  then have "string_rtrim s = s" by (simp only: string_rtrim_def option.case)
  with \<open>\<forall>c \<in> set s. is_space c\<close> show ?thesis by (simp add: string_trim_def string_ltrim_eq)
qed

lemma string_trim_between:
  assumes "\<forall>c \<in> set pre. is_space c" "\<forall>c \<in> set post. is_space c"
    and "core = [] \<or> \<not> is_space (hd core) \<and> \<not> is_space (last core)"
  shows "string_trim (pre @ core @ post) = core"
proof (cases "core = []")
  case True
  with assms show ?thesis by (intro trans [OF string_trim_blanks]) auto
next
  case False
  then obtain cs c where c: "core = cs @ [c]" by (metis append_butlast_last_id)
  then have "find_last_if (\<lambda>c. \<not> is_space c) ((pre @ cs) @ c # post) = Some (length (pre @ cs))"
    using assms by (intro find_last_if_hit) auto
  then have "string_rtrim (pre @ core @ post) = pre @ core"
    by (simp add: string_rtrim_def c)
  moreover have "dropWhile is_space (pre @ core) = core"
    using assms(1,3) False by (cases core) (auto simp: dropWhile_append)
  ultimately show ?thesis by (simp add: string_trim_def string_ltrim_eq)
qed

text \<open>
  \<open>string_trim\<close> removes the outer blanks and nothing else: a core that is empty, or
  starts and ends with a non-blank, is what remains of it between any blanks.
\<close>

theorem string_trim_core:
  assumes "\<forall>c \<in> set pre. is_space c" "\<forall>c \<in> set post. is_space c"
    and "core = [] \<or> \<not> is_space (hd core) \<and> \<not> is_space (last core)"
  shows "string_trim (pre @ core @ post) = core"
  using assms by (rule string_trim_between)

theorem string_trim_core_witness: "string_trim '' keep-alive  '' = ''keep-alive''"
proof -
  have "string_trim ('' '' @ ''keep-alive'' @ ''  '') = ''keep-alive''"
    by (rule string_trim_core) (simp_all add: is_space_def)
  then show ?thesis by simp
qed

subsection \<open>What splitting yields\<close>

text \<open>The parts, glued with the separator.\<close>

fun join :: "'a list \<Rightarrow> 'a list list \<Rightarrow> 'a list" where
  "join d [] = []"
| "join d [p] = p"
| "join d (p # q # ps) = p @ d @ join d (q # ps)"

lemma join_Cons: "ps \<noteq> [] \<Longrightarrow> join d (p # ps) = p @ d @ join d ps"
  by (cases ps) auto

definition occurs :: "'a list \<Rightarrow> 'a list \<Rightarrow> bool" where
  "occurs d s \<longleftrightarrow> (\<exists>j. j + length d \<le> length s \<and> take (length d) (drop j s) = d)"

lemma occurs_iff: "occurs d s \<longleftrightarrow> find_sub d s \<noteq> None"
proof
  assume "occurs d s"
  then show "find_sub d s \<noteq> None" using find_sub_None by (fastforce simp: occurs_def)
next
  assume "find_sub d s \<noteq> None"
  then obtain i where "drop i s = d @ drop (i + length d) s" "i + length d \<le> length s"
    using find_sub_Some by blast
  then show "occurs d s" by (auto simp: occurs_def intro!: exI [of _ i])
qed

lemma string_split_loop_result:
  assumes "delim \<noteq> []" "offset \<le> length str"
  shows "\<exists>parts. string_split_loop str delim offset res = Some (res @ parts) \<and> parts \<noteq> [] \<and>
     join delim parts = drop offset str \<and> (\<forall>p \<in> set parts. \<not> occurs delim p)"
  using assms(2)
proof (induction "length str - offset" arbitrary: offset res rule: less_induct)
  case less
  show ?case
  proof (cases "find_sub delim (drop offset str)")
    case None
    with less.prems have "string_split_loop str delim offset res = Some (res @ [drop offset str])"
      by (subst string_split_loop.simps) (simp add: find_from_def)
    with None show ?thesis by (intro exI [of _ "[drop offset str]"]) (simp add: occurs_iff)
  next
    case (Some i)
    let ?s = "drop offset str"
    have s: "drop i ?s = delim @ drop (i + length delim) ?s" "i + length delim \<le> length ?s"
      using find_sub_Some [OF Some] by blast+
    let ?off = "offset + i + length delim"
    have eq: "string_split_loop str delim offset res = string_split_loop str delim ?off (res @ [take i ?s])"
      using less.prems Some by (subst string_split_loop.simps) (simp add: find_from_def)
    have off: "?off \<le> length str" using s(2) less.prems by simp
    have "length str - ?off < length str - offset" using assms(1) off by (cases delim) auto
    from less.hyps [OF this off, of "res @ [take i ?s]"] obtain parts where
      p: "string_split_loop str delim ?off (res @ [take i ?s]) = Some ((res @ [take i ?s]) @ parts)"
        "parts \<noteq> []" "join delim parts = drop ?off str" "\<forall>p \<in> set parts. \<not> occurs delim p" by blast
    have "\<not> occurs delim (take i ?s)"
    proof
      assume "occurs delim (take i ?s)"
      then obtain j where j: "j + length delim \<le> length (take i ?s)" "take (length delim) (drop j (take i ?s)) = delim"
        unfolding occurs_def by blast
      have "j < i" using j(1) assms(1) by (cases delim) auto
      moreover have "take (length delim) (drop j ?s) = delim"
        using j by (simp add: drop_take min_def split: if_splits)
      ultimately show False using find_sub_first [OF Some] by blast
    qed
    moreover have "join delim (take i ?s # parts) = ?s"
    proof -
      have "join delim (take i ?s # parts) = take i ?s @ drop i ?s"
        unfolding s(1) using p(2,3) by (simp add: join_Cons add.commute add.left_commute)
      then show ?thesis by (simp only: append_take_drop_id)
    qed
    ultimately show ?thesis using eq p by (intro exI [of _ "take i ?s # parts"]) simp
  qed
qed

text \<open>Parts without the first element of the separator come back as they were joined.\<close>

lemma string_split_loop_join:
  assumes "d \<noteq> []" "ps \<noteq> []" "\<forall>p \<in> set ps. hd d \<notin> set p"
  shows "string_split_loop (pre @ join d ps) d (length pre) res = Some (res @ ps)"
  using assms(2,3)
proof (induction ps arbitrary: pre res rule: induct_list012)
  case (2 p)
  then have "find_sub d p = None" using assms(1) by (simp add: find_sub_absent)
  then show ?case by (subst string_split_loop.simps) (simp add: find_from_def)
next
  case (3 p q ps)
  have "find_sub d (p @ d @ join d (q # ps)) = Some (length p)"
    using 3 assms(1) by (simp add: find_sub_skip find_sub_here)
  then have "string_split_loop (pre @ join d (p # q # ps)) d (length pre) res =
      string_split_loop ((pre @ p @ d) @ join d (q # ps)) d (length (pre @ p @ d)) (res @ [p])"
    by (subst string_split_loop.simps) (simp add: find_from_def add.assoc)
  also have "\<dots> = Some ((res @ [p]) @ q # ps)" using 3 by (intro "3.IH"(2)) simp_all
  finally show ?case by simp
qed simp

lemma string_split_join:
  "d \<noteq> [] \<Longrightarrow> ps \<noteq> [] \<Longrightarrow> \<forall>p \<in> set ps. hd d \<notin> set p \<Longrightarrow> string_split (join d ps) d = Some ps"
  using string_split_loop_join [of d ps "[]" "[]"] by (simp add: string_split_def)

text \<open>
  With a nonempty separator \<open>string_split\<close> returns, its parts glued with the separator
  give the string back, and no part contains the separator.
\<close>

theorem string_split_parts:
  assumes "delim \<noteq> []"
  shows "\<exists>parts. string_split str delim = Some parts \<and> parts \<noteq> [] \<and> join delim parts = str \<and>
     (\<forall>p \<in> set parts. \<not> occurs delim p)"
  using string_split_loop_result [OF assms, of 0 str "[]"] by (simp add: string_split_def)

theorem string_split_parts_witness:
  "\<exists>parts. string_split ''a, b'' '','' = Some parts \<and> join '','' parts = ''a, b''"
  using string_split_parts [of "'',''" "''a, b''"] by blast

end
