(* ===== verification/Uri.thy ===== *)
theory Uri
  imports Util
begin

text \<open>
  \<open>curl/uri.h\<close> and \<open>src/curl/uri.cpp\<close>: the class, its parser and printer, form data and paths.
  A \<open>string_view\<close> that has shrunk from the front is the rest of the string. Percent coding is
  libcurl's: \<open>escape\<close> and \<open>unescape\<close> are parameters, \<open>None\<close> when it returns a null pointer.
\<close>

record uri =
  m_scheme :: string
  m_auth :: string
  m_host :: string
  m_port :: int
  m_path :: string
  m_query :: string
  m_fragment :: string
  m_parsed_query :: "(string \<times> string) list option"

definition uri_empty :: uri where
  "uri_empty = \<lparr>m_scheme = [], m_auth = [], m_host = [], m_port = -1, m_path = [], m_query = [],
     m_fragment = [], m_parsed_query = None\<rparr>"

subsection \<open>Accessors\<close>

definition path_query :: "uri \<Rightarrow> string" where
  "path_query u = (if m_query u = [] then m_path u else m_path u @ ''?'' @ m_query u)"

definition set_scheme where "set_scheme s u = u\<lparr>m_scheme := s\<rparr>"
definition set_auth where "set_auth s u = u\<lparr>m_auth := s\<rparr>"
definition set_host where "set_host s u = u\<lparr>m_host := s\<rparr>"
definition set_port where "set_port (p :: int) u = u\<lparr>m_port := max (-1) (min p 65535)\<rparr>"
definition set_path where "set_path s u = u\<lparr>m_path := s\<rparr>"
definition set_query where "set_query s u = u\<lparr>m_query := s\<rparr>"
definition set_fragment where "set_fragment s u = u\<lparr>m_fragment := s\<rparr>"

lemmas setter_defs = set_scheme_def set_auth_def set_host_def set_port_def set_path_def set_query_def
  set_fragment_def

definition uri_is_empty :: "uri \<Rightarrow> bool" where
  "uri_is_empty u \<longleftrightarrow> m_scheme u = [] \<and> m_auth u = [] \<and> m_host u = [] \<and> m_port u = -1 \<and> m_path u = [] \<and>
     m_query u = [] \<and> m_fragment u = []"

definition is_relative :: "uri \<Rightarrow> bool" where
  "is_relative u \<longleftrightarrow> m_host u = []"

definition is_port_default :: "uri \<Rightarrow> bool" where
  "is_port_default u \<longleftrightarrow> m_port u = -1"

definition is_authority :: "uri \<Rightarrow> bool" where
  "is_authority u \<longleftrightarrow> m_path u = [] \<and> m_query u = [] \<and> m_fragment u = []"

subsection \<open>Parsing\<close>

definition one_of :: "string \<Rightarrow> char \<Rightarrow> bool" where
  "one_of s c \<longleftrightarrow> c \<in> set s"

text \<open>The host segment, without the part before an at sign.\<close>

definition parse_host :: "string \<Rightarrow> uri \<Rightarrow> cpp_error + uri option" where
  "parse_host host res =
     (if host \<noteq> [] \<and> hd host = CHR ''['' then
        (case find_if ((=) (CHR '']'')) host of
           None \<Rightarrow> Inr None
         | Some pos \<Rightarrow>
             let res = set_host (take (pos + 1) host) res; host = drop (pos + 1) host in
             if host \<noteq> [] \<and> hd host = CHR '':'' then
               (case stoi (tl host) of Inl e \<Rightarrow> Inl e | Inr p \<Rightarrow> Inr (Some (set_port p res)))
             else Inr (Some res))
      else
        (case find_last_if ((=) (CHR '':'')) host of
           None \<Rightarrow> Inr (Some (set_host host res))
         | Some pos \<Rightarrow>
             (case stoi (drop (pos + 1) host) of
                Inl e \<Rightarrow> Inl e
              | Inr p \<Rightarrow> Inr (Some (set_host (take pos host) (set_port p res))))))"

definition parse_authority :: "string \<Rightarrow> uri \<Rightarrow> cpp_error + uri option" where
  "parse_authority host res =
     (case find_if ((=) (CHR ''@'')) host of
        Some pos \<Rightarrow> parse_host (drop (pos + 1) host) (set_auth (take pos host) res)
      | None \<Rightarrow> parse_host host res)"

text \<open>Path, query and fragment.\<close>

definition parse_tail :: "string \<Rightarrow> uri \<Rightarrow> uri" where
  "parse_tail str res =
     (case find_if (one_of ''?#'') str of
        None \<Rightarrow> set_path str res
      | Some pos \<Rightarrow>
          let res = set_path (take pos str) res; str = drop pos str in
          if hd str = CHR ''?'' then
            (case find_if (one_of ''#'') str of
               None \<Rightarrow> set_query (drop 1 str) res
             | Some pos \<Rightarrow> set_fragment (drop (pos + 1) str) (set_query (take (pos - 1) (drop 1 str)) res))
          else set_fragment (drop 1 str) res)"

definition parse_into :: "string \<Rightarrow> uri \<Rightarrow> cpp_error + uri option" where
  "parse_into str res =
     (case find_sub '':/'' str of
        None \<Rightarrow> Inr None
      | Some pos \<Rightarrow>
          let res = set_scheme (take pos str) res; str = drop (pos + 2) str in
          if str = [] then Inr None
          else if hd str = CHR ''/'' then
            (let str = tl str;
                 end_pos = (case find_if (one_of ''/?#'') str of None \<Rightarrow> length str | Some i \<Rightarrow> i)
             in case parse_authority (take end_pos str) res of
                  Inl e \<Rightarrow> Inl e
                | Inr None \<Rightarrow> Inr None
                | Inr (Some res) \<Rightarrow> Inr (Some (parse_tail (drop end_pos str) res)))
          else Inr (Some (parse_tail str res)))"

definition uri_ctor :: "string \<Rightarrow> cpp_error + uri" where
  "uri_ctor str = (case parse_into str uri_empty of
       Inl e \<Rightarrow> Inl e | Inr None \<Rightarrow> Inl Invalid_argument | Inr (Some u) \<Rightarrow> Inr u)"

definition uri_parse :: "string \<Rightarrow> cpp_error + uri option" where
  "uri_parse str = parse_into str uri_empty"

definition to_string :: "uri \<Rightarrow> string" where
  "to_string u =
     (if m_scheme u \<noteq> [] then m_scheme u @ ''://'' else []) @
     (if m_auth u \<noteq> [] then m_auth u @ ''@'' else []) @
     m_host u @
     (if m_port u \<noteq> -1 then '':'' @ int_to_string (m_port u) else []) @
     m_path u @
     (if m_query u \<noteq> [] then ''?'' @ m_query u else []) @
     (if m_fragment u \<noteq> [] then ''#'' @ m_fragment u else [])"

subsection \<open>Paths\<close>

lemma find_from_bounds: "find_from [c] s off = Some pos \<Longrightarrow> off \<le> pos \<and> pos < length s"
  by (auto simp: find_from_def split: if_splits dest!: find_sub_Some)

function split_path_loop :: "string \<Rightarrow> nat \<Rightarrow> string list" where
  "split_path_loop path offset =
     (case find_from ''/'' path offset of
        Some pos \<Rightarrow> (if pos - offset \<noteq> 0 then [take (pos - offset) (drop offset path)] else []) @ split_path_loop path (pos + 1)
      | None \<Rightarrow> (if length path - offset \<noteq> 0 then [drop offset path] else []))"
  by pat_completeness auto
termination
  by (relation "measure (\<lambda>(p, i). Suc (length p) - i)")
    (auto dest!: find_from_bounds find_from_bounds [OF sym])

declare split_path_loop.simps [simp del]

definition split_path :: "string \<Rightarrow> string list" where
  "split_path path = split_path_loop path 0"

definition merge_path :: "string list \<Rightarrow> string" where
  "merge_path parts = foldl (\<lambda>result p. (result @ p) @ ''/'') ''/'' parts"

subsection \<open>Percent coding and form data\<close>

text \<open>
  \<open>encode\<close> and \<open>decode\<close> hand a pointer and a length to libcurl, which takes a length of 0 to
  mean that the text is zero-terminated. A view is therefore a memory (a string with its
  terminator after it), a position and a length.
\<close>

definition view_arg :: "string \<Rightarrow> nat \<Rightarrow> nat \<Rightarrow> string" where
  "view_arg mem pos n = (if n = 0 then takeWhile (\<lambda>c. c \<noteq> CHR 0x00) (drop pos mem) else take n (drop pos mem))"

definition uri_encode :: "(string \<Rightarrow> string option) \<Rightarrow> string \<Rightarrow> nat \<Rightarrow> nat \<Rightarrow> cpp_error + string" where
  "uri_encode escape mem pos n =
     (case escape (view_arg mem pos n) of None \<Rightarrow> Inl Bad_alloc | Some r \<Rightarrow> Inr r)"

definition uri_decode :: "(string \<Rightarrow> string option) \<Rightarrow> string \<Rightarrow> nat \<Rightarrow> nat \<Rightarrow> cpp_error + string" where
  "uri_decode unescape mem pos n =
     (case unescape (view_arg mem pos n) of None \<Rightarrow> Inl Bad_alloc | Some r \<Rightarrow> Inr r)"

text \<open>One part of the form data: the characters \<open>offset ..< offset + n\<close>.\<close>

definition parse_part :: "(string \<Rightarrow> string option) \<Rightarrow> string \<Rightarrow> nat \<Rightarrow> nat \<Rightarrow> cpp_error + (string \<times> string) list" where
  "parse_part unescape data offset n =
     (let part = take n (drop offset data) in
      if part = [] then Inr []
      else case find_if ((=) (CHR ''='')) part of
        Some pos_eq \<Rightarrow>
          (case uri_decode unescape data offset pos_eq of Inl e \<Rightarrow> Inl e | Inr k \<Rightarrow>
           case uri_decode unescape data (offset + pos_eq + 1) (length part - (pos_eq + 1)) of Inl e \<Rightarrow> Inl e | Inr v \<Rightarrow>
             Inr [(k, v)])
      | None \<Rightarrow>
          (case uri_decode unescape data offset (length part) of Inl e \<Rightarrow> Inl e | Inr k \<Rightarrow> Inr [(k, [])]))"

function parse_formdata_loop ::
  "(string \<Rightarrow> string option) \<Rightarrow> string \<Rightarrow> nat \<Rightarrow> (string \<times> string) list \<Rightarrow> cpp_error + (string \<times> string) list" where
  "parse_formdata_loop unescape data offset res =
     (let pos = find_from ''&'' data offset;
          n = (case pos of None \<Rightarrow> length data - offset | Some pos \<Rightarrow> pos - offset)
      in case parse_part unescape data offset n of
           Inl e \<Rightarrow> Inl e
         | Inr kv \<Rightarrow>
             (case pos of
                None \<Rightarrow> Inr (res @ kv)
              | Some pos \<Rightarrow> if pos + 1 < length data then parse_formdata_loop unescape data (pos + 1) (res @ kv)
                            else Inr (res @ kv)))"
  by pat_completeness auto
termination
  by (relation "measure (\<lambda>(u, d, i, r). length d - i)")
    (auto dest!: find_from_bounds find_from_bounds [OF sym])

declare parse_formdata_loop.simps [simp del]

definition parse_formdata :: "(string \<Rightarrow> string option) \<Rightarrow> string \<Rightarrow> cpp_error + (string \<times> string) list" where
  "parse_formdata unescape data = parse_formdata_loop unescape data 0 []"

fun build_formdata :: "(string \<Rightarrow> string option) \<Rightarrow> (string \<times> string) list \<Rightarrow> string \<Rightarrow> cpp_error + string" where
  "build_formdata escape [] formdata = Inr formdata"
| "build_formdata escape ((k, v) # it) formdata =
     (let formdata = (if formdata \<noteq> [] then formdata @ ''&'' else formdata) in
      case uri_encode escape k 0 (length k) of Inl e \<Rightarrow> Inl e | Inr k \<Rightarrow>
      case uri_encode escape v 0 (length v) of Inl e \<Rightarrow> Inl e | Inr v \<Rightarrow>
        build_formdata escape it (((formdata @ k) @ ''='') @ v))"

definition query_parsed :: "(string \<Rightarrow> string option) \<Rightarrow> uri \<Rightarrow> cpp_error + (string \<times> string) list \<times> uri" where
  "query_parsed unescape u =
     (case m_parsed_query u of
        Some q \<Rightarrow> Inr (q, u)
      | None \<Rightarrow> (case parse_formdata unescape (m_query u) of
           Inl e \<Rightarrow> Inl e | Inr q \<Rightarrow> Inr (q, u\<lparr>m_parsed_query := Some q\<rparr>)))"

subsection \<open>Comparison\<close>

text \<open>\<open>std::tie\<close> of the seven parts; strings are compared as octets.\<close>

definition string_less :: "string \<Rightarrow> string \<Rightarrow> bool" where
  "string_less a b = lexicographical_compare (\<lambda>c d. (of_char c :: nat) < of_char d) a b"

definition uri_parts :: "uri \<Rightarrow> string list" where
  "uri_parts u = [m_scheme u, m_auth u, m_host u, m_path u, m_query u, m_fragment u]"

definition uri_eq :: "uri \<Rightarrow> uri \<Rightarrow> bool" where
  "uri_eq l r \<longleftrightarrow> uri_parts l = uri_parts r \<and> m_port l = m_port r"

definition uri_less :: "uri \<Rightarrow> uri \<Rightarrow> bool" where
  "uri_less l r =
     (if m_scheme l \<noteq> m_scheme r then string_less (m_scheme l) (m_scheme r)
      else if m_auth l \<noteq> m_auth r then string_less (m_auth l) (m_auth r)
      else if m_host l \<noteq> m_host r then string_less (m_host l) (m_host r)
      else if m_port l \<noteq> m_port r then m_port l < m_port r
      else if m_path l \<noteq> m_path r then string_less (m_path l) (m_path r)
      else if m_query l \<noteq> m_query r then string_less (m_query l) (m_query r)
      else string_less (m_fragment l) (m_fragment r))"

definition uri_neq where "uri_neq l r \<longleftrightarrow> \<not> uri_eq l r"
definition uri_greater where "uri_greater l r = uri_less r l"
definition uri_le where "uri_le l r \<longleftrightarrow> \<not> uri_less r l"
definition uri_ge where "uri_ge l r \<longleftrightarrow> \<not> uri_less l r"

end
