(* ===== verification/Uri_Props.thy ===== *)
theory Uri_Props
  imports Uri
begin

text \<open>
  What the \<open>uri\<close> class achieves: printing and parsing are inverse on well-formed uris, paths and
  form data survive joining and splitting; and where it falls short: a single slash after the
  scheme, a bad port, an empty form value, a changed query.
\<close>

declare find_if_None_iff [simp del] find_last_if_None_iff [simp del]

subsection \<open>Well-formed uris\<close>

definition without :: "string \<Rightarrow> string \<Rightarrow> bool" where
  "without s cs \<longleftrightarrow> set s \<inter> set cs = {}"

definition plain_host :: "string \<Rightarrow> bool" where
  "plain_host h \<longleftrightarrow> without h ''/?#@:'' \<and> (h = [] \<or> hd h \<noteq> CHR ''['')"

definition bracketed_host :: "string \<Rightarrow> bool" where
  "bracketed_host h \<longleftrightarrow> without h ''/?#@'' \<and> length h \<ge> 2 \<and> hd h = CHR ''['' \<and> last h = CHR '']'' \<and>
     CHR '']'' \<notin> set (butlast h)"

definition well_formed :: "uri \<Rightarrow> bool" where
  "well_formed u \<longleftrightarrow> m_scheme u \<noteq> [] \<and> without (m_scheme u) '':'' \<and> without (m_auth u) ''/?#@'' \<and>
     (plain_host (m_host u) \<or> bracketed_host (m_host u)) \<and> -1 \<le> m_port u \<and> m_port u \<le> 65535 \<and>
     (m_path u = [] \<or> hd (m_path u) = CHR ''/'') \<and> without (m_path u) ''?#'' \<and> without (m_query u) ''#'' \<and>
     m_parsed_query u = None"

lemma without_simps [simp]:
  "without [] cs" "without (c # s) cs \<longleftrightarrow> c \<notin> set cs \<and> without s cs" "without (s @ t) cs \<longleftrightarrow> without s cs \<and> without t cs"
  by (auto simp: without_def)

lemma without_mono: "without s cs \<Longrightarrow> set ds \<subseteq> set cs \<Longrightarrow> without s ds"
  by (auto simp: without_def)

lemma find_one_of_none: "without s cs \<Longrightarrow> find_if (one_of cs) s = None"
  by (auto simp: without_def one_of_def find_if_None_iff)

lemma find_one_of_hit: "without s cs \<Longrightarrow> c \<in> set cs \<Longrightarrow> find_if (one_of cs) (s @ c # r) = Some (length s)"
  by (rule find_if_hit) (auto simp: without_def one_of_def)

lemma find_char_none: "c \<notin> set s \<Longrightarrow> find_if ((=) c) s = None" "c \<notin> set s \<Longrightarrow> find_last_if ((=) c) s = None"
  by (auto simp: find_if_None_iff find_last_if_None_iff)

lemma find_char_hit: "c \<notin> set s \<Longrightarrow> find_if ((=) c) (s @ c # r) = Some (length s)"
  by (rule find_if_hit) auto

lemma find_last_char_hit: "c \<notin> set r \<Longrightarrow> find_last_if ((=) c) (s @ c # r) = Some (length s)"
  by (rule find_last_if_hit) auto

subsection \<open>Parsing what was printed\<close>

definition port_text :: "int \<Rightarrow> string" where
  "port_text p = (if p \<noteq> -1 then '':'' @ int_to_string p else [])"

definition tail_text :: "uri \<Rightarrow> string" where
  "tail_text u = m_path u @ (if m_query u \<noteq> [] then ''?'' @ m_query u else []) @ (if m_fragment u \<noteq> [] then ''#'' @ m_fragment u else [])"

lemma port_digits:
  assumes "0 \<le> p" "c \<in> set (int_to_string p)"
  shows "is_digit c"
  using assms nat_to_string_digits by (auto simp: int_to_string_def)

lemma port_without:
  assumes "-1 \<le> p" "c \<noteq> CHR '':''" "\<not> is_digit c"
  shows "c \<notin> set (port_text p)"
  using assms port_digits [of p c] by (auto simp: port_text_def split: if_splits)

lemma colon_not_digit: "\<not> is_digit CHR '':''" "\<not> is_digit CHR ''@''" "\<not> is_digit CHR ''/''" "\<not> is_digit CHR ''?''" "\<not> is_digit CHR ''#''"
    "\<not> is_digit CHR '']''"
  by (simp_all add: is_digit_def)

lemma stoi_port: "0 \<le> p \<Longrightarrow> p \<le> 65535 \<Longrightarrow> stoi (int_to_string p) = Inr p"
  by (rule stoi_int_to_string) simp_all

lemma parse_host_text:
  assumes "plain_host h \<or> bracketed_host h" "-1 \<le> p" "p \<le> 65535" "m_port res = -1"
  shows "parse_host (h @ port_text p) res = Inr (Some (res\<lparr>m_host := h, m_port := p\<rparr>))"
proof (cases "bracketed_host h")
  case True
  then obtain t where h: "h = CHR ''['' # t @ [CHR '']'']" "CHR '']'' \<notin> set t"
    by (cases h; cases "tl h" rule: rev_cases) (auto simp: bracketed_host_def)
  have "find_if ((=) (CHR '']'')) ((CHR ''['' # t) @ CHR '']'' # port_text p) = Some (length (CHR ''['' # t))"
    using h(2) by (intro find_char_hit) auto
  moreover have "res\<lparr>m_host := h, m_port := -1\<rparr> = res\<lparr>m_host := h\<rparr>" using assms(4) by simp
  ultimately show ?thesis
    using assms(2,3) stoi_port [of p] h(1) by (auto simp: parse_host_def port_text_def setter_defs Let_def)
next
  case False
  with assms(1) have h: "without h '':''" "h = [] \<or> hd h \<noteq> CHR ''[''" by (auto simp: plain_host_def without_def)
  show ?thesis
  proof (cases "p = -1")
    case True
    have "find_last_if ((=) (CHR '':'')) h = None" using h(1) by (intro find_char_none) (auto simp: without_def)
    moreover have "res\<lparr>m_host := h, m_port := -1\<rparr> = res\<lparr>m_host := h\<rparr>" using assms(4) by simp
    ultimately show ?thesis using True h(2) by (auto simp: parse_host_def port_text_def setter_defs)
  next
    case False
    then have p: "0 \<le> p" using assms(2) by simp
    then have "CHR '':'' \<notin> set (int_to_string p)" using port_digits colon_not_digit by blast
    then have "find_last_if ((=) (CHR '':'')) (h @ CHR '':'' # int_to_string p) = Some (length h)"
      by (rule find_last_char_hit)
    moreover have "h @ CHR '':'' # int_to_string p \<noteq> []" "hd (h @ CHR '':'' # int_to_string p) \<noteq> CHR ''[''"
      using h(2) by (cases h; simp)+
    ultimately show ?thesis
      using p assms(3) stoi_port [of p] False by (simp add: parse_host_def port_text_def setter_defs)
  qed
qed

lemma parse_authority_text:
  assumes "without a ''@''" "plain_host h \<or> bracketed_host h" "-1 \<le> p" "p \<le> 65535" "m_port res = -1" "m_auth res = []"
  shows "parse_authority ((if a \<noteq> [] then a @ ''@'' else []) @ h @ port_text p) res =
    Inr (Some (res\<lparr>m_auth := a, m_host := h, m_port := p\<rparr>))"
proof (cases "a = []")
  case True
  have "CHR ''@'' \<notin> set (h @ port_text p)"
    using assms(2) port_without [OF assms(3), of "CHR ''@''"] colon_not_digit
    by (auto simp: plain_host_def bracketed_host_def without_def)
  then have "find_if ((=) (CHR ''@'')) (h @ port_text p) = None" by (rule find_char_none)
  moreover have "res\<lparr>m_auth := [], m_host := h, m_port := p\<rparr> = res\<lparr>m_host := h, m_port := p\<rparr>" using assms(6) by simp
  ultimately show ?thesis
    using True parse_host_text [OF assms(2-5)] by (simp add: parse_authority_def)
next
  case False
  have "find_if ((=) (CHR ''@'')) (a @ CHR ''@'' # h @ port_text p) = Some (length a)"
    using assms(1) by (intro find_char_hit) (auto simp: without_def)
  with False parse_host_text [OF assms(2-4), of "set_auth a res"] assms(5) show ?thesis
    by (simp add: parse_authority_def setter_defs)
qed

lemma parse_tail_text:
  assumes "without (m_path u) ''?#''" "without (m_query u) ''#''" "m_query res = []" "m_fragment res = []"
  shows "parse_tail (tail_text u) res = res\<lparr>m_path := m_path u, m_query := m_query u, m_fragment := m_fragment u\<rparr>"
proof -
  have r: "res = res\<lparr>m_query := [], m_fragment := []\<rparr>" using assms(3,4) by simp
  show ?thesis
  proof (cases "m_query u = []")
    case True
    show ?thesis
    proof (cases "m_fragment u = []")
      case f: True
      have "find_if (one_of ''?#'') (m_path u) = None" using assms(1) by (rule find_one_of_none)
      with True f show ?thesis by (subst r) (simp add: parse_tail_def tail_text_def set_path_def)
    next
      case False
      have "find_if (one_of ''?#'') (m_path u @ CHR ''#'' # m_fragment u) = Some (length (m_path u))"
        using assms(1) by (rule find_one_of_hit) simp
      with True False show ?thesis by (subst r) (simp add: parse_tail_def tail_text_def setter_defs)
    qed
  next
    case False
    have q: "find_if (one_of ''?#'') (m_path u @ CHR ''?'' # r) = Some (length (m_path u))" for r
      using assms(1) by (rule find_one_of_hit) simp
    show ?thesis
    proof (cases "m_fragment u = []")
      case f: True
      have "find_if (one_of ''#'') (CHR ''?'' # m_query u) = None" using assms(2) by (intro find_one_of_none) simp
      with False f q show ?thesis by (subst r) (simp add: parse_tail_def tail_text_def setter_defs del: find_if.simps)
    next
      case f: False
      have "find_if (one_of ''#'') ((CHR ''?'' # m_query u) @ CHR ''#'' # m_fragment u) = Some (length (CHR ''?'' # m_query u))"
        using assms(2) by (intro find_one_of_hit) simp_all
      with False f q show ?thesis by (subst r) (simp add: parse_tail_def tail_text_def setter_defs del: find_if.simps)
    qed
  qed
qed

lemma parse_printed:
  assumes "well_formed u"
  shows "parse_into (to_string u) uri_empty = Inr (Some u)"
proof -
  define a where "a = (if m_auth u \<noteq> [] then m_auth u @ ''@'' else []) @ m_host u @ port_text (m_port u)"
  have s: "m_scheme u \<noteq> []" "CHR '':'' \<notin> set (m_scheme u)" "without (m_auth u) ''/?#@''" "plain_host (m_host u) \<or> bracketed_host (m_host u)"
    "-1 \<le> m_port u" "m_port u \<le> 65535" "m_path u = [] \<or> hd (m_path u) = CHR ''/''" "without (m_path u) ''?#''"
    "without (m_query u) ''#''" "m_parsed_query u = None"
    using assms by (auto simp: well_formed_def without_def)
  have t: "to_string u = m_scheme u @ '':/'' @ ''/'' @ a @ tail_text u"
    using s(1) by (simp add: to_string_def port_text_def tail_text_def a_def)
  have f: "find_sub '':/'' (m_scheme u @ '':/'' @ r) = Some (length (m_scheme u))" for r
    using s(2) find_sub_here [of "'':/''" r] by (subst find_sub_skip) simp_all
  have w: "without a ''/?#''"
    using s(3,4) port_without [OF s(5)] colon_not_digit
    by (auto simp: plain_host_def bracketed_host_def without_def a_def)
  have "tail_text u = [] \<or> (\<exists>c r. tail_text u = c # r \<and> c \<in> set ''/?#'')"
    using s(7) by (cases "m_path u") (auto simp: tail_text_def)
  then have e: "(case find_if (one_of ''/?#'') (a @ tail_text u) of None \<Rightarrow> length (a @ tail_text u) | Some i \<Rightarrow> i) = length a"
  proof (elim disjE exE conjE)
    assume "tail_text u = []"
    with find_one_of_none [OF w] show ?thesis by simp
  next
    fix c r assume "tail_text u = c # r" "c \<in> set ''/?#''"
    with find_one_of_hit [OF w this(2), of r] show ?thesis by simp
  qed
  have p: "parse_authority a (set_scheme (m_scheme u) uri_empty) =
      Inr (Some ((set_scheme (m_scheme u) uri_empty)\<lparr>m_auth := m_auth u, m_host := m_host u, m_port := m_port u\<rparr>))"
    unfolding a_def using s(3-6) by (intro parse_authority_text) (auto simp: without_def set_scheme_def uri_empty_def)
  have q: "parse_tail (tail_text u) ((set_scheme (m_scheme u) uri_empty)\<lparr>m_auth := m_auth u, m_host := m_host u, m_port := m_port u\<rparr>) = u"
    using s(8-10) by (subst parse_tail_text) (simp_all add: set_scheme_def uri_empty_def)
  have d: "drop (length (m_scheme u) + 2) (m_scheme u @ '':/'' @ ''/'' @ a @ tail_text u) = CHR ''/'' # a @ tail_text u"
    by simp
  have k: "take (length (m_scheme u)) (m_scheme u @ '':/'' @ ''/'' @ a @ tail_text u) = m_scheme u" by simp
  have ta: "take (length a) (a @ tail_text u) = a" "drop (length a) (a @ tail_text u) = tail_text u" by simp_all
  show ?thesis
    unfolding t parse_into_def f option.case Let_def d k list.sel e ta p sum.case q by simp
qed

subsection \<open>Paths\<close>

lemma split_path_slash:
  assumes "CHR ''/'' \<notin> set p"
  shows "split_path_loop (pre @ p @ CHR ''/'' # rest) (length pre) =
    (if p \<noteq> [] then [p] else []) @ split_path_loop ((pre @ p @ ''/'') @ rest) (length (pre @ p @ ''/''))"
proof -
  have "find_sub ''/'' (p @ CHR ''/'' # rest) = Some (length p)"
    using find_char_hit [OF assms] by (simp add: find_sub_char)
  then show ?thesis by (subst split_path_loop.simps) (simp add: find_from_def)
qed

lemma split_path_parts:
  assumes "\<forall>p \<in> set parts. p \<noteq> [] \<and> CHR ''/'' \<notin> set p"
  shows "split_path_loop (pre @ concat (map (\<lambda>p. p @ ''/'') parts)) (length pre) = parts"
  using assms
proof (induction parts arbitrary: pre)
  case Nil
  show ?case by (subst split_path_loop.simps) (simp add: find_from_def)
next
  case (Cons p ps)
  from Cons.prems have "split_path_loop (pre @ p @ CHR ''/'' # concat (map (\<lambda>p. p @ ''/'') ps)) (length pre) =
      [p] @ split_path_loop ((pre @ p @ ''/'') @ concat (map (\<lambda>p. p @ ''/'') ps)) (length (pre @ p @ ''/''))"
    by (subst split_path_slash) simp_all
  also have "\<dots> = [p] @ ps" using Cons.prems by (subst Cons.IH) simp_all
  finally show ?case by simp
qed

lemma merge_path_concat: "merge_path parts = ''/'' @ concat (map (\<lambda>p. p @ ''/'') parts)"
proof -
  have "foldl (\<lambda>result p. (result @ p) @ ''/'') acc parts = acc @ concat (map (\<lambda>p. p @ ''/'') parts)" for acc
    by (induction parts arbitrary: acc) simp_all
  then show ?thesis by (simp add: merge_path_def)
qed

lemma split_merge:
  assumes "\<forall>p \<in> set parts. p \<noteq> [] \<and> CHR ''/'' \<notin> set p"
  shows "split_path (merge_path parts) = parts"
  using split_path_slash [of "[]" "[]" "concat (map (\<lambda>p. p @ ''/'') parts)"] split_path_parts [OF assms, of "''/''"]
  by (simp add: split_path_def merge_path_concat)

subsection \<open>Form data\<close>

text \<open>
  What libcurl documents of \<open>curl_easy_escape\<close> and \<open>curl_easy_unescape\<close>: every text can be
  escaped, into one without delimiters and null characters, and is what unescaping gives back.
\<close>

definition escape_spec :: "(string \<Rightarrow> string option) \<Rightarrow> (string \<Rightarrow> string option) \<Rightarrow> bool" where
  "escape_spec escape unescape \<longleftrightarrow>
     (\<forall>x. \<exists>y. escape x = Some y \<and> unescape y = Some x \<and> CHR ''&'' \<notin> set y \<and> CHR ''='' \<notin> set y \<and> CHR 0x00 \<notin> set y \<and>
        (y = [] \<longleftrightarrow> x = []))"

definition esc :: "(string \<Rightarrow> string option) \<Rightarrow> string \<Rightarrow> string" where
  "esc escape x = (case escape x of Some y \<Rightarrow> y | None \<Rightarrow> [])"

lemma esc_facts:
  assumes "escape_spec escape unescape"
  shows "escape x = Some (esc escape x)" "unescape (esc escape x) = Some x" "CHR ''&'' \<notin> set (esc escape x)"
    "CHR ''='' \<notin> set (esc escape x)" "CHR 0x00 \<notin> set (esc escape x)" "esc escape x = [] \<longleftrightarrow> x = []"
  using assms spec [OF assms [unfolded escape_spec_def], of x] by (auto simp: esc_def)

lemma takeWhile_no_null: "CHR 0x00 \<notin> set s \<Longrightarrow> takeWhile (\<lambda>c. c \<noteq> CHR 0x00) s = s"
  by (auto simp: takeWhile_eq_all_conv)

definition pair_text :: "(string \<Rightarrow> string option) \<Rightarrow> string \<times> string \<Rightarrow> string" where
  "pair_text escape kv = esc escape (fst kv) @ ''='' @ esc escape (snd kv)"

lemma uri_encode_whole: 
  assumes "escape_spec escape unescape" "CHR 0x00 \<notin> set x"
  shows "uri_encode escape x 0 (length x) = Inr (esc escape x)"
  using esc_facts(1) [OF assms(1), of x] takeWhile_no_null [OF assms(2)]
  by (cases "x = []") (simp_all add: uri_encode_def view_arg_def)

lemma build_pairs:
  assumes "escape_spec escape unescape" "\<forall>(k, v) \<in> set kvs. CHR 0x00 \<notin> set k \<and> CHR 0x00 \<notin> set v" "acc \<noteq> []"
  shows "build_formdata escape kvs acc = Inr (acc @ concat (map (\<lambda>kv. ''&'' @ pair_text escape kv) kvs))"
  using assms(2,3)
proof (induction kvs arbitrary: acc)
  case (Cons kv kvs)
  obtain k v where kv: "kv = (k, v)" by (cases kv)
  with Cons uri_encode_whole [OF assms(1), of k] uri_encode_whole [OF assms(1), of v] show ?case
    by (simp add: Let_def pair_text_def)
qed simp

text \<open>A nonempty piece of a text without null characters is decoded as it stands.\<close>

lemma uri_decode_piece:
  "s \<noteq> [] \<Longrightarrow> uri_decode unescape (pre @ s @ post) (length pre) (length s) =
     (case unescape s of None \<Rightarrow> Inl Bad_alloc | Some r \<Rightarrow> Inr r)"
  by (simp add: uri_decode_def view_arg_def)

lemma parse_part_pair:
  assumes e: "escape_spec escape unescape" and "k \<noteq> []" "v \<noteq> []"
  shows "parse_part unescape (pre @ pair_text escape (k, v) @ post) (length pre) (length (pair_text escape (k, v))) = Inr [(k, v)]"
proof -
  let ?k = "esc escape k" and ?v = "esc escape v"
  have n: "?k \<noteq> []" "?v \<noteq> []" using esc_facts(6) [OF e] assms(2,3) by simp_all
  have "find_if ((=) (CHR ''='')) (?k @ CHR ''='' # ?v) = Some (length ?k)" by (rule find_char_hit [OF esc_facts(4) [OF e]])
  moreover have "uri_decode unescape (pre @ ?k @ (''='' @ ?v @ post)) (length pre) (length ?k) = Inr k"
    using n(1) by (subst uri_decode_piece) (simp_all add: esc_facts(2) [OF e])
  moreover have "uri_decode unescape ((pre @ ?k @ ''='') @ ?v @ post) (length (pre @ ?k @ ''='')) (length ?v) = Inr v"
    using n(2) by (subst uri_decode_piece) (simp_all add: esc_facts(2) [OF e])
  ultimately show ?thesis
    by (simp add: parse_part_def pair_text_def Let_def)
qed

lemma pair_no_amp: "escape_spec escape unescape \<Longrightarrow> CHR ''&'' \<notin> set (pair_text escape kv)"
  using esc_facts(3) by (simp add: pair_text_def)

lemma parse_pairs:
  assumes e: "escape_spec escape unescape" and "kvs \<noteq> []" "\<forall>(k, v) \<in> set kvs. k \<noteq> [] \<and> v \<noteq> []"
  shows "parse_formdata_loop unescape (pre @ join ''&'' (map (pair_text escape) kvs)) (length pre) res = Inr (res @ kvs)"
  using assms(2,3)
proof (induction kvs arbitrary: pre res rule: induct_list012)
  case (2 kv)
  obtain k v where kv: "kv = (k, v)" by (cases kv)
  have "find_sub ''&'' (pair_text escape (k, v)) = None"
    using pair_no_amp [OF e, of "(k, v)"] by (simp add: find_sub_absent)
  with 2 kv parse_part_pair [OF e, of k v pre "[]"] show ?case
    by (subst parse_formdata_loop.simps) (simp add: find_from_def)
next
  case (3 kv kv' kvs)
  obtain k v where kv: "kv = (k, v)" by (cases kv)
  let ?p = "pair_text escape (k, v)"
  let ?r = "join ''&'' (map (pair_text escape) (kv' # kvs))"
  have "find_sub ''&'' (?p @ CHR ''&'' # ?r) = Some (length ?p)"
    using find_char_hit [OF pair_no_amp [OF e]] by (simp add: find_sub_char)
  then have f: "find_from ''&'' (pre @ ?p @ CHR ''&'' # ?r) (length pre) = Some (length pre + length ?p)"
    by (simp add: find_from_def)
  have part: "parse_part unescape (pre @ ?p @ CHR ''&'' # ?r) (length pre) (length ?p) = Inr [(k, v)]"
    using parse_part_pair [OF e, of k v pre] 3 kv by simp
  have ne: "?r \<noteq> []" by (cases kvs) (simp_all add: pair_text_def)
  have "parse_formdata_loop unescape (pre @ ?p @ CHR ''&'' # ?r) (length pre) res =
      parse_formdata_loop unescape ((pre @ ?p @ ''&'') @ ?r) (length (pre @ ?p @ ''&'')) (res @ [(k, v)])"
    using ne by (subst parse_formdata_loop.simps) (simp only: f Let_def option.case add_diff_cancel_left' part sum.case, simp)
  also have "\<dots> = Inr ((res @ [(k, v)]) @ kv' # kvs)" using 3 by (intro "3.IH"(2)) simp_all
  finally show ?case using kv by simp
qed simp

lemma concat_join: "s @ concat (map (\<lambda>x. d @ x) ps) = join d (s # ps)"
proof (induction ps arbitrary: s)
  case (Cons p ps)
  from Cons.IH [of p] have "d @ p @ concat (map (\<lambda>x. d @ x) ps) = d @ join d (p # ps)" by (simp only:)
  then show ?case by simp
qed simp

lemma build_join:
  assumes e: "escape_spec escape unescape" and kvs: "\<forall>(k, v) \<in> set kvs. CHR 0x00 \<notin> set k \<and> CHR 0x00 \<notin> set v"
  shows "build_formdata escape kvs [] = Inr (join ''&'' (map (pair_text escape) kvs))"
proof (cases kvs)
  case (Cons kv rest)
  obtain k v where kv: "kv = (k, v)" by (cases kv)
  have "build_formdata escape kvs [] = build_formdata escape rest (pair_text escape kv)"
    using kvs Cons kv uri_encode_whole [OF e, of k] uri_encode_whole [OF e, of v] by (simp add: pair_text_def)
  also have "\<dots> = Inr (pair_text escape kv @ concat (map (\<lambda>kv. ''&'' @ pair_text escape kv) rest))"
    using kvs Cons by (intro build_pairs [OF e]) (auto simp: pair_text_def)
  also have "\<dots> = Inr (join ''&'' (map (pair_text escape) kvs))"
    using concat_join [of "pair_text escape kv" "''&''" "map (pair_text escape) rest"] Cons by (simp add: comp_def)
  finally show ?thesis .
qed simp

lemma loop_extends: "parse_formdata_loop u d i res = Inr kvs \<Longrightarrow> \<exists>t. kvs = res @ t"
proof (induction u d i res rule: parse_formdata_loop.induct)
  case (1 u d i res)
  show ?case
  proof (cases "find_from ''&'' d i")
    case None
    with "1.prems" show ?thesis by (subst (asm) parse_formdata_loop.simps) (auto simp: Let_def split: sum.splits)
  next
    case (Some pos)
    with "1.prems" obtain kv where kv: "parse_part u d i (pos - i) = Inr kv"
      "(if pos + 1 < length d then parse_formdata_loop u d (pos + 1) (res @ kv) else Inr (res @ kv)) = Inr kvs"
      by (subst (asm) parse_formdata_loop.simps) (auto simp: Let_def split: sum.splits)
    with "1.IH" [OF refl refl _ Some, of kv] Some show ?thesis by (fastforce split: if_splits)
  qed
qed

text \<open>The query that was parsed first stays, whatever the query is set to.\<close>

lemma query_cache_stale:
  "query_parsed unescape u = Inr (q, v) \<Longrightarrow> query_parsed unescape (set_query s v) = Inr (q, set_query s v)"
  by (auto simp: query_parsed_def set_query_def split: option.splits sum.splits)

text \<open>An escaping that meets the description: every character as a percent sign and two letters.\<close>

definition nibble :: "nat \<Rightarrow> char" where
  "nibble n = char_of (65 + n)"

definition percent_escape :: "string \<Rightarrow> string option" where
  "percent_escape s = Some (concat (map (\<lambda>c. [CHR ''%'', nibble (of_char c div 16), nibble (of_char c mod 16)]) s))"

fun unpercent :: "string \<Rightarrow> string" where
  "unpercent (p # a # b # s) = char_of ((of_char a - 65) * 16 + (of_char b - 65) :: nat) # unpercent s"
| "unpercent _ = []"

definition percent_unescape :: "string \<Rightarrow> string option" where
  "percent_unescape s = Some (unpercent s)"

lemma of_char_nibble: "n < 16 \<Longrightarrow> (of_char (nibble n) :: nat) = 65 + n"
  by (simp add: nibble_def of_char_of)

lemma nibble_plain: "n < 16 \<Longrightarrow> nibble n \<notin> {CHR ''&'', CHR ''='', CHR 0x00}"
  using of_char_nibble [of n] by (auto dest: arg_cong [of _ _ "of_char :: char \<Rightarrow> nat"])

lemma nibbles_of: "(of_char c :: nat) div 16 < 16"
  by (rule less_mult_imp_div_less) (use nat_of_char_less_256 [of c] in linarith)

lemma percent_spec: "escape_spec percent_escape percent_unescape"
proof -
  let ?e = "\<lambda>x. concat (map (\<lambda>c. [CHR ''%'', nibble (of_char c div 16), nibble (of_char c mod 16)]) x)"
  have "unpercent (?e x) = x" for x
    by (induction x) (simp_all add: of_char_nibble nibbles_of)
  moreover have "CHR ''&'' \<notin> set (?e x) \<and> CHR ''='' \<notin> set (?e x) \<and> CHR 0x00 \<notin> set (?e x)" for x
  proof (induction x)
    case (Cons c x)
    with nibble_plain [OF nibbles_of, of c] nibble_plain [of "of_char c mod 16"] show ?case by auto
  qed simp
  moreover have "(?e x = []) = (x = [])" for x by (cases x) simp_all
  ultimately show ?thesis by (simp add: escape_spec_def percent_escape_def percent_unescape_def)
qed

subsection \<open>Properties\<close>

text \<open>
  C31: Parsing the printed form of a well-formed uri (a scheme; a name or a bracketed address; a
  port or none; a path that is empty or starts with a slash; no delimiter inside a part) gives
  that uri, by the constructor and by \<open>parse\<close>.
\<close>

theorem uri_round_trip:
  assumes "well_formed u"
  shows "uri_ctor (to_string u) = Inr u \<and> uri_parse (to_string u) = Inr (Some u)"
  using parse_printed [OF assms] by (simp add: uri_ctor_def uri_parse_def)

definition uri_example :: uri where
  "uri_example = uri_empty\<lparr>m_scheme := ''wss'', m_auth := ''me:pw'', m_host := ''[::1]'', m_port := 80, m_path := ''/chat/x'',
     m_query := ''a=?'', m_fragment := ''#top''\<rparr>"

theorem uri_round_trip_witness:
  "to_string uri_example = ''wss://me:pw@[::1]:80/chat/x?a=?##top'' \<and>
   uri_parse ''wss://me:pw@[::1]:80/chat/x?a=?##top'' = Inr (Some uri_example)"
proof -
  have "well_formed uri_example"
    by (simp add: well_formed_def uri_example_def uri_empty_def without_def plain_host_def bracketed_host_def)
  moreover have "int_to_string 80 = ''80''" by code_simp
  then have "to_string uri_example = ''wss://me:pw@[::1]:80/chat/x?a=?##top''"
    by (simp add: to_string_def uri_example_def uri_empty_def)
  ultimately show ?thesis using uri_round_trip [of uri_example] by simp
qed

text \<open>
  After a single slash the slash is lost: the path of a uri without authority comes out
  relative, and when the uri is printed and parsed again the path has become the host.
\<close>

theorem single_slash_becomes_host:
  assumes "s \<noteq> []" "without s '':''" "p \<noteq> []" "hd p \<noteq> CHR ''[''" "without p ''/?#@:''"
  shows "\<exists>u v. uri_parse (s @ '':/'' @ p) = Inr (Some u) \<and> m_host u = [] \<and> m_path u = p \<and>
    uri_parse (to_string u) = Inr (Some v) \<and> m_host v = p \<and> m_path v = []"
proof -
  define u where "u = uri_empty\<lparr>m_scheme := s, m_path := p\<rparr>"
  define v where "v = uri_empty\<lparr>m_scheme := s, m_host := p\<rparr>"
  have f: "find_sub '':/'' (s @ '':/'' @ p) = Some (length s)"
    using assms(2) find_sub_here [of "'':/''" p] by (subst find_sub_skip) (simp_all add: without_def)
  have "hd p \<noteq> CHR ''/''" using assms(3,5) by (cases p) auto
  moreover have "find_if (one_of ''?#'') p = None" using assms(5) by (intro find_one_of_none) (auto simp: without_def)
  ultimately have "uri_parse (s @ '':/'' @ p) = Inr (Some u)"
    using f assms(3) by (simp add: uri_parse_def parse_into_def parse_tail_def set_scheme_def set_path_def u_def)
  moreover have "well_formed v" "to_string u = to_string v"
    using assms by (auto simp: well_formed_def v_def u_def uri_empty_def plain_host_def to_string_def)
  then have "uri_parse (to_string u) = Inr (Some v)" using parse_printed [of v] by (simp add: uri_parse_def)
  ultimately show ?thesis by (intro exI [of _ u] exI [of _ v]) (simp add: u_def v_def uri_empty_def)
qed

theorem single_slash_becomes_host_witness:
  "\<exists>u v. uri_parse ''file:/etc'' = Inr (Some u) \<and> m_path u = ''etc'' \<and> uri_parse (to_string u) = Inr (Some v) \<and> m_host v = ''etc''"
  using single_slash_becomes_host [of "''file''" "''etc''"] by auto

text \<open>
  \<open>split_path\<close> undoes \<open>merge_path\<close> on every list of nonempty parts without slashes.
\<close>

theorem path_round_trip:
  assumes "\<forall>p \<in> set parts. p \<noteq> [] \<and> CHR ''/'' \<notin> set p"
  shows "split_path (merge_path parts) = parts"
  using assms by (rule split_merge)

theorem path_round_trip_witness: "merge_path [''a'', ''b c''] = ''/a/b c/'' \<and> split_path ''/a/b c/'' = [''a'', ''b c'']"
proof -
  have "merge_path [''a'', ''b c''] = ''/a/b c/''" by (simp add: merge_path_def)
  with path_round_trip [of "[''a'', ''b c'']"] show ?thesis by simp
qed

text \<open>
  Form data built from pairs of nonempty keys and values without null characters, and parsed
  again, gives these pairs, whatever the escaping does within what libcurl documents.
\<close>

theorem formdata_round_trip:
  assumes "escape_spec escape unescape" "kvs \<noteq> []"
    "\<forall>(k, v) \<in> set kvs. k \<noteq> [] \<and> v \<noteq> [] \<and> CHR 0x00 \<notin> set k \<and> CHR 0x00 \<notin> set v"
  shows "\<exists>text. build_formdata escape kvs [] = Inr text \<and> parse_formdata unescape text = Inr kvs"
proof -
  have "build_formdata escape kvs [] = Inr (join ''&'' (map (pair_text escape) kvs))"
    using assms(3) by (intro build_join [OF assms(1)]) auto
  moreover have "parse_formdata unescape (join ''&'' (map (pair_text escape) kvs)) = Inr kvs"
    using parse_pairs [OF assms(1,2), of "[]" "[]"] assms(3) by (auto simp: parse_formdata_def)
  ultimately show ?thesis by blast
qed

theorem formdata_round_trip_witness:
  "\<exists>text. build_formdata percent_escape [(''a'', ''1&2''), (''b='', ''x'')] [] = Inr text \<and>
    parse_formdata percent_unescape text = Inr [(''a'', ''1&2''), (''b='', ''x'')]"
  by (rule formdata_round_trip [OF percent_spec]) simp_all

text \<open>
  An empty value is not parsed as one: \<open>decode\<close> passes its length 0 to libcurl, which then
  takes the text up to its terminator, so the value is everything from the next delimiter on.
\<close>

theorem empty_value_swallows_rest:
  assumes "k \<noteq> []" "without k ''&=''" "unescape k = Some k'" "CHR 0x00 \<notin> set rest" "unescape (CHR ''&'' # rest) = Some v"
    "parse_formdata unescape (k @ ''=&'' @ rest) = Inr kvs"
  shows "hd kvs = (k', v)"
proof -
  let ?d = "k @ ''=&'' @ rest"
  have "find_sub ''&'' ((k @ ''='') @ CHR ''&'' # rest) = Some (length (k @ ''=''))"
    unfolding find_sub_char using assms(2) by (intro find_char_hit) (auto simp: without_def)
  then have f: "find_from ''&'' ?d 0 = Some (length k + 1)" by (simp add: find_from_def)
  have "find_if ((=) (CHR ''='')) (k @ CHR ''='' # []) = Some (length k)"
    using assms(2) by (intro find_char_hit) (auto simp: without_def)
  moreover have "uri_decode unescape ?d 0 (length k) = Inr k'"
    using uri_decode_piece [OF assms(1), of unescape "[]" "''=&'' @ rest"] assms(3) by simp
  moreover have "uri_decode unescape ?d (length k + 1) 0 = Inr v"
    using assms(4,5) by (simp add: uri_decode_def view_arg_def takeWhile_no_null)
  ultimately have "parse_part unescape ?d 0 (length k + 1) = Inr [(k', v)]"
    by (simp add: parse_part_def)
  with f assms(6) have "(if length k + 2 < length ?d then parse_formdata_loop unescape ?d (length k + 2) [(k', v)] else Inr [(k', v)]) = Inr kvs"
    unfolding parse_formdata_def by (subst (asm) parse_formdata_loop.simps) (cases rest; simp)
  then show ?thesis using loop_extends by (fastforce split: if_splits)
qed

theorem empty_value_swallows_rest_witness:
  "\<exists>kvs. parse_formdata Some ''a=&b=c'' = Inr kvs \<and> hd kvs = (''a'', ''&b=c'')"
proof -
  have p: "parse_formdata Some (''a'' @ ''=&'' @ ''b=c'') = Inr [(''a'', ''&b=c''), (''b'', ''c'')]" by code_simp
  from empty_value_swallows_rest [OF _ _ _ _ _ p] p show ?thesis by simp
qed

end
