(* ===== verification/Header_Map.thy ===== *)
theory Header_Map
  imports Util
begin

text \<open>
  \<open>std::multimap\<close> as the sources use it: header maps (\<open>websocket::header_map\<close>, the headers of
  \<open>http_request\<close> and \<open>http_response\<close>), ordered by \<open>case_insensitive_less\<close>, and the executor's
  table of scheduled calls, ordered by time. A map is its list of entries in the order of
  iteration. \<open>emplace\<close> puts an entry behind those with an equivalent key; \<open>find\<close> gives the first
  entry of that range, as the common implementations do.
\<close>

fun mm_emplace :: "('k \<Rightarrow> 'k \<Rightarrow> bool) \<Rightarrow> 'k \<Rightarrow> 'v \<Rightarrow> ('k \<times> 'v) list \<Rightarrow> ('k \<times> 'v) list" where
  "mm_emplace lt k v [] = [(k, v)]"
| "mm_emplace lt k v (e # es) = (if lt k (fst e) then (k, v) # e # es else e # mm_emplace lt k v es)"

definition mm_find :: "('k \<Rightarrow> 'k \<Rightarrow> bool) \<Rightarrow> 'k \<Rightarrow> ('k \<times> 'v) list \<Rightarrow> 'v option" where
  "mm_find lt k m = (case dropWhile (\<lambda>e. lt (fst e) k) m of
       [] \<Rightarrow> None
     | e # _ \<Rightarrow> if lt k (fst e) then None else Some (snd e))"

type_synonym header_map = "(string \<times> string) list"

definition header_emplace :: "string \<Rightarrow> string \<Rightarrow> header_map \<Rightarrow> header_map" where
  "header_emplace k v m = mm_emplace case_insensitive_less k v m"

definition header_find :: "string \<Rightarrow> header_map \<Rightarrow> string option" where
  "header_find k m = mm_find case_insensitive_less k m"

subsection \<open>What a comparator has to satisfy\<close>

text \<open>
  The contract \<open>std::multimap\<close> puts on its comparator, a strict weak order, and what the map then
  does: it stays ordered, keeps equivalent entries in the order of insertion, and finds the
  first of them.
\<close>

locale weak_order =
  fixes lt :: "'k \<Rightarrow> 'k \<Rightarrow> bool"
  assumes lt_asym: "lt a b \<Longrightarrow> \<not> lt b a"
    and weak_trans: "lt a b \<Longrightarrow> \<not> lt c b \<Longrightarrow> lt a c"
begin

definition equiv :: "'k \<Rightarrow> 'k \<Rightarrow> bool" where
  "equiv a b \<longleftrightarrow> \<not> lt a b \<and> \<not> lt b a"

definition ordered :: "('k \<times> 'v) list \<Rightarrow> bool" where
  "ordered m \<longleftrightarrow> sorted_wrt (\<lambda>e f. \<not> lt (fst f) (fst e)) m"

lemma irrefl: "\<not> lt a a"
  using lt_asym by blast

lemma set_emplace [simp]: "set (mm_emplace lt k v m) = insert (k, v) (set m)"
  by (induction m) auto

lemma ordered_Cons [simp]: "ordered (e # es) \<longleftrightarrow> (\<forall>x \<in> set es. \<not> lt (fst x) (fst e)) \<and> ordered es"
  by (simp add: ordered_def)

lemma ordered_Nil [simp]: "ordered []"
  by (simp add: ordered_def)

text \<open>A key below the first entry is below all of them.\<close>

lemma below_all: "ordered (e # es) \<Longrightarrow> lt k (fst e) \<Longrightarrow> x \<in> set (e # es) \<Longrightarrow> lt k (fst x)"
  using weak_trans [of k "fst e"] by auto

lemma equiv_lt: "equiv a k \<Longrightarrow> lt k b \<Longrightarrow> lt a b"
  using weak_trans [of k b a] by (auto simp: equiv_def)

lemma ordered_emplace: "ordered m \<Longrightarrow> ordered (mm_emplace lt k v m)"
proof (induction m)
  case (Cons e es)
  show ?case
  proof (cases "lt k (fst e)")
    case True
    then have "\<forall>x \<in> set (e # es). \<not> lt (fst x) k" using below_all [OF Cons.prems] lt_asym by blast
    with True Cons.prems show ?thesis by simp
  next
    case False
    with Cons show ?thesis by simp
  qed
qed simp

lemma no_equiv_above:
  assumes "ordered (e # es)" "lt a (fst e)"
  shows "filter (\<lambda>e. equiv a (fst e)) (e # es) = []"
proof -
  have "\<not> equiv a (fst x)" if "x \<in> set (e # es)" for x
    using below_all [OF assms that] by (simp add: equiv_def)
  then show ?thesis unfolding filter_empty_conv by blast
qed

lemma range_emplace:
  assumes "ordered m"
  shows "filter (\<lambda>e. equiv a (fst e)) (mm_emplace lt k v m) =
    filter (\<lambda>e. equiv a (fst e)) m @ (if equiv a k then [(k, v)] else [])"
  using assms
proof (induction m)
  case (Cons e es)
  show ?case
  proof (cases "lt k (fst e) \<and> equiv a k")
    case True
    then have "filter (\<lambda>e. equiv a (fst e)) (e # es) = []"
      by (intro no_equiv_above [OF Cons.prems] equiv_lt [of a k]) simp_all
    moreover have "mm_emplace lt k v (e # es) = [(k, v)] @ e # es" using True by simp
    ultimately show ?thesis using True by (simp only: filter_append) simp
  next
    case False
    with Cons show ?thesis by simp
  qed
qed simp

lemma find_filter: "List.find P m = (case filter P m of [] \<Rightarrow> None | e # _ \<Rightarrow> Some e)"
  by (induction m) auto

lemma find_first:
  assumes "ordered m"
  shows "mm_find lt a m = map_option snd (List.find (\<lambda>e. equiv a (fst e)) m)"
  using assms
proof (induction m)
  case (Cons e es)
  show ?case
  proof (cases "lt a (fst e)")
    case True
    with lt_asym [OF True] no_equiv_above [OF Cons.prems True] show ?thesis by (simp add: mm_find_def find_filter)
  next
    case False
    with Cons show ?thesis by (auto simp: mm_find_def equiv_def)
  qed
qed (simp add: mm_find_def)

lemma built:
  "ordered (foldl (\<lambda>m (k, v). mm_emplace lt k v m) [] kvs) \<and>
   filter (\<lambda>e. equiv a (fst e)) (foldl (\<lambda>m (k, v). mm_emplace lt k v m) [] kvs) = filter (\<lambda>e. equiv a (fst e)) kvs"
proof (induction kvs rule: rev_induct)
  case (snoc kv kvs)
  then show ?case by (cases kv) (simp add: ordered_emplace range_emplace)
qed (simp add: ordered_def)

lemma find_built:
  "mm_find lt a (foldl (\<lambda>m (k, v). mm_emplace lt k v m) [] kvs) =
     map_option snd (List.find (\<lambda>e. equiv a (fst e)) kvs)"
  using built [of kvs a] by (simp add: find_first find_filter)

end

interpretation headers: weak_order case_insensitive_less
proof
  fix a b c :: string
  {
    assume "case_insensitive_less a b"
    then show "\<not> case_insensitive_less b a"
      using lexicographical_compare_trans [of "map tolower a" "map tolower b" "map tolower a"]
        lexicographical_compare_irrefl [where lt = "(<)" and xs = "map tolower a"]
      by (auto simp: case_insensitive_less_key)
  }
  assume "case_insensitive_less a b" "\<not> case_insensitive_less c b"
  then show "case_insensitive_less a c"
    using lexicographical_compare_trans [of "map tolower a" "map tolower b" "map tolower c"]
      lexicographical_compare_total [of "map tolower b" "map tolower c"]
    by (auto simp: case_insensitive_less_key)
qed

interpretation times: weak_order "(<) :: int \<Rightarrow> int \<Rightarrow> bool"
  by unfold_locales auto

lemma headers_equiv: "headers.equiv a b \<longleftrightarrow> map tolower a = map tolower b"
  unfolding headers.equiv_def using same_name_iff [of a b] by (simp add: same_name_def)

text \<open>
  A header map that was filled by \<open>emplace\<close>: looking up a name gives the value of the first
  header, in the order of insertion, whose name is the same up to case, and the headers of one
  name are iterated in the order of insertion.
\<close>

theorem header_map_lookup:
  "header_find name (foldl (\<lambda>m (k, v). header_emplace k v m) [] kvs) =
     map_option snd (List.find (\<lambda>(k, v). map tolower k = map tolower name) kvs) \<and>
   filter (\<lambda>(k, v). map tolower k = map tolower name) (foldl (\<lambda>m (k, v). header_emplace k v m) [] kvs) =
     filter (\<lambda>(k, v). map tolower k = map tolower name) kvs"
  using headers.built [of kvs name] headers.find_built [of name kvs]
  by (simp add: header_find_def header_emplace_def headers_equiv case_prod_unfold eq_commute [of "map tolower name"])

lemma header_find_built:
  "header_find name (foldl (\<lambda>m (k, v). header_emplace k v m) [] kvs) =
     map_option snd (List.find (\<lambda>(k, v). map tolower k = map tolower name) kvs)"
  using headers.find_built [of name kvs]
  by (simp add: header_find_def header_emplace_def headers_equiv case_prod_unfold eq_commute [of "map tolower name"])

end
