(* ===== verification/Slist.thy ===== *)
theory Slist
  imports Cpp_Std
begin

text \<open>
  \<open>curl/slist.h\<close> and \<open>src/curl/slist.cpp\<close>: the owner of a \<open>curl_slist\<close>, on an explicit heap. A
  pointer is an address or null (\<open>None\<close>). \<open>curl_slist_append\<close> and \<open>curl_slist_free_all\<close> belong
  to libcurl and are parameters: functions from the heap and their arguments to the returned
  pointer and the heap after. An operation gives \<open>None\<close> when it follows a pointer to no node
  (or never ends, on a circular list), otherwise its result or exception and the heap after.
\<close>

type_synonym ptr = "nat option"

record curl_slist =
  node_data :: string
  node_next :: ptr

type_synonym heap = "nat \<Rightarrow> curl_slist option"
type_synonym c_append = "heap \<Rightarrow> ptr \<Rightarrow> string \<Rightarrow> ptr \<times> heap"
type_synonym c_free = "heap \<Rightarrow> ptr \<Rightarrow> heap"
type_synonym 'a heap_result = "((cpp_error + 'a) \<times> heap) option"

record slist =
  m_first_node :: ptr
  m_last_node :: ptr

definition slist_empty :: slist where
  "slist_empty = \<lparr>m_first_node = None, m_last_node = None\<rparr>"

definition set_next :: "ptr \<Rightarrow> heap \<Rightarrow> nat \<Rightarrow> heap option" where
  "set_next p h a = (case h a of None \<Rightarrow> None | Some n \<Rightarrow> Some (h(a \<mapsto> n\<lparr>node_next := p\<rparr>)))"

subsection \<open>Construction and copies\<close>

text \<open>The loop of the constructor that takes ownership: the last node from \<open>raw\<close> on.\<close>

partial_function (option) last_from :: "heap \<Rightarrow> ptr \<Rightarrow> ptr option" where
  "last_from h raw =
     (case raw of
        None \<Rightarrow> Some None
      | Some a \<Rightarrow> (case h a of
            None \<Rightarrow> None
          | Some n \<Rightarrow> if node_next n = None then Some raw else last_from h (node_next n)))"

definition slist_take :: "ptr \<Rightarrow> heap \<Rightarrow> slist heap_result" where
  "slist_take raw h =
     (case last_from h raw of
        None \<Rightarrow> None
      | Some l \<Rightarrow> Some (Inr \<lparr>m_first_node = raw, m_last_node = l\<rparr>, h))"

text \<open>\<open>copy_slist\<close>; \<open>last_node\<close> is what \<open>curl_slist_append\<close> returned.\<close>

partial_function (option) copy_loop ::
  "c_append \<Rightarrow> c_free \<Rightarrow> ptr \<Rightarrow> ptr \<Rightarrow> ptr \<Rightarrow> heap \<Rightarrow> slist heap_result" where
  "copy_loop app free first_node last_node p h =
     (case p of
        None \<Rightarrow> Some (Inr \<lparr>m_first_node = first_node, m_last_node = last_node\<rparr>, h)
      | Some a \<Rightarrow> (case h a of
            None \<Rightarrow> None
          | Some n \<Rightarrow> (case app h last_node (node_data n) of
                (None, h) \<Rightarrow> Some (Inl Bad_alloc, free h first_node)
              | (Some b, h) \<Rightarrow>
                  (case h a of None \<Rightarrow> None | Some n \<Rightarrow>
                   copy_loop app free (if first_node = None then Some b else first_node) (Some b) (node_next n) h))))"

definition copy_slist :: "c_append \<Rightarrow> c_free \<Rightarrow> ptr \<Rightarrow> heap \<Rightarrow> slist heap_result" where
  "copy_slist app free p h = copy_loop app free None None p h"

definition slist_copy_assign :: "c_append \<Rightarrow> c_free \<Rightarrow> slist \<Rightarrow> slist \<Rightarrow> heap \<Rightarrow> slist heap_result" where
  "slist_copy_assign app free l other h =
     (case copy_slist app free (m_first_node other) h of
        None \<Rightarrow> None
      | Some (Inl e, h) \<Rightarrow> Some (Inl e, h)
      | Some (Inr c, h) \<Rightarrow> Some (Inr c, free h (m_first_node l)))"

text \<open>Moving: the new list and what is left of the other one.\<close>

definition slist_move :: "slist \<Rightarrow> slist \<times> slist" where
  "slist_move other = (other, slist_empty)"

definition slist_move_assign :: "slist \<Rightarrow> slist \<Rightarrow> slist \<times> slist" where
  "slist_move_assign l other = (other, l)"

definition slist_release :: "slist \<Rightarrow> ptr \<times> slist" where
  "slist_release l = (m_first_node l, slist_empty)"

subsection \<open>Changes\<close>

definition prepend :: "c_append \<Rightarrow> slist \<Rightarrow> string \<Rightarrow> heap \<Rightarrow> (ptr \<times> slist) heap_result" where
  "prepend app l str h =
     (case app h None str of
        (None, h) \<Rightarrow> Some (Inl Bad_alloc, h)
      | (Some node, h) \<Rightarrow> (case set_next (m_first_node l) h node of
            None \<Rightarrow> None
          | Some h \<Rightarrow> Some (Inr (Some node, \<lparr>m_first_node = Some node,
                m_last_node = (if m_last_node l = None then Some node else m_last_node l)\<rparr>), h)))"

definition insert_after :: "c_append \<Rightarrow> slist \<Rightarrow> ptr \<Rightarrow> string \<Rightarrow> heap \<Rightarrow> (ptr \<times> slist) heap_result" where
  "insert_after app l pos str h =
     (case app h None str of
        (None, h) \<Rightarrow> Some (Inl Bad_alloc, h)
      | (Some node, h) \<Rightarrow>
          (case (if pos = None then m_last_node l else pos) of
             Some c \<Rightarrow>
               (case h c of None \<Rightarrow> None | Some n \<Rightarrow>
                case set_next (node_next n) h node of None \<Rightarrow> None | Some h \<Rightarrow>
                case set_next (Some node) h c of None \<Rightarrow> None | Some h \<Rightarrow>
                case h node of None \<Rightarrow> None | Some n \<Rightarrow>
                  Some (Inr (Some node, if node_next n = None then l\<lparr>m_last_node := Some node\<rparr> else l), h))
           | None \<Rightarrow>
               (case set_next None h node of None \<Rightarrow> None | Some h \<Rightarrow>
                  Some (Inr (Some node, l\<lparr>m_first_node := Some node, m_last_node := Some node\<rparr>), h))))"

fun nth_node :: "heap \<Rightarrow> ptr \<Rightarrow> nat \<Rightarrow> ptr option" where
  "nth_node h None i = Some None"
| "nth_node h (Some a) 0 = Some (Some a)"
| "nth_node h (Some a) (Suc i) = (case h a of None \<Rightarrow> None | Some n \<Rightarrow> nth_node h (node_next n) i)"

definition slist_index :: "slist \<Rightarrow> nat \<Rightarrow> heap \<Rightarrow> ptr option" where
  "slist_index l idx h = nth_node h (m_first_node l) idx"

definition slist_append where
  "slist_append app l str h = insert_after app l None str h"

definition slist_insert :: "c_append \<Rightarrow> slist \<Rightarrow> nat \<Rightarrow> string \<Rightarrow> heap \<Rightarrow> (ptr \<times> slist) heap_result" where
  "slist_insert app l idx str h =
     (if idx = 0 then prepend app l str h
      else case slist_index l (idx - 1) h of None \<Rightarrow> None | Some pos \<Rightarrow> insert_after app l pos str h)"

text \<open>The loop of \<open>remove(size_t)\<close>: the node before the one to remove, and that one.\<close>

fun walk :: "heap \<Rightarrow> nat \<Rightarrow> ptr \<Rightarrow> nat \<Rightarrow> (nat \<times> ptr) option" where
  "walk h prev None i = Some (prev, None)"
| "walk h prev (Some a) 0 = Some (prev, Some a)"
| "walk h prev (Some a) (Suc i) = (case h a of None \<Rightarrow> None | Some n \<Rightarrow> walk h a (node_next n) i)"

text \<open>Take the node at \<open>a\<close> out behind \<open>prev\<close> and free it.\<close>

definition unlink :: "c_free \<Rightarrow> nat \<Rightarrow> nat \<Rightarrow> heap \<Rightarrow> heap option" where
  "unlink free prev a h =
     (case h a of None \<Rightarrow> None | Some n \<Rightarrow>
      case set_next (node_next n) h prev of None \<Rightarrow> None | Some h \<Rightarrow>
      case set_next None h a of None \<Rightarrow> None | Some h \<Rightarrow> Some (free h (Some a)))"

definition remove_index :: "c_free \<Rightarrow> slist \<Rightarrow> nat \<Rightarrow> heap \<Rightarrow> slist heap_result" where
  "remove_index free l index h =
     (if index = 0 then
        let l1 = (if m_last_node l = m_first_node l then l\<lparr>m_last_node := None\<rparr> else l) in
        (case m_first_node l of
           None \<Rightarrow> Some (Inr l1, h)
         | Some a \<Rightarrow>
             (case h a of None \<Rightarrow> None | Some n \<Rightarrow>
              case set_next None h a of None \<Rightarrow> None | Some h \<Rightarrow>
                Some (Inr (l1\<lparr>m_first_node := node_next n\<rparr>), free h (Some a))))
      else
        (case m_first_node l of
           None \<Rightarrow> Some (Inr l, h)
         | Some prev \<Rightarrow>
             (case h prev of None \<Rightarrow> None | Some n \<Rightarrow>
              case walk h prev (node_next n) (index - 1) of None \<Rightarrow> None
              | Some (prev, None) \<Rightarrow> Some (Inr l, h)
              | Some (prev, Some a) \<Rightarrow>
                  (case unlink free prev a h of None \<Rightarrow> None | Some h \<Rightarrow>
                     Some (Inr (if Some a = m_last_node l then l\<lparr>m_last_node := Some prev\<rparr> else l), h)))))"

text \<open>The loop of \<open>remove(slist_iterator)\<close>.\<close>

partial_function (option) find_prev :: "heap \<Rightarrow> ptr \<Rightarrow> nat \<Rightarrow> ptr option" where
  "find_prev h prev c =
     (case prev of
        None \<Rightarrow> Some None
      | Some p \<Rightarrow> (case h p of
            None \<Rightarrow> None
          | Some n \<Rightarrow> if node_next n = Some c then Some prev else find_prev h (node_next n) c))"

definition remove_at :: "c_free \<Rightarrow> slist \<Rightarrow> ptr \<Rightarrow> heap \<Rightarrow> slist heap_result" where
  "remove_at free l pos h =
     (case (if pos = None then m_last_node l else pos) of
        None \<Rightarrow> Some (Inr l, h)
      | Some c \<Rightarrow>
          if Some c = m_first_node l then
            (case h c of None \<Rightarrow> None | Some n \<Rightarrow>
             case set_next None h c of None \<Rightarrow> None | Some h \<Rightarrow>
               Some (Inr \<lparr>m_first_node = node_next n, m_last_node = (if node_next n = None then None else m_last_node l)\<rparr>,
                 free h (Some c)))
          else
            (case find_prev h (m_first_node l) c of None \<Rightarrow> None
             | Some None \<Rightarrow> Some (Inr l, h)
             | Some (Some prev) \<Rightarrow>
                 (case h c of None \<Rightarrow> None | Some n \<Rightarrow>
                  case unlink free prev c h of None \<Rightarrow> None | Some h \<Rightarrow>
                    Some (Inr (if node_next n = None then l\<lparr>m_last_node := Some prev\<rparr> else l), h))))"

definition slist_clear :: "c_free \<Rightarrow> slist \<Rightarrow> heap \<Rightarrow> slist \<times> heap" where
  "slist_clear free l h = (slist_empty, free h (m_first_node l))"

text \<open>The iterator: what it points to, and the step.\<close>

definition iterator_value :: "ptr \<Rightarrow> heap \<Rightarrow> string option" where
  "iterator_value it h = (case it of None \<Rightarrow> None | Some a \<Rightarrow> map_option node_data (h a))"

definition iterator_next :: "ptr \<Rightarrow> heap \<Rightarrow> ptr option" where
  "iterator_next it h = (case it of None \<Rightarrow> Some None | Some a \<Rightarrow> map_option node_next (h a))"

subsection \<open>Lists in the heap\<close>

text \<open>From \<open>p\<close>, the nodes \<open>ns\<close> (address and text) lead to \<open>q\<close>.\<close>

fun lseg :: "heap \<Rightarrow> ptr \<Rightarrow> (nat \<times> string) list \<Rightarrow> ptr \<Rightarrow> bool" where
  "lseg h p [] q = (p = q)"
| "lseg h p ((a, x) # ns) q =
     (p = Some a \<and> (case h a of None \<Rightarrow> False | Some n \<Rightarrow> node_data n = x \<and> lseg h (node_next n) ns q))"

abbreviation addrs :: "(nat \<times> string) list \<Rightarrow> nat set" where
  "addrs ns \<equiv> fst ` set ns"

definition holds :: "heap \<Rightarrow> slist \<Rightarrow> (nat \<times> string) list \<Rightarrow> bool" where
  "holds h l ns \<longleftrightarrow> lseg h (m_first_node l) ns None \<and> distinct (map fst ns) \<and>
     m_last_node l = (if ns = [] then None else Some (fst (last ns)))"

text \<open>
  What libcurl documents: \<open>curl_slist_append\<close> gives a null pointer and changes nothing, or puts
  a new node behind the list and gives the list (the new node, for an empty list);
  \<open>curl_slist_free_all\<close> frees the nodes of the list.
\<close>

definition append_spec :: "c_append \<Rightarrow> bool" where
  "append_spec f \<longleftrightarrow> (\<forall>h p ns s. lseg h p ns None \<and> distinct (map fst ns) \<longrightarrow>
     (case f h p s of
        (None, h') \<Rightarrow> h' = h
      | (Some a, h') \<Rightarrow> \<exists>b. h b = None \<and> lseg h' (Some a) (ns @ [(b, s)]) None \<and>
          (\<forall>c. c \<notin> insert b (addrs ns) \<longrightarrow> h' c = h c)))"

definition free_spec :: "c_free \<Rightarrow> bool" where
  "free_spec f \<longleftrightarrow> (\<forall>h p ns. lseg h p ns None \<longrightarrow> f h p = h |` (- addrs ns))"

lemma lseg_cong: "(\<And>a. a \<in> addrs ns \<Longrightarrow> h' a = h a) \<Longrightarrow> lseg h' p ns q = lseg h p ns q"
  by (induction ns arbitrary: p) (auto split: option.splits)

lemma lseg_update [simp]: "a \<notin> addrs ns \<Longrightarrow> lseg (h(a := v)) p ns q = lseg h p ns q"
  by (rule lseg_cong) auto

lemma lseg_append [simp]: "lseg h p (ms @ ns) q \<longleftrightarrow> (\<exists>r. lseg h p ms r \<and> lseg h r ns q)"
  by (induction ms arbitrary: p) (auto split: option.splits)

lemma lseg_alive: "lseg h p ns q \<Longrightarrow> a \<in> addrs ns \<Longrightarrow> \<exists>n. h a = Some n"
proof (induction ns arbitrary: p)
  case (Cons m ns)
  then show ?case by (cases m) (auto split: option.splits)
qed simp

lemma lseg_None [simp]: "lseg h None ns q \<longleftrightarrow> ns = [] \<and> q = None"
  by (cases ns) auto

lemma lseg_first: "lseg h p ns None \<Longrightarrow> p = (case ns of [] \<Rightarrow> None | n # _ \<Rightarrow> Some (fst n))"
  by (cases ns) (auto split: list.splits)

lemma new_node:
  assumes "append_spec f" "f h None s = (Some a, h')"
  shows "h a = None \<and> (\<exists>n. h' a = Some n \<and> node_data n = s \<and> node_next n = None) \<and> (\<forall>c. c \<noteq> a \<longrightarrow> h' c = h c)"
  using assms(1) [unfolded append_spec_def, THEN spec [of _ h], THEN spec [of _ None], THEN spec [of _ "[]"], THEN spec [of _ s]]
    assms(2) by (auto split: option.splits)

lemma no_node: "append_spec f \<Longrightarrow> f h None s = (None, h') \<Longrightarrow> h' = h"
  using spec [of _ h] by (fastforce simp: append_spec_def dest!: spec [of _ h] spec [of _ None] spec [of _ "[]"] spec [of _ s])

text \<open>Other cells keep their contents.\<close>

definition frame :: "nat set \<Rightarrow> heap \<Rightarrow> heap \<Rightarrow> bool" where
  "frame A h h' \<longleftrightarrow> (\<forall>c. c \<notin> A \<longrightarrow> h' c = h c)"

definition inserted :: "c_append \<Rightarrow> heap \<Rightarrow> (ptr \<times> slist) heap_result \<Rightarrow> (nat \<times> string) list \<Rightarrow> string \<Rightarrow> (nat \<times> string) list \<Rightarrow> bool" where
  "inserted f h r ms s ns \<longleftrightarrow>
     (if fst (f h None s) = None then r = Some (Inl Bad_alloc, h)
      else \<exists>a l' h'. r = Some (Inr (Some a, l'), h') \<and> h a = None \<and> holds h' l' (ms @ (a, s) # ns) \<and>
        frame (insert a (addrs (ms @ ns))) h h')"

lemma insert_after_lseg:
  assumes f: "append_spec f" and l: "lseg h (m_first_node l) (ms @ (c, x) # ns) None" and d: "distinct (map fst (ms @ (c, x) # ns))"
    and c: "(if pos = None then m_last_node l else pos) = Some c"
  shows "if fst (f h None s) = None then insert_after f l pos s h = Some (Inl Bad_alloc, h)
    else \<exists>a h'. insert_after f l pos s h = Some (Inr (Some a, if ns = [] then l\<lparr>m_last_node := Some a\<rparr> else l), h') \<and>
      h a = None \<and> lseg h' (m_first_node l) (ms @ (c, x) # (a, s) # ns) None \<and>
      frame (insert a (addrs (ms @ (c, x) # ns))) h h'"
proof (cases "f h None s")
  case (Pair r h1)
  show ?thesis
  proof (cases r)
    case None
    with Pair no_node [OF f] show ?thesis by (auto simp: insert_after_def)
  next
    case (Some a)
    from new_node [OF f] Pair Some obtain n where
      a: "h a = None" "h1 a = Some n" "node_data n = s" "node_next n = None" "\<forall>c. c \<noteq> a \<longrightarrow> h1 c = h c" by blast
    have fresh: "a \<notin> addrs (ms @ (c, x) # ns)" using lseg_alive [OF l] a(1) by fastforce
    from l obtain m where m: "h c = Some m" "node_data m = x" "lseg h (node_next m) ns None" "lseg h (m_first_node l) ms (Some c)"
      by (auto split: option.splits)
    have "c \<noteq> a" using fresh by auto
    define h3 where "h3 = h1(a \<mapsto> n\<lparr>node_next := node_next m\<rparr>, c \<mapsto> m\<lparr>node_next := Some a\<rparr>)"
    have eq: "lseg h3 p ks q = lseg h p ks q" if "c \<notin> addrs ks" "a \<notin> addrs ks" for p q ks
      by (rule lseg_cong) (use that a(5) in \<open>auto simp: h3_def\<close>)
    have "a \<notin> addrs ms" "a \<notin> addrs ns" "c \<notin> addrs ms" "c \<notin> addrs ns" using fresh d by auto
    then have "lseg h3 (m_first_node l) ms (Some c)" "lseg h3 (node_next m) ns None"
      using eq [of ms "m_first_node l" "Some c"] eq [of ns "node_next m" None] m(3,4) by blast+
    moreover have "h3 a = Some (n\<lparr>node_next := node_next m\<rparr>)" "h3 c = Some (m\<lparr>node_next := Some a\<rparr>)"
      using \<open>c \<noteq> a\<close> by (simp_all add: h3_def)
    ultimately have "lseg h3 (m_first_node l) (ms @ (c, x) # (a, s) # ns) None"
      using m(2) a(3) by auto
    moreover have "(node_next m = None) = (ns = [])" using m(3) by (cases ns) auto
    then have "insert_after f l pos s h = Some (Inr (Some a, if ns = [] then l\<lparr>m_last_node := Some a\<rparr> else l), h3)"
      using Pair Some c a m \<open>c \<noteq> a\<close> by (simp add: insert_after_def set_next_def h3_def)
    moreover have "frame (insert a (addrs (ms @ (c, x) # ns))) h h3" using a(5) by (auto simp: frame_def h3_def)
    ultimately show ?thesis using Pair Some a(1) by auto
  qed
qed

lemma insert_after_holds:
  assumes "append_spec f" "holds h l (ms @ (c, x) # ns)" "(if pos = None then m_last_node l else pos) = Some c"
  shows "inserted f h (insert_after f l pos s h) (ms @ [(c, x)]) s ns"
proof -
  have l: "lseg h (m_first_node l) (ms @ (c, x) # ns) None" "distinct (map fst (ms @ (c, x) # ns))"
    using assms(2) by (simp_all add: holds_def)
  have "a \<notin> addrs (ms @ (c, x) # ns)" if "h a = None" for a
    using lseg_alive [OF l(1)] that by fastforce
  with insert_after_lseg [OF assms(1) l assms(3), of s] assms(2) show ?thesis
    by (auto simp: inserted_def holds_def split: if_splits)
qed

lemma insert_into_empty:
  assumes f: "append_spec f" and l: "holds h l []"
  shows "inserted f h (insert_after f l None s h) [] s []"
proof (cases "f h None s")
  case (Pair r h1)
  show ?thesis
  proof (cases r)
    case None
    with Pair no_node [OF f] show ?thesis by (auto simp: insert_after_def inserted_def)
  next
    case (Some a)
    with new_node [OF f] Pair l show ?thesis
      by (force simp: insert_after_def inserted_def holds_def set_next_def frame_def)
  qed
qed

lemma prepend_holds:
  assumes f: "append_spec f" and l: "holds h l ns"
  shows "inserted f h (prepend f l s h) [] s ns"
proof (cases "f h None s")
  case (Pair r h1)
  show ?thesis
  proof (cases r)
    case None
    with Pair no_node [OF f] show ?thesis by (auto simp: prepend_def inserted_def)
  next
    case (Some a)
    from new_node [OF f] Pair Some obtain n where
      a: "h a = None" "h1 a = Some n" "node_data n = s" "node_next n = None" "\<forall>c. c \<noteq> a \<longrightarrow> h1 c = h c" by blast
    have n: "lseg h (m_first_node l) ns None" "distinct (map fst ns)" "m_last_node l = (if ns = [] then None else Some (fst (last ns)))"
      using l by (simp_all add: holds_def)
    have fresh: "a \<notin> addrs ns" using lseg_alive [OF n(1)] a(1) by fastforce
    define h2 where "h2 = h1(a \<mapsto> n\<lparr>node_next := m_first_node l\<rparr>)"
    have "lseg h2 (m_first_node l) ns None = lseg h (m_first_node l) ns None"
      by (rule lseg_cong) (use fresh a(5) in \<open>auto simp: h2_def\<close>)
    with n fresh a Pair Some show ?thesis
      by (auto simp: prepend_def inserted_def holds_def set_next_def frame_def h2_def)
  qed
qed

lemma nth_node_at: "lseg h p (ms @ ns) None \<Longrightarrow> nth_node h p (length ms) = Some (case ns of [] \<Rightarrow> None | n # _ \<Rightarrow> Some (fst n))"
proof (induction ms arbitrary: p)
  case Nil
  then show ?case by (cases ns) auto
next
  case (Cons m ms)
  then show ?case by (cases m) (auto split: option.splits)
qed

lemma nth_node_past: "lseg h p ns None \<Longrightarrow> length ns \<le> i \<Longrightarrow> nth_node h p i = Some None"
proof (induction ns arbitrary: p i)
  case (Cons n ns)
  then show ?case by (cases n; cases i) (auto split: option.splits)
qed simp

lemma append_holds:
  assumes "append_spec f" "holds h l ns"
  shows "inserted f h (insert_after f l None s h) ns s []"
proof (cases ns rule: rev_cases)
  case Nil
  with assms insert_into_empty show ?thesis by simp
next
  case (snoc ms m)
  obtain c x where "m = (c, x)" by (cases m)
  with assms snoc insert_after_holds [of f h l ms c x "[]" None s] show ?thesis by (simp add: holds_def)
qed

lemma insert_holds:
  assumes "append_spec f" "holds h l ns"
  shows "inserted f h (slist_insert f l i s h) (take i ns) s (drop i ns)"
proof (cases i)
  case 0
  with prepend_holds [OF assms] show ?thesis by (simp add: slist_insert_def)
next
  case (Suc j)
  have l: "lseg h (m_first_node l) ns None" using assms(2) by (simp add: holds_def)
  show ?thesis
  proof (cases "j < length ns")
    case True
    obtain c x where cx: "ns ! j = (c, x)" by fastforce
    have split: "ns = take j ns @ (c, x) # drop (Suc j) ns" using True id_take_nth_drop cx by metis
    have "nth_node h (m_first_node l) (length (take j ns)) = Some (Some c)"
      using nth_node_at [of h _ "take j ns" "(c, x) # drop (Suc j) ns"] l split by (metis fst_conv list.simps(5))
    then have "nth_node h (m_first_node l) j = Some (Some c)" using True by simp
    moreover have "holds h l (take j ns @ (c, x) # drop (Suc j) ns)" using assms(2) split by simp
    from insert_after_holds [OF assms(1) this, of "Some c" s]
    have "inserted f h (insert_after f l (Some c) s h) (take (Suc j) ns) s (drop (Suc j) ns)"
      using True cx by (simp add: take_Suc_conv_app_nth)
    ultimately show ?thesis using Suc by (simp add: slist_insert_def slist_index_def)
  next
    case False
    with nth_node_past [OF l] append_holds [OF assms] Suc show ?thesis
      by (simp add: slist_insert_def slist_index_def)
  qed
qed

text \<open>The node behind \<open>ms\<close> is gone and freed.\<close>

definition removed :: "heap \<Rightarrow> slist heap_result \<Rightarrow> (nat \<times> string) list \<Rightarrow> nat \<Rightarrow> (nat \<times> string) list \<Rightarrow> bool" where
  "removed h r ms c ns \<longleftrightarrow>
     (\<exists>l' h'. r = Some (Inr l', h') \<and> holds h' l' (ms @ ns) \<and> h' c = None \<and> frame (insert c (addrs (ms @ ns))) h h')"

lemma free_one: "free_spec g \<Longrightarrow> h c = Some n \<Longrightarrow> node_next n = None \<Longrightarrow> g h (Some c) = h(c := None)"
  using spec [of _ "[(c, node_data n)]"]
  by (auto simp: free_spec_def restrict_map_def fun_eq_iff dest!: spec [of _ h] spec [of _ "Some c"] spec [of _ "[(c, node_data n)]"])

lemma unlink_lseg:
  assumes g: "free_spec g" and l: "lseg h q (ms @ (p, x) # (c, y) # ns) None" and d: "distinct (map fst (ms @ (p, x) # (c, y) # ns))"
  shows "\<exists>h'. unlink g p c h = Some h' \<and> lseg h' q (ms @ (p, x) # ns) None \<and> h' c = None \<and>
    frame (insert c (addrs (ms @ (p, x) # ns))) h h'"
proof -
  from l obtain np nc where n: "h p = Some np" "node_data np = x" "h c = Some nc" "lseg h (node_next nc) ns None"
      "lseg h q ms (Some p)" by (auto split: option.splits)
  have "p \<noteq> c" using d by auto
  define h' where "h' = h(p \<mapsto> np\<lparr>node_next := node_next nc\<rparr>, c := None)"
  have "unlink g p c h = Some h'"
    using n \<open>p \<noteq> c\<close> by (simp add: unlink_def set_next_def free_one [OF g] h'_def fun_upd_def fun_eq_iff)
  moreover have "p \<notin> addrs ms" "p \<notin> addrs ns" "c \<notin> addrs ms" "c \<notin> addrs ns" using d by auto
  then have "lseg h' q ms (Some p)" "lseg h' (node_next nc) ns None" using n(4,5) by (simp_all add: h'_def)
  then have "lseg h' q (ms @ (p, x) # ns) None" using n(2) \<open>p \<noteq> c\<close> by (auto simp: h'_def)
  moreover have "h' c = None" "frame (insert c (addrs (ms @ (p, x) # ns))) h h'" by (auto simp: h'_def frame_def)
  ultimately show ?thesis by blast
qed

lemma remove_first:
  assumes g: "free_spec g" and l: "holds h l ((c, y) # ns)"
  shows "removed h (remove_index g l 0 h) [] c ns \<and> removed h (remove_at g l (Some c) h) [] c ns"
proof -
  from l obtain nc where n: "h c = Some nc" "lseg h (node_next nc) ns None" "m_first_node l = Some c" "c \<notin> addrs ns"
      "distinct (map fst ns)" "m_last_node l = Some (fst (last ((c, y) # ns)))"
    by (auto simp: holds_def split: option.splits)
  define h' where "h' = h(c := None)"
  have h': "g (h(c \<mapsto> nc\<lparr>node_next := None\<rparr>)) (Some c) = h'"
    using free_one [OF g, of "h(c \<mapsto> nc\<lparr>node_next := None\<rparr>)" c] by (simp add: h'_def)
  have hc: "h' c = None" "\<forall>a. a \<noteq> c \<longrightarrow> h' a = h a" by (simp_all add: h'_def)
  have e: "ns \<noteq> [] \<Longrightarrow> fst (last ns) \<in> addrs ns" by simp
  have "lseg h' (node_next nc) ns None" using n(2,4) by (simp add: h'_def)
  moreover have "node_next nc = None \<longleftrightarrow> ns = []" using n(2) by (cases ns) auto
  moreover have "fst (last ns) \<noteq> c" if "ns \<noteq> []" using e [OF that] n(4) by blast
  ultimately show ?thesis
    using n h' hc by (auto simp: removed_def remove_index_def remove_at_def set_next_def holds_def Let_def frame_def)
qed

lemma walk_to:
  "lseg h q (ms @ (c, y) # ns) None \<Longrightarrow> walk h prev q (length ms) = Some (last (prev # map fst ms), Some c)"
proof (induction ms arbitrary: q prev)
  case (Cons m ms)
  then show ?case by (cases m) (auto split: option.splits)
qed auto

lemma walk_past: "lseg h q ns None \<Longrightarrow> length ns \<le> i \<Longrightarrow> \<exists>prev'. walk h prev q i = Some (prev', None)"
proof (induction ns arbitrary: q prev i)
  case (Cons n ns)
  then show ?case by (cases n; cases i) (auto split: option.splits)
qed auto

lemma find_prev_to:
  "lseg h q (ms @ (p, x) # (c, y) # ns) None \<Longrightarrow> distinct (map fst (ms @ (p, x) # (c, y) # ns)) \<Longrightarrow>
   find_prev h q c = Some (Some p)"
proof (induction ms arbitrary: q)
  case Nil
  then show ?case by (subst find_prev.simps) (auto split: option.splits)
next
  case (Cons m ms)
  obtain a z where m: "m = (a, z)" by (cases m)
  from Cons.prems(1) m obtain n where n: "q = Some a" "h a = Some n" "lseg h (node_next n) (ms @ (p, x) # (c, y) # ns) None"
    by (auto split: option.splits)
  have "node_next n \<noteq> Some c"
    using n(3) Cons.prems(2) by (cases ms) auto
  with n Cons show ?case by (subst find_prev.simps) simp
qed

lemma remove_later:
  assumes g: "free_spec g" and l: "holds h l (ms @ (p, x) # (c, y) # ns)"
  shows "removed h (remove_index g l (Suc (length ms)) h) (ms @ [(p, x)]) c ns \<and>
    removed h (remove_at g l (Some c) h) (ms @ [(p, x)]) c ns"
proof -
  have n: "lseg h (m_first_node l) (ms @ (p, x) # (c, y) # ns) None" "distinct (map fst (ms @ (p, x) # (c, y) # ns))"
    "m_last_node l = Some (fst (last ((c, y) # ns)))"
    using l by (auto simp: holds_def)
  from unlink_lseg [OF g n(1,2)] obtain h' where u: "unlink g p c h = Some h'" "lseg h' (m_first_node l) (ms @ (p, x) # ns) None"
    "h' c = None" "frame (insert c (addrs (ms @ (p, x) # ns))) h h'" by blast
  define l' where "l' = (if ns = [] then l\<lparr>m_last_node := Some p\<rparr> else l)"
  have "holds h' l' (ms @ (p, x) # ns)" using u(2) n by (auto simp: holds_def l'_def)
  then have r: "removed h (Some (Inr l', h')) (ms @ [(p, x)]) c ns" using u by (simp add: removed_def)
  obtain a z ks where h: "ms @ [(p, x)] = (a, z) # ks" by (cases "ms @ [(p, x)]") auto
  have "last (a # map fst ks) = last (map fst (ms @ [(p, x)]))" unfolding h by simp
  moreover have "length (ms @ [(p, x)]) = Suc (length ks)" unfolding h by simp
  ultimately have k: "length ks = length ms" "last (a # map fst ks) = p" by simp_all
  have eq: "ms @ (p, x) # (c, y) # ns = (a, z) # ks @ (c, y) # ns"
    using arg_cong [OF h, of "\<lambda>k. k @ (c, y) # ns"] by simp
  from n(1) [unfolded eq]
  obtain na where na: "m_first_node l = Some a" "h a = Some na" "lseg h (node_next na) (ks @ (c, y) # ns) None"
    by (auto split: option.splits)
  have "fst (last ns) \<noteq> c" if "ns \<noteq> []" using that n(2) last_in_set [OF that] by force
  then have "(Some c = m_last_node l) = (ns = [])" using n(3) by auto
  then have "remove_index g l (Suc (length ms)) h = Some (Inr l', h')"
    using walk_to [OF na(3), of a] k na u(1) by (simp add: remove_index_def l'_def)
  moreover obtain nc where nc: "h c = Some nc" "(node_next nc = None) = (ns = [])"
    using n(1) by (cases ns) (auto split: option.splits)
  have "c \<noteq> a" using n(2) h by (cases ms) auto
  then have "remove_at g l (Some c) h = Some (Inr l', h')"
    using find_prev_to [OF n(1,2)] na nc u(1) by (simp add: remove_at_def l'_def)
  ultimately show ?thesis using r by simp
qed

lemma remove_holds:
  assumes "free_spec g" "holds h l ns" "i < length ns"
  shows "removed h (remove_index g l i h) (take i ns) (fst (ns ! i)) (drop (Suc i) ns) \<and>
    removed h (remove_at g l (Some (fst (ns ! i))) h) (take i ns) (fst (ns ! i)) (drop (Suc i) ns)"
proof (cases i)
  case 0
  with assms remove_first [of g h l "fst (hd ns)" "snd (hd ns)" "tl ns"] show ?thesis by (cases ns) auto
next
  case (Suc j)
  obtain p x c y where e: "ns ! j = (p, x)" "ns ! i = (c, y)" by fastforce
  have j: "j < length ns" "j < i" using assms(3) Suc by simp_all
  have t: "take i ns = take j ns @ [(p, x)]" using j e Suc by (simp add: take_Suc_conv_app_nth)
  have "ns = take i ns @ (c, y) # drop (Suc i) ns" using assms(3) id_take_nth_drop e by metis
  then have s: "ns = take j ns @ (p, x) # (c, y) # drop (Suc i) ns" using t by simp
  from remove_later [OF assms(1), of h l "take j ns" p x c y "drop (Suc i) ns"] assms(2) s t e j Suc show ?thesis
    by (simp add: min_absorb2)
qed

lemma remove_past:
  assumes "holds h l ns" "length ns \<le> i"
  shows "remove_index g l i h = Some (Inr l, h)"
proof (cases ns)
  case Nil
  with assms show ?thesis by (auto simp: remove_index_def holds_def Let_def)
next
  case (Cons n ms)
  obtain a x where n: "n = (a, x)" by (cases n)
  obtain j where i: "i = Suc j" "length ms \<le> j" using assms(2) Cons by (cases i) auto
  from assms(1) Cons n obtain na where "m_first_node l = Some a" "h a = Some na" "lseg h (node_next na) ms None"
    by (auto simp: holds_def split: option.splits)
  with walk_past [of h "node_next na" ms j a] i show ?thesis by (auto simp: remove_index_def)
qed

lemma copy_loop_result:
  assumes f: "append_spec f" and "lseg h p ns None" "lseg h first cs None" "distinct (map fst cs)" "distinct (map fst ns)"
    "addrs ns \<inter> addrs cs = {}"
  shows "\<exists>r h'. copy_loop f g first first p h = Some (r, h') \<and>
    (\<forall>l. r = Inr l \<longrightarrow> m_last_node l = m_first_node l \<and>
      (\<exists>ms. lseg h' (m_first_node l) (cs @ ms) None \<and> map snd ms = map snd ns \<and> distinct (map fst (cs @ ms))))"
  using assms(2-)
proof (induction ns arbitrary: p first cs h)
  case Nil
  then show ?case by (subst copy_loop.simps) (auto intro!: exI [of _ "[]"])
next
  case (Cons n ns)
  obtain a x where n: "n = (a, x)" by (cases n)
  from Cons.prems(1) n obtain na where a: "p = Some a" "h a = Some na" "node_data na = x" "lseg h (node_next na) ns None"
    by (auto split: option.splits)
  show ?case
  proof (cases "f h first x")
    case (Pair r h1)
    note spec = f [unfolded append_spec_def, THEN spec [of _ h], THEN spec [of _ first], THEN spec [of _ cs], THEN spec [of _ x]]
    show ?thesis
    proof (cases r)
      case None
      with Pair a show ?thesis by (subst copy_loop.simps) simp
    next
      case (Some b0)
      with spec Pair Cons.prems(2,3) obtain b where b: "h b = None" "lseg h1 (Some b0) (cs @ [(b, x)]) None"
          "\<forall>c. c \<notin> insert b (addrs cs) \<longrightarrow> h1 c = h c" by auto
      have fresh: "b \<notin> addrs cs" "b \<notin> addrs ns" "b \<noteq> a"
        using lseg_alive [OF Cons.prems(2)] lseg_alive [OF a(4)] b(1) a(2) by fastforce+
      have keep: "h1 c = h c" if "c \<in> addrs (n # ns)" for c
      proof -
        have "c \<noteq> b" using that fresh n by auto
        moreover have "c \<notin> addrs cs" using that Cons.prems(5) by blast
        ultimately show ?thesis using b(3) by simp
      qed
      then have h1a: "h1 a = Some na" using n a(2) by simp
      have rest: "lseg h1 (node_next na) ns None" using a(4) keep lseg_cong [of ns h1 h] by auto
      have first: "(if first = None then Some b0 else first) = Some b0"
        using Cons.prems(2) b(2) by (cases cs) (auto split: if_splits)
      have "\<exists>r h'. copy_loop f g (Some b0) (Some b0) (node_next na) h1 = Some (r, h') \<and>
        (\<forall>l. r = Inr l \<longrightarrow> m_last_node l = m_first_node l \<and>
          (\<exists>ms. lseg h' (m_first_node l) ((cs @ [(b, x)]) @ ms) None \<and> map snd ms = map snd ns \<and>
            distinct (map fst ((cs @ [(b, x)]) @ ms))))"
        using Cons.prems fresh b(2) rest n by (intro Cons.IH) auto
      then obtain r' h' where r': "copy_loop f g (Some b0) (Some b0) (node_next na) h1 = Some (r', h')"
        "\<forall>l. r' = Inr l \<longrightarrow> m_last_node l = m_first_node l \<and>
          (\<exists>ms. lseg h' (m_first_node l) ((cs @ [(b, x)]) @ ms) None \<and> map snd ms = map snd ns \<and>
            distinct (map fst ((cs @ [(b, x)]) @ ms)))" by blast
      have "copy_loop f g first first p h = Some (r', h')"
        using Pair Some a h1a first r'(1) by (subst copy_loop.simps) simp
      moreover have "\<exists>ms. lseg h' (m_first_node l) (cs @ ms) None \<and> map snd ms = map snd (n # ns) \<and> distinct (map fst (cs @ ms))"
        if l: "r' = Inr l" for l
      proof -
        from r'(2) l obtain ms where "lseg h' (m_first_node l) ((cs @ [(b, x)]) @ ms) None" "map snd ms = map snd ns"
            "distinct (map fst ((cs @ [(b, x)]) @ ms))" by blast
        then show ?thesis using n by (intro exI [of _ "(b, x) # ms"]) (simp add: Int_commute)
      qed
      ultimately show ?thesis using r'(2) by blast
    qed
  qed
qed

subsection \<open>Properties\<close>

text \<open>
  C27: \<open>insert\<close> at an index (at the end, beyond it) and \<open>append\<close> either throw \<open>bad_alloc\<close> and change
  nothing, or put one new node with the text at that place: the list stays well-formed with a
  correct last node, and no other memory changes.
\<close>

theorem slist_insert_correct:
  assumes "append_spec f" "holds h l ns"
  shows "inserted f h (slist_insert f l i s h) (take i ns) s (drop i ns) \<and> inserted f h (slist_append f l s h) ns s []"
  using insert_holds [OF assms] append_holds [OF assms] by (simp add: slist_append_def)

text \<open>
  \<open>remove\<close> by index and by iterator take exactly that node out and free it; the list stays
  well-formed with a correct last node; an index beyond the end changes nothing.
\<close>

theorem slist_remove_correct:
  assumes "free_spec g" "holds h l ns"
  shows "if i < length ns
    then removed h (remove_index g l i h) (take i ns) (fst (ns ! i)) (drop (Suc i) ns) \<and>
      removed h (remove_at g l (Some (fst (ns ! i))) h) (take i ns) (fst (ns ! i)) (drop (Suc i) ns)
    else remove_index g l i h = Some (Inr l, h)"
  using remove_holds [OF assms] remove_past [OF assms(2)] by simp

text \<open>
  Copying a list gives one with the same texts, but its last node is the first one (because
  \<open>curl_slist_append\<close> returns the list, not the new node): what is appended to a copy of a list
  with several elements comes out as the second element.
\<close>

theorem append_to_copy_misplaced:
  assumes "append_spec f" "holds h l ns" "ns = (a, x) # rest"
  shows "\<exists>r h1. copy_slist f g (m_first_node l) h = Some (r, h1) \<and>
    (\<forall>c. r = Inr c \<longrightarrow> (\<exists>ms. lseg h1 (m_first_node c) ms None \<and> map snd ms = map snd ns) \<and>
      (fst (f h1 None s) \<noteq> None \<longrightarrow>
        (\<exists>it l2 h2 ms. slist_append f c s h1 = Some (Inr (it, l2), h2) \<and> lseg h2 (m_first_node l2) ms None \<and>
          map snd ms = x # s # map snd rest)))"
proof -
  have l: "lseg h (m_first_node l) ns None" "distinct (map fst ns)" using assms(2) by (simp_all add: holds_def)
  from copy_loop_result [OF assms(1) l(1), of None "[]" g] l(2) obtain r h1 where
    c: "copy_slist f g (m_first_node l) h = Some (r, h1)"
    "\<forall>l. r = Inr l \<longrightarrow> m_last_node l = m_first_node l \<and>
      (\<exists>ms. lseg h1 (m_first_node l) ms None \<and> map snd ms = map snd ns \<and> distinct (map fst ms))"
    by (auto simp: copy_slist_def)
  have "\<exists>it l2 h2 ms. slist_append f c s h1 = Some (Inr (it, l2), h2) \<and> lseg h2 (m_first_node l2) ms None \<and>
      map snd ms = x # s # map snd rest" if r: "r = Inr c" and ok: "fst (f h1 None s) \<noteq> None" for c
  proof -
    from c(2) r obtain ms where ms: "lseg h1 (m_first_node c) ms None" "map snd ms = map snd ns" "distinct (map fst ms)"
      "m_last_node c = m_first_node c" by blast
    with assms(3) obtain b ks where k: "ms = (b, x) # ks" "map snd ks = map snd rest" by (cases ms) auto
    then have "m_last_node c = Some b" using ms(1,4) by simp
    with insert_after_lseg [OF assms(1), of h1 c "[]" b x ks None s] ms k ok
    obtain a' h2 where "slist_append f c s h1 = Some (Inr (Some a', if ks = [] then c\<lparr>m_last_node := Some a'\<rparr> else c), h2)"
      "lseg h2 (m_first_node c) ((b, x) # (a', s) # ks) None" by (auto simp: slist_append_def)
    then show ?thesis using k
      by (intro exI [of _ "Some a'"] exI [of _ "if ks = [] then c\<lparr>m_last_node := Some a'\<rparr> else c"] exI [of _ h2]
        exI [of _ "(b, x) # (a', s) # ks"]) (cases "ks = []"; simp del: lseg.simps)
  qed
  with c show ?thesis by blast
qed

subsection \<open>Examples\<close>

text \<open>A library with room for eight nodes.\<close>

partial_function (option) tail_of :: "heap \<Rightarrow> nat \<Rightarrow> nat option" where
  "tail_of h a = (case h a of None \<Rightarrow> None | Some n \<Rightarrow>
     (case node_next n of None \<Rightarrow> Some a | Some b \<Rightarrow> tail_of h b))"

definition small_append :: c_append where
  "small_append h p s =
     (case List.find (\<lambda>a. h a = None) [0..<8] of
        None \<Rightarrow> (None, h)
      | Some b \<Rightarrow>
          (case p of
             None \<Rightarrow> (Some b, h(b \<mapsto> \<lparr>node_data = s, node_next = None\<rparr>))
           | Some a \<Rightarrow>
               (case tail_of h a of None \<Rightarrow> (None, h) | Some t \<Rightarrow>
                case h t of None \<Rightarrow> (None, h) | Some n \<Rightarrow>
                  (Some a, h(t \<mapsto> n\<lparr>node_next := Some b\<rparr>, b \<mapsto> \<lparr>node_data = s, node_next = None\<rparr>)))))"

lemma tail_of_last: "lseg h (Some a) (ns @ [(t, x)]) None \<Longrightarrow> tail_of h a = Some t"
proof (induction ns arbitrary: a)
  case Nil
  then show ?case by (subst tail_of.simps) (auto split: option.splits)
next
  case (Cons n ns)
  obtain b y where n: "n = (b, y)" by (cases n)
  from Cons.prems n obtain m where m: "h a = Some m" "lseg h (node_next m) (ns @ [(t, x)]) None"
    by (auto split: option.splits)
  then obtain c where c: "node_next m = Some c" by (cases "node_next m") auto
  with m Cons.IH show ?case by (subst tail_of.simps) simp
qed

lemma small_append_spec: "append_spec small_append"
  unfolding append_spec_def
proof (intro allI impI)
  fix h p and ns :: "(nat \<times> string) list" and s
  assume l: "lseg h p ns None \<and> distinct (map fst ns)"
  show "case small_append h p s of (None, h') \<Rightarrow> h' = h
    | (Some a, h') \<Rightarrow> \<exists>b. h b = None \<and> lseg h' (Some a) (ns @ [(b, s)]) None \<and> (\<forall>c. c \<notin> insert b (addrs ns) \<longrightarrow> h' c = h c)"
  proof (cases "List.find (\<lambda>a. h a = None) [0..<8]")
    case None
    then show ?thesis by (simp add: small_append_def)
  next
    case (Some b)
    then have b: "h b = None" by (auto simp: find_Some_iff)
    show ?thesis
    proof (cases ns rule: rev_cases)
      case Nil
      with l b Some show ?thesis by (auto simp: small_append_def intro!: exI [of _ b])
    next
      case (snoc ms m)
      obtain t x where m: "m = (t, x)" by (cases m)
      from l snoc m obtain a where a: "p = Some a" by (cases p) auto
      from l snoc m obtain n where n: "lseg h p ms (Some t)" "h t = Some n" "node_data n = x" "t \<notin> addrs ms"
        by (auto split: option.splits)
      have "b \<notin> addrs ms" "b \<noteq> t" using lseg_alive [OF n(1)] n(2) b by fastforce+
      with l snoc m a n b Some tail_of_last [of h a ms t x] show ?thesis
        by (auto simp: small_append_def intro!: exI [of _ b])
    qed
  qed
qed

partial_function (option) nodes_from :: "heap \<Rightarrow> ptr \<Rightarrow> nat list option" where
  "nodes_from h p = (case p of None \<Rightarrow> Some [] | Some a \<Rightarrow>
     (case h a of None \<Rightarrow> None | Some n \<Rightarrow>
      Option.bind (nodes_from h (node_next n)) (\<lambda>as. Some (a # as))))"

declare last_from.simps [code] copy_loop.simps [code] find_prev.simps [code] tail_of.simps [code] nodes_from.simps [code]

definition small_free :: c_free where
  "small_free h p = (case nodes_from h p of None \<Rightarrow> h | Some as \<Rightarrow> h |` (- set as))"

lemma nodes_from_lseg: "lseg h p ns None \<Longrightarrow> nodes_from h p = Some (map fst ns)"
proof (induction ns arbitrary: p)
  case Nil
  then show ?case by (subst nodes_from.simps) simp
next
  case (Cons n ns)
  then show ?case by (cases n; subst nodes_from.simps) (auto split: option.splits)
qed

lemma small_free_spec: "free_spec small_free"
  by (simp add: free_spec_def small_free_def nodes_from_lseg)

definition heap_example :: heap where
  "heap_example = Map.empty(0 \<mapsto> \<lparr>node_data = ''a'', node_next = Some 1\<rparr>, 1 \<mapsto> \<lparr>node_data = ''b'', node_next = None\<rparr>)"

definition slist_example :: slist where
  "slist_example = \<lparr>m_first_node = Some 0, m_last_node = Some 1\<rparr>"

lemma example_holds: "holds heap_example slist_example [(0, ''a''), (1, ''b'')]"
  by (simp add: holds_def heap_example_def slist_example_def)

lemma example_alloc: "fst (small_append heap_example None s) = Some 2"
  by (simp add: small_append_def heap_example_def upt_conv_Cons)

theorem slist_insert_correct_witness:
  "\<exists>a l' h'. slist_insert small_append slist_example 1 ''c'' heap_example = Some (Inr (Some a, l'), h') \<and>
    holds h' l' [(0, ''a''), (a, ''c''), (1, ''b'')]"
  using slist_insert_correct [OF small_append_spec example_holds, of 1 "''c''"] example_alloc
  by (auto simp: inserted_def)

theorem slist_remove_correct_witness:
  "\<exists>l' h'. remove_at small_free slist_example (Some 1) heap_example = Some (Inr l', h') \<and> holds h' l' [(0, ''a'')] \<and> h' 1 = None"
  using slist_remove_correct [OF small_free_spec example_holds, of 1] by (auto simp: removed_def)

lemma example_copy:
  "map_option (\<lambda>(r, h1). (r, fst (small_append h1 None ''c''))) (copy_slist small_append small_free (Some 0) heap_example) =
     Some (Inr \<lparr>m_first_node = Some 2, m_last_node = Some 2\<rparr>, Some 4)"
  by code_simp

theorem append_to_copy_misplaced_witness:
  "\<exists>c h1 it l2 h2 ms. copy_slist small_append small_free (Some 0) heap_example = Some (Inr c, h1) \<and>
    slist_append small_append c ''c'' h1 = Some (Inr (it, l2), h2) \<and> lseg h2 (m_first_node l2) ms None \<and>
    map snd ms = [''a'', ''c'', ''b'']"
proof -
  have f: "m_first_node slist_example = Some 0" by (simp add: slist_example_def)
  from example_copy obtain c h1 where c: "copy_slist small_append small_free (Some 0) heap_example = Some (Inr c, h1)"
    "fst (small_append h1 None ''c'') \<noteq> None" by auto
  with append_to_copy_misplaced [OF small_append_spec example_holds refl, of small_free "''c''", unfolded f]
  show ?thesis by fastforce
qed

end
