(* ===== verification/Cookie.thy ===== *)
theory Cookie
  imports Uri
begin

text \<open>
  \<open>curl/cookie.h\<close>: the class, its parser for lines of a Netscape cookie file and its printer.
  A point in time counts the ticks of \<open>system_clock\<close> (nanoseconds, as in libstdc++) in a signed
  64-bit integer. The two flags of a cookie that was built without them are indeterminate,
  \<open>None\<close>. The parser gives \<open>None\<close> when the expiry does not fit the clock (a signed overflow),
  the printer when a flag is indeterminate.
\<close>

record cookie =
  m_domain :: string
  m_path :: string
  m_expires :: int
  m_name :: string
  m_value :: string
  m_include_subdomains :: "bool option"
  m_secure :: "bool option"

definition cookie_default :: cookie where
  "cookie_default = \<lparr>m_domain = [], m_path = [], m_expires = 0, m_name = [], m_value = [],
     m_include_subdomains = None, m_secure = None\<rparr>"

definition cookie_named :: "string \<Rightarrow> string \<Rightarrow> cookie" where
  "cookie_named name value = cookie_default\<lparr>m_name := name, m_value := value\<rparr>"

definition cookie_full :: "string \<Rightarrow> bool \<Rightarrow> string \<Rightarrow> bool \<Rightarrow> int \<Rightarrow> string \<Rightarrow> string \<Rightarrow> cookie" where
  "cookie_full domain subdomain path secure expires name value =
     \<lparr>m_domain = domain, m_path = path, m_expires = expires, m_name = name, m_value = value,
      m_include_subdomains = Some subdomain, m_secure = Some secure\<rparr>"

subsection \<open>Parsing\<close>

definition cookie_trim :: "string \<Rightarrow> string" where
  "cookie_trim str =
     (let str = (case find_if (\<lambda>c. \<not> is_space c) str of None \<Rightarrow> [] | Some pos \<Rightarrow> drop pos str) in
      case find_last_if (\<lambda>c. \<not> is_space c) str of None \<Rightarrow> [] | Some pos \<Rightarrow> take (pos + 1) str)"

abbreviation tab :: char where
  "tab \<equiv> CHR 0x09"

definition pull_part :: "string \<Rightarrow> cpp_error + string \<times> string" where
  "pull_part str = (case find_if ((=) tab) str of
       None \<Rightarrow> Inl Invalid_argument
     | Some pos \<Rightarrow> Inr (take pos str, drop (pos + 1) str))"

definition iequals :: "string \<Rightarrow> string \<Rightarrow> bool" where
  "iequals a b \<longleftrightarrow> list_all2 (\<lambda>a b. tolower a = tolower b) a b"

text \<open>\<open>unsigned long long\<close> to \<open>time_t\<close>, and \<open>time_t\<close> to a point in time.\<close>

definition to_signed64 :: "nat \<Rightarrow> int" where
  "to_signed64 n = (if n < 2 ^ 63 then int n else int n - 2 ^ 64)"

definition from_time_t :: "int \<Rightarrow> int option" where
  "from_time_t t = (if - (2 ^ 63) \<le> t * 1000000000 \<and> t * 1000000000 < 2 ^ 63 then Some (t * 1000000000) else None)"

definition to_time_t :: "int \<Rightarrow> int" where
  "to_time_t e = (if e < 0 then - ((- e) div 1000000000) else e div 1000000000)"

definition cookie_ctor :: "string \<Rightarrow> (cpp_error + cookie) option" where
  "cookie_ctor str =
     (case pull_part str of Inl e \<Rightarrow> Some (Inl e) | Inr (domain, str) \<Rightarrow>
      case pull_part str of Inl e \<Rightarrow> Some (Inl e) | Inr (subdomains, str) \<Rightarrow>
      case pull_part str of Inl e \<Rightarrow> Some (Inl e) | Inr (path, str) \<Rightarrow>
      case pull_part str of Inl e \<Rightarrow> Some (Inl e) | Inr (secure, str) \<Rightarrow>
      case pull_part str of Inl e \<Rightarrow> Some (Inl e) | Inr (expires, str) \<Rightarrow>
      case stoull (cookie_trim expires) of Inl e \<Rightarrow> Some (Inl e) | Inr t \<Rightarrow>
      case from_time_t (to_signed64 t) of None \<Rightarrow> None | Some time \<Rightarrow>
      case pull_part str of Inl e \<Rightarrow> Some (Inl e) | Inr (name, str) \<Rightarrow>
        Some (Inr \<lparr>m_domain = cookie_trim domain, m_path = cookie_trim path, m_expires = time,
          m_name = cookie_trim name, m_value = cookie_trim str,
          m_include_subdomains = Some (iequals (cookie_trim subdomains) ''TRUE''),
          m_secure = Some (iequals (cookie_trim secure) ''TRUE'')\<rparr>))"

subsection \<open>Printing, comparison, validity\<close>

definition flag_text :: "bool \<Rightarrow> string" where
  "flag_text b = (if b then ''TRUE'' else ''FALSE'')"

definition cookie_to_string :: "cookie \<Rightarrow> string option" where
  "cookie_to_string c =
     (case m_include_subdomains c of None \<Rightarrow> None | Some sub \<Rightarrow>
      case m_secure c of None \<Rightarrow> None | Some sec \<Rightarrow>
        Some (m_domain c @ [tab] @ flag_text sub @ [tab] @ m_path c @ [tab] @ flag_text sec @ [tab] @
          int_to_string (to_time_t (m_expires c)) @ [tab] @ m_name c @ [tab] @ m_value c))"

definition is_valid :: "cookie \<Rightarrow> bool" where
  "is_valid c \<longleftrightarrow> m_domain c \<noteq> [] \<and> m_path c \<noteq> [] \<and> m_name c \<noteq> []"

definition is_expired :: "int \<Rightarrow> cookie \<Rightarrow> bool" where
  "is_expired now c \<longleftrightarrow> m_expires c \<le> now"

text \<open>\<open>std::tie\<close> on both sides, for cookies whose flags have values.\<close>

definition cookie_eq :: "cookie \<Rightarrow> cookie \<Rightarrow> bool" where
  "cookie_eq l r \<longleftrightarrow> m_domain l = m_domain r \<and> m_include_subdomains l = m_include_subdomains r \<and> m_path l = m_path r \<and>
     m_secure l = m_secure r \<and> m_expires l = m_expires r \<and> m_name l = m_name r \<and> m_value l = m_value r"

definition flag_less :: "bool option \<Rightarrow> bool option \<Rightarrow> bool" where
  "flag_less a b \<longleftrightarrow> a = Some False \<and> b = Some True"

definition cookie_less :: "cookie \<Rightarrow> cookie \<Rightarrow> bool" where
  "cookie_less l r =
     (if m_domain l \<noteq> m_domain r then string_less (m_domain l) (m_domain r)
      else if m_include_subdomains l \<noteq> m_include_subdomains r then flag_less (m_include_subdomains l) (m_include_subdomains r)
      else if m_path l \<noteq> m_path r then string_less (m_path l) (m_path r)
      else if m_secure l \<noteq> m_secure r then flag_less (m_secure l) (m_secure r)
      else if m_expires l \<noteq> m_expires r then m_expires l < m_expires r
      else if m_name l \<noteq> m_name r then string_less (m_name l) (m_name r)
      else string_less (m_value l) (m_value r))"

definition cookie_neq where "cookie_neq l r \<longleftrightarrow> \<not> cookie_eq l r"
definition cookie_greater where "cookie_greater l r = cookie_less r l"
definition cookie_le where "cookie_le l r \<longleftrightarrow> \<not> cookie_less r l"
definition cookie_ge where "cookie_ge l r \<longleftrightarrow> \<not> cookie_less l r"

definition set_domain where "set_domain v c = c\<lparr>m_domain := v\<rparr>"
definition set_cookie_path where "set_cookie_path v c = c\<lparr>m_path := v\<rparr>"
definition set_expires where "set_expires v c = c\<lparr>m_expires := v\<rparr>"
definition set_name where "set_name v c = c\<lparr>m_name := v\<rparr>"
definition set_value where "set_value v c = c\<lparr>m_value := v\<rparr>"
definition set_include_subdomains where "set_include_subdomains v c = c\<lparr>m_include_subdomains := Some v\<rparr>"
definition set_secure where "set_secure v c = c\<lparr>m_secure := Some v\<rparr>"

subsection \<open>Reading back what was printed\<close>

lemma pull_part_tab: "tab \<notin> set s \<Longrightarrow> pull_part (s @ tab # r) = Inr (s, r)"
proof -
  assume "tab \<notin> set s"
  then have "find_if ((=) tab) (s @ tab # r) = Some (length s)" by (intro find_if_hit) auto
  then show ?thesis by (simp add: pull_part_def)
qed

definition trimmed :: "string \<Rightarrow> bool" where
  "trimmed s \<longleftrightarrow> s = [] \<or> \<not> is_space (hd s) \<and> \<not> is_space (last s)"

lemma cookie_trim_trimmed: "trimmed s \<Longrightarrow> cookie_trim s = s"
proof (cases "s = []")
  case False
  assume "trimmed s"
  with False obtain c r d t where s: "s = c # r" "\<not> is_space c" "s = t @ [d]" "\<not> is_space d"
    by (metis append_butlast_last_id list.collapse trimmed_def)
  have "find_if (\<lambda>c. \<not> is_space c) s = Some 0" using s(1,2) by simp
  moreover have "find_last_if (\<lambda>c. \<not> is_space c) (t @ d # []) = Some (length t)"
    using s(4) by (intro find_last_if_hit) simp_all
  ultimately show ?thesis by (simp add: cookie_trim_def s(3))
qed (simp add: cookie_trim_def)

lemma trimmed_no_space: "\<forall>c \<in> set s. \<not> is_space c \<Longrightarrow> trimmed s"
  by (cases "s = []") (auto simp: trimmed_def)

lemma flag_text_plain: "tab \<notin> set (flag_text b)" "cookie_trim (flag_text b) = flag_text b"
  by (cases b; simp add: flag_text_def cookie_trim_trimmed trimmed_def is_space_def)+

lemma iequals_flag: "iequals (flag_text b) ''TRUE'' = b"
  by (cases b) (simp_all add: iequals_def flag_text_def tolower_def char_value_def)

lemma int_to_string_plain: "tab \<notin> set (int_to_string i)" "cookie_trim (int_to_string i) = int_to_string i"
proof -
  have *: "\<not> is_space c" if "c \<in> set (int_to_string i)" for c
    using that nat_to_string_digits not_digit_facts(3) by (auto simp: int_to_string_def is_space_def split: if_splits)
  show "tab \<notin> set (int_to_string i)" using * [of tab] by (auto simp: is_space_def)
  show "cookie_trim (int_to_string i) = int_to_string i" using * by (intro cookie_trim_trimmed trimmed_no_space) blast
qed

lemma stoull_int_to_string:
  assumes "- (2 ^ 63) \<le> i" "i < 2 ^ 63"
  shows "\<exists>n. stoull (int_to_string i) = Inr n \<and> to_signed64 n = i"
proof (cases "i < 0")
  case True
  define k where "k = nat (- i)"
  have k: "i = - int k" "0 < k" "k \<le> 2 ^ 63" using True assms by (simp_all add: k_def)
  have "stoull (int_to_string i) = Inr (2 ^ 64 - k)"
    using k scan_minus_nat_to_string [of k] by (simp add: stoull_def int_to_string_def)
  moreover have "to_signed64 (2 ^ 64 - k) = i" using k by (simp add: to_signed64_def)
  ultimately show ?thesis by blast
next
  case False
  then have "stoull (int_to_string i) = Inr (nat i)" "to_signed64 (nat i) = i"
    using assms scan_nat_to_string [of "[]" "nat i"] by (simp_all add: stoull_def int_to_string_def to_signed64_def)
  then show ?thesis by blast
qed

text \<open>
  A cookie whose texts have no outer blanks and, but for the value, no tab, and whose expiry
  is a whole number of seconds, before or after 1970, is what the parser makes of its printed line.
\<close>

theorem cookie_round_trip:
  assumes "m_expires c = t * 1000000000" "- (2 ^ 63) \<le> m_expires c" "m_expires c < 2 ^ 63"
    "m_include_subdomains c = Some sub" "m_secure c = Some sec"
    "trimmed (m_domain c)" "trimmed (m_path c)" "trimmed (m_name c)" "trimmed (m_value c)"
    "tab \<notin> set (m_domain c) \<union> set (m_path c) \<union> set (m_name c)"
  shows "\<exists>line. cookie_to_string c = Some line \<and> cookie_ctor line = Some (Inr c)"
proof -
  have "- (2 ^ 63) \<le> t" "t < 2 ^ 63" using assms(1-3) by simp_all
  then obtain n where n: "stoull (int_to_string t) = Inr n" "to_signed64 n = t" using stoull_int_to_string by blast
  have "- (t * 1000000000) div 1000000000 = - t" by (subst mult_minus_left [symmetric]) simp
  then have "to_time_t (m_expires c) = t" using assms(1) by (simp add: to_time_t_def)
  moreover have "from_time_t t = Some (m_expires c)" using assms(1-3) by (simp add: from_time_t_def)
  ultimately show ?thesis
    using assms(4-10) n
    by (simp add: cookie_to_string_def cookie_ctor_def pull_part_tab flag_text_plain int_to_string_plain cookie_trim_trimmed
      iequals_flag)
qed

theorem cookie_round_trip_witness:
  "cookie_to_string (cookie_full ''.example.com'' True ''/'' False (-5000000000) ''a b'' ''x y'') =
     Some (''.example.com'' @ [tab] @ ''TRUE'' @ [tab] @ ''/'' @ [tab] @ ''FALSE'' @ [tab] @ ''-5'' @ [tab] @ ''a b'' @ [tab] @ ''x y'') \<and>
   cookie_ctor (''.example.com'' @ [tab] @ ''TRUE'' @ [tab] @ ''/'' @ [tab] @ ''FALSE'' @ [tab] @ ''-5'' @ [tab] @ ''a b'' @ [tab] @ ''x y'') =
     Some (Inr (cookie_full ''.example.com'' True ''/'' False (-5000000000) ''a b'' ''x y''))"
proof -
  let ?c = "cookie_full ''.example.com'' True ''/'' False (-5000000000) ''a b'' ''x y''"
  have s: "cookie_to_string ?c = Some (''.example.com'' @ [tab] @ ''TRUE'' @ [tab] @ ''/'' @ [tab] @ ''FALSE'' @ [tab] @ ''-5'' @ [tab] @ ''a b'' @ [tab] @ ''x y'')"
    by code_simp
  have "\<exists>line. cookie_to_string ?c = Some line \<and> cookie_ctor line = Some (Inr ?c)"
    by (rule cookie_round_trip [of _ "-5" True False]) (simp_all add: cookie_full_def trimmed_def is_space_def)
  with s show ?thesis by simp
qed

end
