(* ===== verification/Version.thy ===== *)
theory Version
  imports Cpp_Std "HOL-Library.Word"
begin

unbundle bit_operations_syntax

text \<open>
  \<open>curl/version.h\<close> and \<open>src/curl/version.cpp\<close>: what libcurl says about itself. The record is
  libcurl's \<open>curl_version_info_data\<close>: null pointers are \<open>None\<close>, the protocols are the strings before
  the null pointer that ends their array. The branches are those for a current libcurl
  (\<open>CURL_AT_LEAST_VERSION\<close> true), where the age of the record decides.
\<close>

record version_info =
  age :: int
  v_version :: "string option"
  version_num :: "32 word"
  v_host :: "string option"
  v_features :: "32 word"
  v_ssl_version :: "string option"
  v_libz_version :: "string option"
  v_protocols :: "string list option"
  v_ares :: "string option"
  ares_num :: int
  libidn :: "string option"
  iconv_ver_num :: int
  v_libssh_version :: "string option"
  brotli_ver_num :: "32 word"
  v_brotli_version :: "string option"
  nghttp2_ver_num :: "32 word"
  v_nghttp2_version :: "string option"
  v_quic_version :: "string option"
  v_cainfo :: "string option"
  v_capath :: "string option"
  zstd_ver_num :: "32 word"
  v_zstd_version :: "string option"
  v_hyper_version :: "string option"
  v_gsasl_version :: "string option"

definition text_of :: "string option \<Rightarrow> string" where
  "text_of p = (case p of None \<Rightarrow> [] | Some s \<Rightarrow> s)"

definition curl_version where "curl_version info = text_of (v_version info)"
definition curl_version_num where "curl_version_num info = version_num info"
definition host where "host info = text_of (v_host info)"
definition ssl_version where "ssl_version info = text_of (v_ssl_version info)"
definition libz_version where "libz_version info = text_of (v_libz_version info)"

subsection \<open>Fields that newer records have\<close>

definition since_text :: "int \<Rightarrow> version_info \<Rightarrow> string option \<Rightarrow> string" where
  "since_text a info p = (if age info \<ge> a then text_of p else [])"

definition since_num :: "int \<Rightarrow> version_info \<Rightarrow> 32 word \<Rightarrow> 32 word" where
  "since_num a info n = (if age info \<ge> a then n else -1)"

definition since_int :: "int \<Rightarrow> version_info \<Rightarrow> int \<Rightarrow> int" where
  "since_int a info n = (if age info \<ge> a then n else -1)"

definition ares_version where "ares_version info = since_text 1 info (v_ares info)"
definition ares_version_num where "ares_version_num info = since_int 1 info (ares_num info)"
definition libidn_version where "libidn_version info = since_text 2 info (libidn info)"
definition iconv_num where "iconv_num info = since_int 3 info (iconv_ver_num info)"
definition libssh_version where "libssh_version info = since_text 3 info (v_libssh_version info)"
definition brotli_version_num where "brotli_version_num info = since_num 4 info (brotli_ver_num info)"
definition brotli_version where "brotli_version info = since_text 4 info (v_brotli_version info)"
definition nghttp2_version_num where "nghttp2_version_num info = since_num 5 info (nghttp2_ver_num info)"
definition nghttp2_version where "nghttp2_version info = since_text 5 info (v_nghttp2_version info)"
definition quic_version where "quic_version info = since_text 5 info (v_quic_version info)"
definition cainfo where "cainfo info = since_text 6 info (v_cainfo info)"
definition capath where "capath info = since_text 6 info (v_capath info)"
definition zstd_version_num where "zstd_version_num info = since_num 7 info (zstd_ver_num info)"
definition zstd_version where "zstd_version info = since_text 7 info (v_zstd_version info)"
definition hyper_version where "hyper_version info = since_text 8 info (v_hyper_version info)"
definition gsasl_version where "gsasl_version info = since_text 9 info (v_gsasl_version info)"

text \<open>\<open>snprintf\<close> gets room for ten characters and the terminator.\<close>

definition iconv_version :: "version_info \<Rightarrow> string" where
  "iconv_version info =
     (if age info \<ge> 3 then
        let v = iconv_num info in
        if v = 0 then [] else take 10 (int_to_string (v div 256) @ ''.'' @ int_to_string (v mod 256))
      else [])"

subsection \<open>Protocols\<close>

fun protocol_loop :: "string list \<Rightarrow> nat \<Rightarrow> string" where
  "protocol_loop [] index = []"
| "protocol_loop (p # ps) 0 = p"
| "protocol_loop (p # ps) (Suc index) = protocol_loop ps index"

definition protocol :: "version_info \<Rightarrow> nat \<Rightarrow> string" where
  "protocol info index = (case v_protocols info of None \<Rightarrow> [] | Some ps \<Rightarrow> protocol_loop ps index)"

definition protocol_count :: "version_info \<Rightarrow> nat" where
  "protocol_count info = (case v_protocols info of None \<Rightarrow> 0 | Some ps \<Rightarrow> length ps)"

text \<open>
  \<open>cstring_array_iterator\<close>: a position in the array, or null. The default constructed iterator is
  the end of every array.
\<close>

type_synonym cstring_iterator = "nat option"

definition it_advance :: "string list \<Rightarrow> cstring_iterator \<Rightarrow> cstring_iterator" where
  "it_advance a it = (case it of None \<Rightarrow> None | Some i \<Rightarrow> if i < length a then Some (i + 1) else it)"

definition it_equal :: "string list \<Rightarrow> cstring_iterator \<Rightarrow> cstring_iterator \<Rightarrow> bool" where
  "it_equal a it other = (case other of
       None \<Rightarrow> (case it of None \<Rightarrow> True | Some i \<Rightarrow> i \<ge> length a)
     | Some j \<Rightarrow> it = Some j)"

definition it_deref :: "string list \<Rightarrow> cstring_iterator \<Rightarrow> string" where
  "it_deref a it = (case it of None \<Rightarrow> [] | Some i \<Rightarrow> if i < length a then a ! i else [])"

definition protocols_begin :: "version_info \<Rightarrow> cstring_iterator" where
  "protocols_begin info = (case v_protocols info of None \<Rightarrow> None | Some _ \<Rightarrow> Some 0)"

text \<open>A range-based \<open>for\<close> over \<open>protocols()\<close> that collects what it sees.\<close>

partial_function (option) collect_from :: "string list \<Rightarrow> cstring_iterator \<Rightarrow> string list \<Rightarrow> string list option" where
  "collect_from a it seen =
     (if it_equal a it None then Some seen else collect_from a (it_advance a it) (seen @ [it_deref a it]))"

definition collect_protocols :: "version_info \<Rightarrow> string list option" where
  "collect_protocols info =
     collect_from (case v_protocols info of None \<Rightarrow> [] | Some ps \<Rightarrow> ps) (protocols_begin info) []"

subsection \<open>Features\<close>

datatype feature =
    F_ipv6 | F_kerberos4 | F_ssl | F_libz | F_ntlm | F_gssnegotiate | F_debug | F_asynchdns |
    F_spnego | F_largefile | F_idn | F_sspi | F_conv | F_curldebug | F_tlsauth_srp | F_ntlm_wb |
    F_http2 | F_gssapi | F_kerberos5 | F_unix_sockets | F_psl | F_https_proxy | F_multi_ssl |
    F_brotli | F_altsvc | F_http3 | F_zstd | F_unicode | F_hsts | F_gsasl

definition features :: "feature list" where
  "features =
    [F_ipv6, F_kerberos4, F_ssl, F_libz, F_ntlm, F_gssnegotiate, F_debug, F_asynchdns, F_spnego,
     F_largefile, F_idn, F_sspi, F_conv, F_curldebug, F_tlsauth_srp, F_ntlm_wb, F_http2, F_gssapi,
     F_kerberos5, F_unix_sockets, F_psl, F_https_proxy, F_multi_ssl, F_brotli, F_altsvc, F_http3,
     F_zstd, F_unicode, F_hsts, F_gsasl]"

text \<open>The value of the enumerator.\<close>

fun feature_bit :: "feature \<Rightarrow> nat" where
  "feature_bit F_ipv6 = 0"
| "feature_bit F_kerberos4 = 1"
| "feature_bit F_ssl = 2"
| "feature_bit F_libz = 3"
| "feature_bit F_ntlm = 4"
| "feature_bit F_gssnegotiate = 5"
| "feature_bit F_debug = 6"
| "feature_bit F_asynchdns = 7"
| "feature_bit F_spnego = 8"
| "feature_bit F_largefile = 9"
| "feature_bit F_idn = 10"
| "feature_bit F_sspi = 11"
| "feature_bit F_conv = 12"
| "feature_bit F_curldebug = 13"
| "feature_bit F_tlsauth_srp = 14"
| "feature_bit F_ntlm_wb = 15"
| "feature_bit F_http2 = 16"
| "feature_bit F_gssapi = 17"
| "feature_bit F_kerberos5 = 18"
| "feature_bit F_unix_sockets = 19"
| "feature_bit F_psl = 20"
| "feature_bit F_https_proxy = 21"
| "feature_bit F_multi_ssl = 22"
| "feature_bit F_brotli = 23"
| "feature_bit F_altsvc = 24"
| "feature_bit F_http3 = 25"
| "feature_bit F_zstd = 26"
| "feature_bit F_unicode = 27"
| "feature_bit F_hsts = 28"
| "feature_bit F_gsasl = 29"

definition has_feature :: "version_info \<Rightarrow> feature \<Rightarrow> bool" where
  "has_feature info f \<longleftrightarrow> v_features info AND push_bit (feature_bit f) 1 \<noteq> 0"

fun feature_name :: "feature \<Rightarrow> string" where
  "feature_name F_ipv6 = ''ipv6''"
| "feature_name F_kerberos4 = ''kerberos4''"
| "feature_name F_ssl = ''ssl''"
| "feature_name F_libz = ''libz''"
| "feature_name F_ntlm = ''ntlm''"
| "feature_name F_gssnegotiate = ''gssnegotiate''"
| "feature_name F_debug = ''debug''"
| "feature_name F_asynchdns = ''asynchdns''"
| "feature_name F_spnego = ''spnego''"
| "feature_name F_largefile = ''largefile''"
| "feature_name F_idn = ''idn''"
| "feature_name F_sspi = ''sspi''"
| "feature_name F_conv = ''conv''"
| "feature_name F_curldebug = ''curldebug''"
| "feature_name F_tlsauth_srp = ''tlsauth_srp''"
| "feature_name F_ntlm_wb = ''ntlm_wb''"
| "feature_name F_http2 = ''http2''"
| "feature_name F_gssapi = ''gssapi''"
| "feature_name F_kerberos5 = ''kerberos5''"
| "feature_name F_unix_sockets = ''unix_sockets''"
| "feature_name F_psl = ''psl''"
| "feature_name F_https_proxy = ''https_proxy''"
| "feature_name F_multi_ssl = ''multi_ssl''"
| "feature_name F_brotli = ''brotli''"
| "feature_name F_altsvc = ''altsvc''"
| "feature_name F_http3 = ''http3''"
| "feature_name F_zstd = ''zstd''"
| "feature_name F_unicode = ''unicode''"
| "feature_name F_hsts = ''hsts''"
| "feature_name F_gsasl = ''gsasl''"

fun next_feature :: "feature \<Rightarrow> feature" where
  "next_feature F_ipv6 = F_kerberos4"
| "next_feature F_kerberos4 = F_ssl"
| "next_feature F_ssl = F_libz"
| "next_feature F_libz = F_ntlm"
| "next_feature F_ntlm = F_gssnegotiate"
| "next_feature F_gssnegotiate = F_debug"
| "next_feature F_debug = F_asynchdns"
| "next_feature F_asynchdns = F_spnego"
| "next_feature F_spnego = F_largefile"
| "next_feature F_largefile = F_idn"
| "next_feature F_idn = F_sspi"
| "next_feature F_sspi = F_conv"
| "next_feature F_conv = F_curldebug"
| "next_feature F_curldebug = F_tlsauth_srp"
| "next_feature F_tlsauth_srp = F_ntlm_wb"
| "next_feature F_ntlm_wb = F_http2"
| "next_feature F_http2 = F_gssapi"
| "next_feature F_gssapi = F_kerberos5"
| "next_feature F_kerberos5 = F_unix_sockets"
| "next_feature F_unix_sockets = F_psl"
| "next_feature F_psl = F_https_proxy"
| "next_feature F_https_proxy = F_multi_ssl"
| "next_feature F_multi_ssl = F_brotli"
| "next_feature F_brotli = F_altsvc"
| "next_feature F_altsvc = F_http3"
| "next_feature F_http3 = F_zstd"
| "next_feature F_zstd = F_unicode"
| "next_feature F_unicode = F_hsts"
| "next_feature F_hsts = F_gsasl"
| "next_feature F_gsasl = F_gsasl"

subsection \<open>The order of the enumerators\<close>

lemma feature_bit_nth: "feature_bit f < 30 \<and> features ! feature_bit f = f"
  by (cases f) (simp_all add: features_def)

lemma feature_bit_inj [simp]: "feature_bit f = feature_bit g \<longleftrightarrow> f = g"
  using feature_bit_nth by metis

instantiation feature :: linorder
begin

definition less_eq_feature :: "feature \<Rightarrow> feature \<Rightarrow> bool" where
  "f \<le> g \<longleftrightarrow> feature_bit f \<le> feature_bit g"

definition less_feature :: "feature \<Rightarrow> feature \<Rightarrow> bool" where
  "f < g \<longleftrightarrow> feature_bit f < feature_bit g"

instance
  by standard (auto simp: less_eq_feature_def less_feature_def)

end

lemma sorted_features: "sorted_wrt (<) features"
  by (simp add: features_def less_feature_def)

lemma set_features: "set features = UNIV"
proof -
  have "f \<in> set features" for f
    using feature_bit_nth [of f] nth_mem [of "feature_bit f" features] by (simp add: features_def)
  then show ?thesis by blast
qed

lemma has_feature_bit: "has_feature info f \<longleftrightarrow> bit (v_features info) (feature_bit f)"
  using and_exp_eq_0_iff_not_bit [of "v_features info" "feature_bit f"]
  by (simp add: has_feature_def push_bit_eq_mult)

text \<open>
  \<open>features()\<close> lists every feature once, in the order of the enumeration, which is also the
  order of \<open>next_feature\<close> from the first one; the names differ, none is empty; and
  \<open>has_feature\<close> reads the bit with the position of the feature in that list.
\<close>

theorem features_enumerated:
  "features = map (\<lambda>i. (next_feature ^^ i) F_ipv6) [0..<30] \<and> sorted_wrt (<) features \<and> set features = UNIV \<and>
   distinct (map feature_name features) \<and> [] \<notin> set (map feature_name features) \<and>
   (next_feature f = f \<longleftrightarrow> f = last features) \<and>
   filter (has_feature info) features = map (nth features) (filter (bit (v_features info)) [0..<30])"
proof -
  have hf: "has_feature info = (\<lambda>f. bit (v_features info) (feature_bit f))" by (simp add: fun_eq_iff has_feature_bit)
  have u: "[0..<30] = map feature_bit features" by (simp add: features_def upt_conv_Cons)
  have "map (nth features) (filter (bit (v_features info)) [0..<30]) = map (\<lambda>f. features ! feature_bit f) (filter (has_feature info) features)"
    unfolding u hf by (simp add: filter_map comp_def)
  also have "\<dots> = filter (has_feature info) features" using feature_bit_nth by simp
  finally have "filter (has_feature info) features = map (nth features) (filter (bit (v_features info)) [0..<30])" ..
  moreover have "features = map (\<lambda>i. (next_feature ^^ i) F_ipv6) [0..<30]"
    by code_simp
  moreover have "distinct (map feature_name features)" "[] \<notin> set (map feature_name features)" by code_simp+
  moreover have "next_feature f = f \<longleftrightarrow> f = last features" by (cases f) (simp_all add: features_def)
  ultimately show ?thesis using sorted_features set_features by blast
qed

lemma collect_from_nth: "i \<le> length a \<Longrightarrow> collect_from a (Some i) seen = Some (seen @ drop i a)"
proof (induction "length a - i" arbitrary: i seen)
  case 0
  then show ?case by (subst collect_from.simps) (simp add: it_equal_def)
next
  case (Suc n)
  then have i: "i < length a" by simp
  from Suc have "collect_from a (Some (i + 1)) (seen @ [a ! i]) = Some ((seen @ [a ! i]) @ drop (i + 1) a)" by simp
  with i show ?case by (subst collect_from.simps) (simp add: it_equal_def it_advance_def it_deref_def Cons_nth_drop_Suc)
qed

lemma protocol_loop_nth: "protocol_loop ps i = (if i < length ps then ps ! i else [])"
  by (induction ps i rule: protocol_loop.induct) auto

text \<open>
  The three views of the protocols agree: iterating returns and yields as many strings as
  \<open>protocol_count\<close> says, the i-th is \<open>protocol(i)\<close>, beyond the end \<open>protocol\<close> is empty.
\<close>

theorem protocols_agree:
  "\<exists>ps. collect_protocols info = Some ps \<and> length ps = protocol_count info \<and>
     ps = map (protocol info) [0..<protocol_count info] \<and> protocol info (protocol_count info + n) = []"
proof (cases "v_protocols info")
  case None
  then show ?thesis
    by (simp add: collect_protocols_def protocols_begin_def protocol_count_def protocol_def collect_from.simps it_equal_def)
next
  case (Some ps)
  then have "collect_protocols info = Some ps"
    using collect_from_nth [of 0 ps "[]"] by (simp add: collect_protocols_def protocols_begin_def)
  moreover have "ps = map (protocol info) [0..<length ps]"
    using Some by (intro nth_equalityI) (simp_all add: protocol_def protocol_loop_nth)
  ultimately show ?thesis using Some by (auto simp: protocol_count_def protocol_def protocol_loop_nth)
qed

end
