(* ===== verification/Handle.thy ===== *)
theory Handle
  imports Prelude Cpp_Std Slist
begin

text \<open>
  \<open>curl/handle.h\<close> and \<open>src/curl/handle.cpp\<close>: the state a \<open>handle\<close> keeps beside libcurl's and the
  calls it makes. libcurl is a parameter, \<open>lib\<close>: the result code of a call, given the calls
  before it; the calls are recorded with their results in \<open>calls\<close>. Callbacks are numbered: a
  field holds the number of the callback installed. An operation gives the exception it throws,
  if any, and the state after. Numbers of options, info fields and pause bits are those of
  libcurl's public header.
\<close>

unbundle bit_operations_syntax

subsection \<open>libcurl\<close>

datatype opt_value =
    V_long int
  | V_off int
  | V_ptr nat
  | V_self
  | V_string string
  | V_blob bytes bool
  | V_slist ptr
  | V_trampoline

datatype curl_call =
    Setopt int opt_value
  | Easy_pause u32
  | Easy_reset
  | Easy_perform
  | Easy_upkeep
  | Paused_itself u32

text \<open>\<open>Paused_itself\<close> is not a call of the code but libcurl reacting to the pause code of a callback.\<close>

type_synonym lib = "(curl_call \<times> int) list \<Rightarrow> curl_call \<Rightarrow> int"

definition pause_recv :: u32 where "pause_recv = 1"
definition pause_send :: u32 where "pause_send = 4"
definition pause_all :: u32 where "pause_all = 5"
definition flag_connect_only :: u32 where "flag_connect_only = push_bit 1 1"
definition flag_verbose :: u32 where "flag_verbose = push_bit 3 1"

lemmas flag_defs = pause_recv_def pause_send_def pause_all_def flag_connect_only_def flag_verbose_def

definition opt_connect_only :: int where "opt_connect_only = 141"
definition opt_verbose :: int where "opt_verbose = 41"
definition opt_nosignal :: int where "opt_nosignal = 99"
definition opt_private :: int where "opt_private = 10103"

subsection \<open>The state\<close>

record handle =
  h_multi :: "nat option"
  h_executor :: "nat option"
  m_done_callback :: "nat option"
  m_header_callback :: "nat option"
  m_progress_callback :: "nat option"
  m_read_callback :: "nat option"
  m_write_callback :: "nat option"
  m_owned_slists :: "(int \<times> slist) list"
  m_flags :: u32
  calls :: "(curl_call \<times> int) list"

type_synonym step = "cpp_error option \<times> handle"

definition next_do :: "step \<Rightarrow> (handle \<Rightarrow> step) \<Rightarrow> step" where
  "next_do r f = (case r of (None, h) \<Rightarrow> f h | (Some e, h) \<Rightarrow> (Some e, h))"

text \<open>A call into libcurl whose failure is thrown.\<close>

definition easy :: "lib \<Rightarrow> curl_call \<Rightarrow> handle \<Rightarrow> step" where
  "easy lib c h =
     (let res = lib (calls h) c in
      (if res \<noteq> 0 then Some (Curl_exception res False) else None, h\<lparr>calls := calls h @ [(c, res)]\<rparr>))"

text \<open>\<open>exception::what\<close>, with libcurl's two tables of messages.\<close>

definition exception_what :: "(int \<Rightarrow> string) \<Rightarrow> (int \<Rightarrow> string) \<Rightarrow> int \<Rightarrow> bool \<Rightarrow> string" where
  "exception_what easy_strerror multi_strerror code is_multi = (if is_multi then multi_strerror code else easy_strerror code)"

subsection \<open>Options\<close>

text \<open>\<open>(opt / 10000) * 10000\<close>; the division truncates.\<close>

definition option_base :: "int \<Rightarrow> int" where
  "option_base opt = (if opt < 0 then - ((- opt) div 10000) else opt div 10000) * 10000"

definition type_long :: int where "type_long = 0"
definition type_object :: int where "type_object = 10000"
definition type_function :: int where "type_function = 20000"
definition type_off :: int where "type_off = 30000"
definition type_blob :: int where "type_blob = 40000"

definition set_option_long :: "lib \<Rightarrow> int \<Rightarrow> int \<Rightarrow> handle \<Rightarrow> step" where
  "set_option_long lib opt val h =
     (if option_base opt \<noteq> type_long then (Some Invalid_argument, h)
      else next_do (easy lib (Setopt opt (V_long val)) h) (\<lambda>h.
        (None,
         if opt = opt_connect_only then
           h\<lparr>m_flags := (if val \<noteq> 0 then m_flags h OR flag_connect_only else m_flags h AND NOT flag_connect_only)\<rparr>
         else if opt = opt_verbose then
           h\<lparr>m_flags := (if val \<noteq> 0 then m_flags h OR flag_verbose else m_flags h AND NOT flag_verbose)\<rparr>
         else h)))"

definition set_option_offset :: "lib \<Rightarrow> int \<Rightarrow> int \<Rightarrow> handle \<Rightarrow> step" where
  "set_option_offset lib opt val h =
     (if option_base opt \<noteq> type_off then (Some Invalid_argument, h) else easy lib (Setopt opt (V_off val)) h)"

definition set_option_ptr :: "lib \<Rightarrow> int \<Rightarrow> opt_value \<Rightarrow> handle \<Rightarrow> step" where
  "set_option_ptr lib opt p h =
     (if option_base opt \<noteq> type_object \<and> option_base opt \<noteq> type_function then (Some Invalid_argument, h)
      else easy lib (Setopt opt p) h)"

definition set_option_string :: "lib \<Rightarrow> int \<Rightarrow> string \<Rightarrow> handle \<Rightarrow> step" where
  "set_option_string lib opt str h =
     (if option_base opt \<noteq> type_object then (Some Invalid_argument, h) else easy lib (Setopt opt (V_string str)) h)"

definition set_option_blob :: "lib \<Rightarrow> int \<Rightarrow> bytes \<Rightarrow> bool \<Rightarrow> handle \<Rightarrow> step" where
  "set_option_blob lib opt blob copy h =
     (if option_base opt \<noteq> type_blob then (Some Invalid_argument, h) else easy lib (Setopt opt (V_blob blob copy)) h)"

definition set_option_bool :: "lib \<Rightarrow> int \<Rightarrow> bool \<Rightarrow> handle \<Rightarrow> step" where
  "set_option_bool lib opt on h = set_option_long lib opt (if on then 1 else 0) h"

text \<open>The list is kept: it replaces the one stored for this option.\<close>

definition set_option_slist :: "lib \<Rightarrow> int \<Rightarrow> slist \<Rightarrow> handle \<Rightarrow> step" where
  "set_option_slist lib opt l h =
     (if option_base opt \<noteq> type_object then (Some Invalid_argument, h)
      else next_do (easy lib (Setopt opt (V_slist (m_first_node l))) h) (\<lambda>h.
        (None, h\<lparr>m_owned_slists := (opt, l) # filter (\<lambda>(o', _). o' \<noteq> opt) (m_owned_slists h)\<rparr>)))"

definition set_url where "set_url lib url = set_option_ptr lib 10002 (V_string url)"
definition set_follow_location where "set_follow_location lib on = set_option_bool lib 52 on"
definition set_verbose where "set_verbose lib on = set_option_bool lib opt_verbose on"
definition set_headers where "set_headers lib l = set_option_slist lib 10023 l"

subsection \<open>Construction and callbacks\<close>

definition handle_blank :: handle where
  "handle_blank = \<lparr>h_multi = None, h_executor = None, m_done_callback = None, m_header_callback = None,
     m_progress_callback = None, m_read_callback = None, m_write_callback = None, m_owned_slists = [],
     m_flags = 0, calls = []\<rparr>"

definition handle_ctor :: "lib \<Rightarrow> bool \<Rightarrow> step" where
  "handle_ctor lib init_ok =
     (if \<not> init_ok then (Some Runtime_error, handle_blank)
      else next_do (set_option_ptr lib opt_private V_self handle_blank) (set_option_bool lib opt_nosignal True))"

definition set_writefunction :: "lib \<Rightarrow> nat \<Rightarrow> handle \<Rightarrow> step" where
  "set_writefunction lib cb h =
     next_do (easy lib (Setopt 20011 V_trampoline) (h\<lparr>m_write_callback := Some cb\<rparr>)) (set_option_ptr lib 10001 V_self)"

definition set_readfunction :: "lib \<Rightarrow> nat \<Rightarrow> handle \<Rightarrow> step" where
  "set_readfunction lib cb h =
     next_do (easy lib (Setopt 20012 V_trampoline) (h\<lparr>m_read_callback := Some cb\<rparr>)) (set_option_ptr lib 10009 V_self)"

definition set_progressfunction :: "lib \<Rightarrow> nat \<Rightarrow> handle \<Rightarrow> step" where
  "set_progressfunction lib cb h =
     next_do (easy lib (Setopt 20219 V_trampoline) (h\<lparr>m_progress_callback := Some cb\<rparr>)) (\<lambda>h.
       next_do (set_option_ptr lib 10057 V_self h) (set_option_bool lib 43 False))"

definition set_headerfunction :: "lib \<Rightarrow> nat \<Rightarrow> handle \<Rightarrow> step" where
  "set_headerfunction lib cb h =
     next_do (easy lib (Setopt 20079 V_trampoline) (h\<lparr>m_header_callback := Some cb\<rparr>)) (set_option_ptr lib 10029 V_self)"

definition set_donefunction :: "nat \<Rightarrow> handle \<Rightarrow> handle" where
  "set_donefunction cb h = h\<lparr>m_done_callback := Some cb\<rparr>"

text \<open>The trampolines of libcurl's callbacks; \<open>res\<close> is what the callback of the user returned.\<close>

definition func_pause :: nat where "func_pause = 0x10000001"

definition write_trampoline :: "nat \<Rightarrow> handle \<Rightarrow> handle" where
  "write_trampoline res h =
     (if res = func_pause then h\<lparr>m_flags := m_flags h OR pause_recv, calls := calls h @ [(Paused_itself pause_recv, 0)]\<rparr> else h)"

definition read_trampoline :: "nat \<Rightarrow> handle \<Rightarrow> handle" where
  "read_trampoline res h =
     (if res = func_pause then h\<lparr>m_flags := m_flags h OR pause_send, calls := calls h @ [(Paused_itself pause_send, 0)]\<rparr> else h)"

subsection \<open>Sources and sinks\<close>

text \<open>The callbacks that the convenience functions install: the returned count, and the data.\<close>

definition writestring_cb :: "bytes \<Rightarrow> bytes \<Rightarrow> nat \<times> bytes" where
  "writestring_cb data str = (if data = [] then (0, str) else (length data, str @ data))"

text \<open>A stream that has failed takes nothing, and the callback does not tell.\<close>

definition writestream_cb :: "bytes \<Rightarrow> bool \<Rightarrow> bytes \<Rightarrow> nat \<times> bytes" where
  "writestream_cb data bad str = (if data = [] then (0, str) else (length data, if bad then str else str @ data))"

definition readstring_cb :: "bytes \<Rightarrow> nat \<Rightarrow> nat \<Rightarrow> bytes \<times> nat" where
  "readstring_cb str sz pos =
     (if sz = 0 \<or> length str = pos then ([], pos)
      else let read = min sz (length str - pos) in (take read (drop pos str), pos + read))"

record istream =
  in_rest :: bytes
  in_eof :: bool
  in_fail :: bool

text \<open>\<open>stream.read\<close>: it takes what is there and, when that is not enough, sets both flags.\<close>

definition stream_read :: "nat \<Rightarrow> istream \<Rightarrow> bytes \<times> istream" where
  "stream_read n s =
     (take n (in_rest s),
      \<lparr>in_rest = drop n (in_rest s), in_eof = in_eof s \<or> length (in_rest s) < n, in_fail = in_fail s \<or> length (in_rest s) < n\<rparr>)"

text \<open>The count returned for a failed stream is \<open>CURLE_ABORTED_BY_CALLBACK\<close>, 42, with no data written.\<close>

definition readstream_cb :: "nat \<Rightarrow> istream \<Rightarrow> (nat \<times> bytes) \<times> istream" where
  "readstream_cb sz s =
     (if sz = 0 \<or> in_eof s then ((0, []), s)
      else if in_fail s then ((42, []), s)
      else case stream_read sz s of (data, s) \<Rightarrow> ((length data, data), s))"

text \<open>The header line without its last character, up to the first null character, goes into the list.\<close>

definition header_slist_cb :: "c_append \<Rightarrow> string \<Rightarrow> slist \<Rightarrow> heap \<Rightarrow> (nat \<times> slist \<times> heap) option" where
  "header_slist_cb app buffer l hp =
     (if length buffer \<le> 1 then Some (length buffer, l, hp)
      else case slist_append app l (takeWhile (\<lambda>c. c \<noteq> CHR 0x00) (butlast buffer)) hp of
          None \<Rightarrow> None
        | Some (Inl e, hp) \<Rightarrow> Some (0, l, hp)
        | Some (Inr (_, l), hp) \<Rightarrow> Some (length buffer, l, hp))"

subsection \<open>Transfers\<close>

text \<open>\<open>perform\<close>: the callback that is called, with the result it gets, comes first.\<close>

definition perform :: "lib \<Rightarrow> handle \<Rightarrow> (nat \<times> int) option \<times> step" where
  "perform lib h =
     (if h_multi h \<noteq> None then (None, (Some Logic_error, h))
      else
        let res = lib (calls h) Easy_perform; h = h\<lparr>calls := calls h @ [(Easy_perform, res)]\<rparr> in
        (map_option (\<lambda>cb. (cb, res)) (m_done_callback h),
         (if res \<noteq> 0 then Some (Curl_exception res False) else None, h)))"

text \<open>\<open>reset\<close> after the handle has left its executor and its multi.\<close>

definition handle_reset :: "lib \<Rightarrow> handle \<Rightarrow> step" where
  "handle_reset lib h =
     next_do (set_option_ptr lib opt_private V_self (h\<lparr>calls := calls h @ [(Easy_reset, 0)]\<rparr>)) (\<lambda>h.
       (None, h\<lparr>m_done_callback := None, m_header_callback := None, m_progress_callback := None,
          m_read_callback := None, m_write_callback := None, m_flags := 0, m_owned_slists := []\<rparr>))"

definition upkeep :: "lib \<Rightarrow> handle \<Rightarrow> step" where
  "upkeep lib h = easy lib Easy_upkeep h"

text \<open>\<open>recv\<close> and \<open>send\<close>, given libcurl's result code and count; -1 stands for no progress.\<close>

definition handle_transfer :: "int \<Rightarrow> nat \<Rightarrow> cpp_error + int" where
  "handle_transfer res n = (if res = 81 then Inr (-1) else if res \<noteq> 0 then Inl (Curl_exception res False) else Inr (int n))"

definition handle_recv where "handle_recv res n = handle_transfer res n"
definition handle_send where "handle_send res n = handle_transfer res n"

definition is_connect_only :: "handle \<Rightarrow> bool" where
  "is_connect_only h \<longleftrightarrow> m_flags h AND flag_connect_only \<noteq> 0"

definition is_verbose :: "handle \<Rightarrow> bool" where
  "is_verbose h \<longleftrightarrow> m_flags h AND flag_verbose \<noteq> 0"

definition curl_pause :: "lib \<Rightarrow> handle \<Rightarrow> handle" where
  "curl_pause lib h = (let c = Easy_pause (m_flags h AND pause_all) in h\<lparr>calls := calls h @ [(c, lib (calls h) c)]\<rparr>)"

definition pause :: "lib \<Rightarrow> u32 \<Rightarrow> handle \<Rightarrow> handle" where
  "pause lib dirs h =
     (let old = m_flags h; h = h\<lparr>m_flags := m_flags h OR (dirs AND pause_all)\<rparr> in
      if m_flags h = old then h else curl_pause lib h)"

text \<open>\<open>unpause\<close>, and whether it wakes the executor or the multi.\<close>

definition unpause :: "lib \<Rightarrow> u32 \<Rightarrow> handle \<Rightarrow> handle \<times> bool" where
  "unpause lib dirs h =
     (let old = m_flags h; h = h\<lparr>m_flags := m_flags h AND NOT (dirs AND pause_all)\<rparr> in
      if m_flags h = old then (h, False)
      else (curl_pause lib h, h_executor h \<noteq> None \<or> h_multi h \<noteq> None))"

definition is_paused :: "u32 \<Rightarrow> handle \<Rightarrow> bool" where
  "is_paused dir h \<longleftrightarrow> m_flags h AND dir \<noteq> 0"

text \<open>The info functions, given libcurl's result code and value.\<close>

definition get_info :: "u32 \<Rightarrow> u32 \<Rightarrow> int \<Rightarrow> 'a \<Rightarrow> cpp_error + 'a" where
  "get_info ty info res v =
     (if info AND 0xf00000 \<noteq> ty then Inl Invalid_argument
      else if res \<noteq> 0 then Inl (Curl_exception res False) else Inr v)"

definition get_info_long where "get_info_long info res (v :: int) = get_info 0x200000 info res v"
definition get_info_double where "get_info_double info res v = get_info 0x300000 info res v"
definition get_info_string where "get_info_string info res (v :: string option) = get_info 0x100000 info res v"

definition get_info_socket :: "u32 \<Rightarrow> int \<Rightarrow> int \<Rightarrow> cpp_error + nat" where
  "get_info_socket info res p =
     (case get_info 0x500000 info res p of Inl e \<Rightarrow> Inl e | Inr p \<Rightarrow> Inr (if p = -1 then 2 ^ 64 - 1 else nat p))"

definition get_info_slist :: "u32 \<Rightarrow> int \<Rightarrow> ptr \<Rightarrow> heap \<Rightarrow> slist heap_result" where
  "get_info_slist info res p hp =
     (case get_info 0x400000 info res p of Inl e \<Rightarrow> Some (Inl e, hp) | Inr p \<Rightarrow> slist_take p hp)"

definition get_response_code where "get_response_code res v = get_info_long 0x200002 res v"

text \<open>\<open>get_handle_from_raw\<close>; the private pointer is the handle's number.\<close>

definition get_handle_from_raw :: "nat option \<Rightarrow> int \<Rightarrow> nat option \<Rightarrow> cpp_error + nat option" where
  "get_handle_from_raw curl res p =
     (if curl = None then Inr None else if res \<noteq> 0 then Inl (Curl_exception res False) else Inr p)"

subsection \<open>What libcurl has been told\<close>

fun told_options :: "curl_call \<times> int \<Rightarrow> (int \<Rightarrow> opt_value option) \<Rightarrow> int \<Rightarrow> opt_value option" where
  "told_options (Setopt opt v, res) m = (if res = 0 then m(opt \<mapsto> v) else m)"
| "told_options (Easy_reset, _) m = Map.empty"
| "told_options _ m = m"

definition options :: "(curl_call \<times> int) list \<Rightarrow> int \<Rightarrow> opt_value option" where
  "options cs = foldl (\<lambda>m c. told_options c m) Map.empty cs"

fun told_pause :: "curl_call \<times> int \<Rightarrow> u32 \<Rightarrow> u32" where
  "told_pause (Easy_pause m, _) old = m"
| "told_pause (Paused_itself b, _) old = old OR b"
| "told_pause (Easy_reset, _) old = 0"
| "told_pause _ old = old"

definition pause_mask :: "(curl_call \<times> int) list \<Rightarrow> u32" where
  "pause_mask cs = foldl (\<lambda>m c. told_pause c m) 0 cs"

lemma told_snoc [simp]:
  "options (cs @ [c]) = told_options c (options cs)" "pause_mask (cs @ [c]) = told_pause c (pause_mask cs)"
  by (simp_all add: options_def pause_mask_def)

lemma told_Nil [simp]: "options [] = Map.empty" "pause_mask [] = 0"
  by (simp_all add: options_def pause_mask_def)

definition option_on :: "int \<Rightarrow> handle \<Rightarrow> bool" where
  "option_on opt h \<longleftrightarrow> (case options (calls h) opt of Some (V_long v) \<Rightarrow> v \<noteq> 0 | _ \<Rightarrow> False)"

definition in_sync :: "handle \<Rightarrow> bool" where
  "in_sync h \<longleftrightarrow> m_flags h AND pause_all = pause_mask (calls h) \<and>
     is_connect_only h = option_on opt_connect_only h \<and> is_verbose h = option_on opt_verbose h"

text \<open>The fields that matter for it.\<close>

lemma in_sync_fields [simp]:
  "in_sync (h\<lparr>m_done_callback := a\<rparr>) = in_sync h" "in_sync (h\<lparr>m_header_callback := a\<rparr>) = in_sync h"
  "in_sync (h\<lparr>m_progress_callback := a\<rparr>) = in_sync h" "in_sync (h\<lparr>m_read_callback := a\<rparr>) = in_sync h"
  "in_sync (h\<lparr>m_write_callback := a\<rparr>) = in_sync h" "in_sync (h\<lparr>m_owned_slists := b\<rparr>) = in_sync h"
  "in_sync (h\<lparr>h_multi := a\<rparr>) = in_sync h" "in_sync (h\<lparr>h_executor := a\<rparr>) = in_sync h"
  by (simp_all add: in_sync_def is_connect_only_def is_verbose_def option_on_def)

lemma flag_values: "pause_recv = 1" "pause_send = 4" "pause_all = 5" "flag_connect_only = 2" "flag_verbose = 8"
  by (simp_all add: flag_defs)

lemma flag_algebra:
  fixes f d :: u32
  shows "(f OR 2) AND 5 = f AND 5" "(f AND NOT 2) AND 5 = f AND 5" "(f OR 8) AND 5 = f AND 5" "(f AND NOT 8) AND 5 = f AND 5"
    "(f OR 2) AND 8 = f AND 8" "(f AND NOT 2) AND 8 = f AND 8" "(f OR 8) AND 2 = f AND 2" "(f AND NOT 8) AND 2 = f AND 2"
    "(f OR 2) AND 2 \<noteq> 0" "(f AND NOT 2) AND 2 = 0" "(f OR 8) AND 8 \<noteq> 0" "(f AND NOT 8) AND 8 = 0"
    "(f OR d AND 5) AND 2 = f AND 2" "(f OR d AND 5) AND 8 = f AND 8"
    "(f AND NOT (d AND 5)) AND 2 = f AND 2" "(f AND NOT (d AND 5)) AND 8 = f AND 8"
  using word_ao_absorbs [of "f AND 2" "NOT d"] word_ao_absorbs [of "f AND 8" "NOT d"]
  by (simp_all add: bit.conj_disj_distrib2 and.assoc bit.de_Morgan_conj bit.conj_disj_distrib) (simp_all add: ac_simps)

lemma option_on_call:
  "option_on opt (h\<lparr>calls := calls h @ [c]\<rparr>) = (case c of
      (Setopt o' v, res) \<Rightarrow> if res = 0 \<and> o' = opt then (case v of V_long n \<Rightarrow> n \<noteq> 0 | _ \<Rightarrow> False) else option_on opt h
    | (Easy_reset, _) \<Rightarrow> False | _ \<Rightarrow> option_on opt h)"
  by (cases c; cases "fst c") (auto simp: option_on_def split: opt_value.splits)

lemma option_on_fields [simp]: "option_on opt (h\<lparr>m_flags := f\<rparr>) = option_on opt h"
  "option_on opt (h\<lparr>m_flags := f, calls := cs\<rparr>) = option_on opt (h\<lparr>calls := cs\<rparr>)"
  by (simp_all add: option_on_def)

text \<open>Calls that the flags do not depend on.\<close>

fun neutral :: "curl_call \<Rightarrow> bool" where
  "neutral (Setopt opt _) = (opt \<noteq> opt_connect_only \<and> opt \<noteq> opt_verbose)"
| "neutral Easy_perform = True"
| "neutral Easy_upkeep = True"
| "neutral _ = False"

lemma in_sync_neutral: "neutral c \<Longrightarrow> in_sync h \<Longrightarrow> in_sync (h\<lparr>calls := calls h @ [(c, res)]\<rparr>)"
  by (cases c) (auto simp: in_sync_def is_connect_only_def is_verbose_def option_on_call)

lemma easy_sync: "neutral c \<Longrightarrow> in_sync h \<Longrightarrow> in_sync (snd (easy lib c h))"
  by (simp add: easy_def Let_def in_sync_neutral)

lemma next_do_sync: "in_sync (snd r) \<Longrightarrow> (\<And>h. in_sync h \<Longrightarrow> in_sync (snd (f h))) \<Longrightarrow> in_sync (snd (next_do r f))"
  by (cases r; cases "fst r") (auto simp: next_do_def)

lemma option_ids: "option_base opt_connect_only = 0" "option_base opt_verbose = 0" "opt_connect_only \<noteq> opt_verbose"
  by (simp_all add: option_base_def opt_connect_only_def opt_verbose_def)

lemma neutral_base: "option_base opt \<noteq> 0 \<Longrightarrow> neutral (Setopt opt v)"
  using option_ids by auto

lemma set_option_long_sync: "in_sync h \<Longrightarrow> in_sync (snd (set_option_long lib opt val h))"
  using option_ids(3) flag_algebra
  by (auto simp: set_option_long_def easy_def next_do_def Let_def in_sync_def is_connect_only_def is_verbose_def
      option_on_call flag_values)

lemma set_option_sync:
  assumes "in_sync h"
  shows "in_sync (snd (set_option_offset lib opt val h))" "in_sync (snd (set_option_ptr lib opt p h))"
    "in_sync (snd (set_option_string lib opt str h))" "in_sync (snd (set_option_blob lib opt blob copy h))"
    "in_sync (snd (set_option_bool lib opt on h))" "in_sync (snd (set_option_slist lib opt l h))"
  using assms set_option_long_sync
  by (auto simp: set_option_offset_def set_option_ptr_def set_option_string_def set_option_blob_def set_option_bool_def
      set_option_slist_def type_off_def type_object_def type_function_def type_blob_def
      intro!: easy_sync next_do_sync neutral_base)

lemma set_function_sync:
  assumes "in_sync h"
  shows "in_sync (snd (set_writefunction lib cb h))" "in_sync (snd (set_readfunction lib cb h))"
    "in_sync (snd (set_progressfunction lib cb h))" "in_sync (snd (set_headerfunction lib cb h))"
  using assms
  by (auto simp: set_writefunction_def set_readfunction_def set_progressfunction_def set_headerfunction_def
      opt_connect_only_def opt_verbose_def intro!: next_do_sync easy_sync set_option_sync)

lemma pause_sync:
  assumes "in_sync h"
  shows "in_sync (pause lib d h)" "in_sync (fst (unpause lib d h))"
    "in_sync (write_trampoline res h)" "in_sync (read_trampoline res h)"
proof -
  have r: "(m_flags h OR 1) AND 5 = (m_flags h AND 5) OR 1" "(m_flags h OR 4) AND 5 = (m_flags h AND 5) OR 4"
    "(m_flags h OR 1) AND 2 = m_flags h AND 2" "(m_flags h OR 4) AND 2 = m_flags h AND 2"
    "(m_flags h OR 1) AND 8 = m_flags h AND 8" "(m_flags h OR 4) AND 8 = m_flags h AND 8"
    by (simp_all add: bit.conj_disj_distrib2)
  show "in_sync (pause lib d h)" "in_sync (fst (unpause lib d h))"
    using assms flag_algebra
    by (auto simp: pause_def unpause_def curl_pause_def Let_def in_sync_def is_connect_only_def is_verbose_def option_on_call flag_values)
  show "in_sync (write_trampoline res h)" "in_sync (read_trampoline res h)"
    using assms r
    by (auto simp: write_trampoline_def read_trampoline_def in_sync_def is_connect_only_def is_verbose_def option_on_call flag_values)
qed

lemma told_two: "options (cs @ [c, d]) = told_options d (told_options c (options cs))"
  "pause_mask (cs @ [c, d]) = told_pause d (told_pause c (pause_mask cs))"
  by (simp_all add: options_def pause_mask_def)

lemma reset_result:
  assumes "handle_reset lib h = (None, h')"
  shows "options (calls h') = [opt_private \<mapsto> V_self] \<and> m_flags h' = 0 \<and> pause_mask (calls h') = 0"
  using assms
  by (auto simp: handle_reset_def set_option_ptr_def easy_def next_do_def Let_def option_base_def type_object_def opt_private_def
      told_two split: if_splits)

lemma reset_sync: "handle_reset lib h = (None, h') \<Longrightarrow> in_sync h'"
  using reset_result [of lib h h']
  by (simp add: in_sync_def is_connect_only_def is_verbose_def option_on_def opt_private_def opt_connect_only_def opt_verbose_def)

lemma ctor_result:
  assumes "handle_ctor lib True = (None, h)"
  shows "options (calls h) = [opt_private \<mapsto> V_self, opt_nosignal \<mapsto> V_long 1] \<and> m_flags h = 0 \<and> pause_mask (calls h) = 0"
  using assms
  by (auto simp: handle_ctor_def set_option_ptr_def set_option_bool_def set_option_long_def easy_def next_do_def Let_def handle_blank_def
      option_base_def type_object_def type_long_def opt_private_def opt_nosignal_def opt_connect_only_def opt_verbose_def
      options_def pause_mask_def split: if_splits)

lemma ctor_sync: "handle_ctor lib True = (None, h) \<Longrightarrow> in_sync h"
  using ctor_result [of lib h]
  by (simp add: in_sync_def is_connect_only_def is_verbose_def option_on_def opt_private_def opt_nosignal_def
      opt_connect_only_def opt_verbose_def)

subsection \<open>Every sequence of operations\<close>

text \<open>
  \<open>reset\<close> throws when libcurl refuses the private pointer, which it never does according to its
  documentation. Then everything behind the call is skipped: libcurl has forgotten the options and the
  pauses, and the handle still has its flags, callbacks and lists.
\<close>

lemma failed_reset_keeps_flags:
  assumes "handle_reset lib h = (Some e, h')"
  shows "m_flags h' = m_flags h \<and> m_owned_slists h' = m_owned_slists h \<and> m_done_callback h' = m_done_callback h \<and>
    options (calls h') = Map.empty \<and> pause_mask (calls h') = 0 \<and> (is_connect_only h \<longrightarrow> \<not> in_sync h')"
  using assms
  by (auto simp: handle_reset_def set_option_ptr_def easy_def next_do_def Let_def option_base_def type_object_def opt_private_def
      told_two in_sync_def is_connect_only_def option_on_def split: if_splits)

text \<open>
  One call on a handle, thrown or not; a reset only as far as libcurl takes the private pointer again
  (otherwise see \<open>failed_reset_keeps_flags\<close>).
\<close>

inductive handle_step :: "lib \<Rightarrow> handle \<Rightarrow> handle \<Rightarrow> bool" for lib where
  long: "handle_step lib h (snd (set_option_long lib opt val h))"
| bool: "handle_step lib h (snd (set_option_bool lib opt on h))"
| offset: "handle_step lib h (snd (set_option_offset lib opt val h))"
| ptr: "handle_step lib h (snd (set_option_ptr lib opt p h))"
| str: "handle_step lib h (snd (set_option_string lib opt str h))"
| blob: "handle_step lib h (snd (set_option_blob lib opt b copy h))"
| slist: "handle_step lib h (snd (set_option_slist lib opt l h))"
| sink: "handle_step lib h (snd (set_writefunction lib cb h))"
| source: "handle_step lib h (snd (set_readfunction lib cb h))"
| progress: "handle_step lib h (snd (set_progressfunction lib cb h))"
| header_line: "handle_step lib h (snd (set_headerfunction lib cb h))"
| on_done: "handle_step lib h (set_donefunction cb h)"
| data_in: "handle_step lib h (write_trampoline res h)"
| data_out: "handle_step lib h (read_trampoline res h)"
| perform: "handle_step lib h (snd (snd (perform lib h)))"
| upkeep: "handle_step lib h (snd (upkeep lib h))"
| pause: "handle_step lib h (pause lib d h)"
| unpause: "handle_step lib h (fst (unpause lib d h))"
| reset: "handle_reset lib h = (None, h') \<Longrightarrow> handle_step lib h h'"

lemma handle_step_sync: "handle_step lib h h' \<Longrightarrow> in_sync h \<Longrightarrow> in_sync h'"
proof (induction rule: handle_step.induct)
  case (perform h)
  then show ?case
    using in_sync_neutral [of Easy_perform h] by (simp add: perform_def Let_def)
qed (simp_all add: set_option_sync set_option_long_sync set_function_sync pause_sync reset_sync easy_sync
    set_donefunction_def upkeep_def)

lemma handle_run_sync: "(handle_step lib)\<^sup>*\<^sup>* h h' \<Longrightarrow> in_sync h \<Longrightarrow> in_sync h'"
  by (induction rule: rtranclp_induct) (auto intro: handle_step_sync)

subsection \<open>Properties\<close>

text \<open>
  C30: After any sequence of operations on a new handle, whichever of them fail (but for a reset in
  which libcurl refuses \<open>CURLOPT_PRIVATE\<close>, \<open>failed_reset_keeps_flags\<close>), the flags say what libcurl knows: the pause bits are the mask last given to libcurl (with the bits its callbacks
  added), \<open>is_connect_only\<close> and \<open>is_verbose\<close> give the options as libcurl last accepted them.
\<close>

theorem flags_in_sync:
  assumes "handle_ctor lib True = (None, h)" "(handle_step lib)\<^sup>*\<^sup>* h h'"
  shows "m_flags h' AND pause_all = pause_mask (calls h') \<and>
    is_connect_only h' = option_on opt_connect_only h' \<and> is_verbose h' = option_on opt_verbose h'"
  using handle_run_sync [OF assms(2) ctor_sync [OF assms(1)]] by (simp add: in_sync_def)

definition obliging :: lib where
  "obliging cs c = 0"

theorem flags_in_sync_witness:
  "\<exists>h h'. handle_ctor obliging True = (None, h) \<and> h' = pause obliging pause_recv (snd (set_option_bool obliging opt_connect_only True h)) \<and>
    pause_mask (calls h') = 1 \<and> option_on opt_connect_only h' \<and> m_flags h' AND pause_all = 1 \<and> is_connect_only h'"
proof -
  obtain h where h: "handle_ctor obliging True = (None, h)"
    by (simp add: handle_ctor_def set_option_ptr_def set_option_bool_def set_option_long_def easy_def next_do_def Let_def obliging_def
        option_base_def type_object_def type_long_def opt_private_def opt_nosignal_def opt_connect_only_def opt_verbose_def)
  let ?h1 = "snd (set_option_bool obliging opt_connect_only True h)"
  let ?h2 = "pause obliging pause_recv ?h1"
  have "handle_step obliging h ?h1" "handle_step obliging ?h1 ?h2"
    by (rule handle_step.bool handle_step.pause)+
  then have run: "(handle_step obliging)\<^sup>*\<^sup>* h ?h2" by (auto intro: converse_rtranclp_into_rtranclp)
  have f: "m_flags h = 0" using ctor_result [OF h] by simp
  have "m_flags ?h2 = 3"
    using f by (simp add: set_option_bool_def set_option_long_def easy_def next_do_def Let_def obliging_def option_base_def type_long_def
        opt_connect_only_def pause_def curl_pause_def flag_values)
  then have "m_flags ?h2 AND pause_all = 1" "is_connect_only ?h2" by (simp_all add: flag_values is_connect_only_def)
  with flags_in_sync [OF h run] h show ?thesis by auto
qed

text \<open>
  \<open>reset\<close> does not give the state of a new handle: the constructor turns signals off, and
  after a reset of any handle that option is gone.
\<close>

theorem reset_loses_nosignal:
  assumes "handle_ctor lib True = (None, h)" "handle_reset lib g = (None, g')"
  shows "options (calls h) opt_nosignal = Some (V_long 1) \<and> options (calls g') opt_nosignal = None \<and>
    options (calls g') opt_private = options (calls h) opt_private"
  using ctor_result [OF assms(1)] reset_result [OF assms(2)] by (simp add: opt_private_def opt_nosignal_def)

theorem reset_loses_nosignal_witness:
  "\<exists>h g. handle_ctor obliging True = (None, h) \<and> handle_reset obliging h = (None, g) \<and>
    options (calls h) opt_nosignal = Some (V_long 1) \<and> options (calls g) opt_nosignal = None"
proof -
  obtain h where h: "handle_ctor obliging True = (None, h)"
    by (simp add: handle_ctor_def set_option_ptr_def set_option_bool_def set_option_long_def easy_def next_do_def Let_def obliging_def
        option_base_def type_object_def type_long_def opt_private_def opt_nosignal_def opt_connect_only_def opt_verbose_def)
  obtain g where g: "handle_reset obliging h = (None, g)"
    by (simp add: handle_reset_def set_option_ptr_def easy_def next_do_def Let_def obliging_def option_base_def type_object_def opt_private_def)
  from reset_loses_nosignal [OF h g] h g show ?thesis by blast
qed

text \<open>The uploads of a string: the pieces libcurl gets for the sizes it asks for.\<close>

fun readstring_run :: "bytes \<Rightarrow> nat list \<Rightarrow> nat \<Rightarrow> bytes list" where
  "readstring_run str [] pos = []"
| "readstring_run str (n # ns) pos = (case readstring_cb str n pos of (d, pos) \<Rightarrow> d # readstring_run str ns pos)"

lemma readstring_run_from:
  "pos \<le> length str \<Longrightarrow> concat (readstring_run str ns pos) = take (sum_list ns) (drop pos str) \<and>
   list_all2 (\<lambda>d n. length d \<le> n) (readstring_run str ns pos) ns"
proof (induction ns arbitrary: pos)
  case (Cons n ns)
  let ?r = "min n (length str - pos)"
  have r: "readstring_cb str n pos = (take ?r (drop pos str), pos + ?r)"
    using Cons.prems by (auto simp: readstring_cb_def Let_def)
  have "take ?r (drop pos str) = take n (drop pos str)" by (simp add: min_def)
  moreover have "take n (drop pos str) @ take (sum_list ns) (drop (pos + ?r) str) = take (n + sum_list ns) (drop pos str)"
    by (cases "n \<le> length str - pos") (simp_all add: take_add add.commute)
  ultimately show ?case using Cons.IH [of "pos + ?r"] Cons.prems r by simp
qed simp

text \<open>
  However libcurl sizes its requests, the pieces that \<open>set_readstring\<close> delivers are no longer
  than asked for, and together they are the string, up to the sum of the sizes.
\<close>

theorem readstring_delivers:
  "concat (readstring_run str ns 0) = take (sum_list ns) str \<and>
   list_all2 (\<lambda>d n. length d \<le> n) (readstring_run str ns 0) ns"
  using readstring_run_from [of 0 str ns] by simp

end
