(* ===== verification/Tcp_Client.thy ===== *)
theory Tcp_Client
  imports Handle "HOL-Library.Multiset"
begin

text \<open>
  \<open>curl/tcp_client.h\<close> and \<open>src/curl/tcp_client.cpp\<close>: a connection on a connect-only handle. What
  libcurl answers to one \<open>send\<close> or \<open>recv\<close> is an argument of the operation that makes the call:
  an exception, \<open>None\<close> for no progress (-1), otherwise the count taken or the bytes received (0
  bytes when the connection is closed). \<open>wire\<close> is what libcurl has taken so far, \<open>queue\<close> what
  has been pushed to the executor; callbacks are numbered. The mutex only serialises the
  operations.
\<close>

datatype send_op =
    Send_some nat bytes
  | Send_all nat bytes nat

datatype recv_op =
    Recv_some nat nat
  | Recv_all nat nat bytes
  | On_data nat

datatype task =
    Send_done nat nat
  | Recv_done nat bytes
  | Disconnected "recv_op option" "send_op option" "nat option"
  | Cancel_user nat
  | Cancel_recv recv_op
  | Cancel_send send_op

record tcp =
  m_handle :: handle
  m_is_connected :: bool
  m_send_handler :: "send_op option"
  m_recv_handler :: "recv_op option"
  wire :: bytes
  queue :: "task list"

definition tcp_ctor :: "handle \<Rightarrow> tcp" where
  "tcp_ctor h = \<lparr>m_handle = h, m_is_connected = False, m_send_handler = None, m_recv_handler = None, wire = [], queue = []\<rparr>"

definition push :: "task \<Rightarrow> tcp \<Rightarrow> tcp" where
  "push t s = s\<lparr>queue := queue s @ [t]\<rparr>"

text \<open>\<open>callback_result\<close> is a set of bits: \<open>none\<close>, \<open>pause\<close> 1, \<open>clear\<close> 2.\<close>

definition result_none :: u32 where "result_none = 0"
definition result_pause :: u32 where "result_pause = 1"
definition result_clear :: u32 where "result_clear = 2"

definition result_or :: "u32 \<Rightarrow> u32 \<Rightarrow> u32" where "result_or lhs rhs = ucast ((ucast lhs :: u8) OR ucast rhs)"
definition result_and :: "u32 \<Rightarrow> u32 \<Rightarrow> u32" where "result_and lhs rhs = ucast ((ucast lhs :: u8) AND ucast rhs)"
definition result_not :: "u32 \<Rightarrow> bool" where "result_not lhs \<longleftrightarrow> lhs = result_none"

subsection \<open>Sending\<close>

text \<open>What a handler does when it is cancelled: it pushes its callback with what was done so far.\<close>

fun cancel_send :: "send_op \<Rightarrow> tcp \<Rightarrow> tcp" where
  "cancel_send (Send_some cb _) s = push (Send_done cb 0) s"
| "cancel_send (Send_all cb _ sent) s = push (Send_done cb sent) s"

fun cancel_recv :: "recv_op \<Rightarrow> tcp \<Rightarrow> tcp" where
  "cancel_recv (Recv_some cb _) s = push (Recv_done cb []) s"
| "cancel_recv (Recv_all cb _ got) s = push (Recv_done cb got) s"
| "cancel_recv (On_data cb) s = push (Cancel_user cb) s"

definition take_wire :: "bytes \<Rightarrow> tcp \<Rightarrow> tcp" where
  "take_wire data s = s\<lparr>wire := wire s @ data\<rparr>"

definition wait_send :: "lib \<Rightarrow> send_op \<Rightarrow> tcp \<Rightarrow> tcp" where
  "wait_send lib op s = s\<lparr>m_send_handler := Some op, m_handle := fst (unpause lib pause_send (m_handle s))\<rparr>"

definition wait_recv :: "lib \<Rightarrow> recv_op \<Rightarrow> tcp \<Rightarrow> tcp" where
  "wait_recv lib op s = s\<lparr>m_recv_handler := Some op, m_handle := fst (unpause lib pause_recv (m_handle s))\<rparr>"

definition tcp_send :: "lib \<Rightarrow> cpp_error + nat option \<Rightarrow> nat \<Rightarrow> bytes \<Rightarrow> tcp \<Rightarrow> cpp_error option \<times> tcp" where
  "tcp_send lib res cb buffer s =
     (if m_send_handler s \<noteq> None then (Some Logic_error, s)
      else if \<not> m_is_connected s then (None, push (Send_done cb 0) s)
      else case res of
        Inl e \<Rightarrow> (Some e, s)
      | Inr (Some n) \<Rightarrow> (None, push (Send_done cb n) (take_wire (take n buffer) s))
      | Inr None \<Rightarrow> (None, wait_send lib (Send_some cb buffer) s))"

definition tcp_send_all :: "lib \<Rightarrow> cpp_error + nat option \<Rightarrow> nat \<Rightarrow> bytes \<Rightarrow> tcp \<Rightarrow> cpp_error option \<times> tcp" where
  "tcp_send_all lib res cb buffer s =
     (if m_send_handler s \<noteq> None then (Some Logic_error, s)
      else if \<not> m_is_connected s then (None, push (Send_done cb 0) s)
      else case res of
        Inl e \<Rightarrow> (Some e, s)
      | Inr (Some n) \<Rightarrow>
          let s = take_wire (take n buffer) s in
          if n = 0 \<or> n = length buffer then (None, push (Send_done cb n) s)
          else (None, wait_send lib (Send_all cb buffer n) s)
      | Inr None \<Rightarrow> (None, wait_send lib (Send_all cb buffer 0) s))"

text \<open>
  A call of the handler that is not cancelled: the handler after (its count may have moved), the
  bits it returns, the state after.
\<close>

fun call_send :: "send_op \<Rightarrow> nat option \<Rightarrow> tcp \<Rightarrow> send_op \<times> u32 \<times> tcp" where
  "call_send op None s = (op, result_none, s)"
| "call_send (Send_some cb buffer) (Some n) s =
     (Send_some cb buffer, result_clear, push (Send_done cb n) (take_wire (take n buffer) s))"
| "call_send (Send_all cb buffer sent) (Some n) s =
     (let s = take_wire (take n (drop sent buffer)) s; op = Send_all cb buffer (sent + n) in
      if n = 0 \<or> length buffer = sent + n then (op, result_clear, push (Send_done cb (sent + n)) s)
      else (op, result_none, s))"

text \<open>
  The read function that \<open>connect\<close> installs, called when the socket is writable. The first
  component is the exception or whether libcurl's pause code is returned.
\<close>

definition on_writable :: "cpp_error + nat option \<Rightarrow> tcp \<Rightarrow> (cpp_error + bool) \<times> tcp" where
  "on_writable res s =
     (case m_send_handler s of
        None \<Rightarrow> (Inr True, s)
      | Some op \<Rightarrow> (case res of
            Inl e \<Rightarrow> (Inl e, s)
          | Inr r \<Rightarrow> (case call_send op r s of (op, bits, s) \<Rightarrow>
              (Inr (\<not> result_not bits),
               s\<lparr>m_send_handler := (if \<not> result_not (result_and bits result_clear) then None else Some op)\<rparr>))))"

subsection \<open>Receiving\<close>

definition tcp_recv :: "lib \<Rightarrow> cpp_error + bytes option \<Rightarrow> nat \<Rightarrow> nat \<Rightarrow> tcp \<Rightarrow> cpp_error option \<times> tcp" where
  "tcp_recv lib res cb sz s =
     (if m_recv_handler s \<noteq> None then (Some Logic_error, s)
      else if \<not> m_is_connected s then (None, push (Recv_done cb []) s)
      else case res of
        Inl e \<Rightarrow> (Some e, s)
      | Inr (Some data) \<Rightarrow> (None, push (Recv_done cb data) s)
      | Inr None \<Rightarrow> (None, wait_recv lib (Recv_some cb sz) s))"

definition tcp_recv_all :: "lib \<Rightarrow> cpp_error + bytes option \<Rightarrow> nat \<Rightarrow> nat \<Rightarrow> tcp \<Rightarrow> cpp_error option \<times> tcp" where
  "tcp_recv_all lib res cb sz s =
     (if m_recv_handler s \<noteq> None then (Some Logic_error, s)
      else if \<not> m_is_connected s then (None, push (Recv_done cb []) s)
      else case res of
        Inl e \<Rightarrow> (Some e, s)
      | Inr (Some data) \<Rightarrow>
          if data = [] \<or> length data = sz then (None, push (Recv_done cb data) s)
          else (None, wait_recv lib (Recv_all cb sz data) s)
      | Inr None \<Rightarrow> (None, wait_recv lib (Recv_all cb sz []) s))"

definition set_on_data_available :: "nat \<Rightarrow> tcp \<Rightarrow> tcp" where
  "set_on_data_available cb s = s\<lparr>m_recv_handler := Some (On_data cb)\<rparr>"

text \<open>\<open>bits\<close> is what the callback of a user returns.\<close>

fun call_recv :: "u32 \<Rightarrow> recv_op \<Rightarrow> bytes option \<Rightarrow> tcp \<Rightarrow> recv_op \<times> u32 \<times> tcp" where
  "call_recv bits (On_data cb) res s = (On_data cb, bits, s)"
| "call_recv bits op None s = (op, result_none, s)"
| "call_recv bits (Recv_some cb sz) (Some data) s = (Recv_some cb sz, result_clear, push (Recv_done cb data) s)"
| "call_recv bits (Recv_all cb sz got) (Some data) s =
     (let op = Recv_all cb sz (got @ data) in
      if data = [] \<or> sz = length (got @ data) then (op, result_clear, push (Recv_done cb (got @ data)) s)
      else (op, result_none, s))"

definition on_readable :: "cpp_error + bytes option \<Rightarrow> u32 \<Rightarrow> tcp \<Rightarrow> (cpp_error + bool) \<times> tcp" where
  "on_readable res bits s =
     (case m_recv_handler s of
        None \<Rightarrow> (Inr True, s)
      | Some op \<Rightarrow> (case res of
            Inl e \<Rightarrow> (Inl e, s)
          | Inr r \<Rightarrow> (case call_recv bits op r s of (op, bits, s) \<Rightarrow>
              (Inr (\<not> result_not bits),
               s\<lparr>m_recv_handler := (if \<not> result_not (result_and bits result_clear) then None else Some op)\<rparr>))))"

definition pause_receive :: "lib \<Rightarrow> bool \<Rightarrow> tcp \<Rightarrow> tcp" where
  "pause_receive lib paused s =
     s\<lparr>m_handle := (if paused then pause lib pause_recv (m_handle s) else fst (unpause lib pause_recv (m_handle s)))\<rparr>"

subsection \<open>Connecting and disconnecting\<close>

text \<open>
  The options that \<open>connect\<close> sets; a failure throws and ends it. The callbacks of the handle are
  numbered 0 (writable), 1 (readable) and 2 (done).
\<close>

definition connect_url :: "string \<Rightarrow> u16 \<Rightarrow> bool \<Rightarrow> string" where
  "connect_url remote port ssl = (if ssl then ''https://'' else ''http://'') @ remote @ '':'' @ nat_to_string (unat port)"

definition connect_setup :: "lib \<Rightarrow> string \<Rightarrow> u16 \<Rightarrow> bool \<Rightarrow> handle \<Rightarrow> step" where
  "connect_setup lib remote port ssl h =
     next_do (set_option_bool lib opt_connect_only True h) (\<lambda>h.
     next_do (set_option_bool lib 74 True h) (\<lambda>h.
     next_do (set_readfunction lib 0 h) (\<lambda>h.
     next_do (set_writefunction lib 1 h) (\<lambda>h.
     next_do (set_url lib (connect_url remote port ssl) h) (\<lambda>h.
       (None, pause lib pause_all (set_donefunction 2 h)))))))"

text \<open>
  \<open>connect\<close> from there on, between the executor's \<open>add_handle\<close> and, on failure, \<open>remove_handle\<close>:
  the codes the user's callback gets, the exception thrown, the state.
\<close>

definition tcp_connect :: "lib \<Rightarrow> string \<Rightarrow> u16 \<Rightarrow> bool \<Rightarrow> tcp \<Rightarrow> int list \<times> cpp_error option \<times> tcp" where
  "tcp_connect lib remote port ssl s =
     (case connect_setup lib remote port ssl (m_handle s) of
        (Some e, h) \<Rightarrow> ([], Some e, s\<lparr>m_handle := h\<rparr>)
      | (None, h) \<Rightarrow>
          (case perform lib (h\<lparr>h_executor := Some 0\<rparr>) of (called, e, h) \<Rightarrow>
             let s = s\<lparr>m_handle := (if e = None then h else h\<lparr>h_executor := None\<rparr>)\<rparr>;
                 s = (case called of Some (_, res) \<Rightarrow> if res = 0 then s\<lparr>m_is_connected := True\<rparr> else s | None \<Rightarrow> s)
             in (case called of Some (_, res) \<Rightarrow> [res] | None \<Rightarrow> [], e, s)))"

definition tcp_disconnect :: "lib \<Rightarrow> nat option \<Rightarrow> tcp \<Rightarrow> cpp_error option \<times> tcp" where
  "tcp_disconnect lib cb s =
     (let send_cb = m_send_handler s; recv_cb = m_recv_handler s;
          s = s\<lparr>m_send_handler := None, m_recv_handler := None\<rparr>
      in case handle_reset lib ((m_handle s)\<lparr>h_executor := None, h_multi := None\<rparr>) of
           (Some e, h) \<Rightarrow> (Some e, s\<lparr>m_handle := h\<rparr>)
         | (None, h) \<Rightarrow> (None, push (Disconnected recv_cb send_cb cb) (s\<lparr>m_handle := h, m_is_connected := False\<rparr>)))"

text \<open>What the executor does with the pushed entry: cancel both handlers.\<close>

definition run_disconnected :: "recv_op option \<Rightarrow> send_op option \<Rightarrow> tcp \<Rightarrow> tcp" where
  "run_disconnected recv_cb send_cb s =
     (let s = (case recv_cb of None \<Rightarrow> s | Some op \<Rightarrow> cancel_recv op s) in
      case send_cb of None \<Rightarrow> s | Some op \<Rightarrow> cancel_send op s)"

text \<open>
  The destructor pushes the pending handlers, to be cancelled later. They use the executor through
  the client, which is gone by then.
\<close>

definition tcp_dtor :: "tcp \<Rightarrow> tcp" where
  "tcp_dtor s =
     (let s = (case m_recv_handler s of None \<Rightarrow> s | Some op \<Rightarrow> push (Cancel_recv op) s) in
      case m_send_handler s of None \<Rightarrow> s | Some op \<Rightarrow> push (Cancel_send op) s)"

text \<open>The awaiter of \<open>connect\<close>: a code other than 0 becomes an exception.\<close>

definition connect_await_resume :: "int \<Rightarrow> cpp_error option" where
  "connect_await_resume result = (if result \<noteq> 0 then Some (Curl_exception result False) else None)"

subsection \<open>Everything is sent\<close>

lemma result_simps [simp]: "result_not result_none" "\<not> result_not result_clear" "\<not> result_not (result_and result_clear result_clear)"
    "result_not (result_and result_none result_clear)"
  by (simp_all add: result_not_def result_none_def result_clear_def result_and_def)

lemma push_sel [simp]: "m_handle (push t s) = m_handle s" "m_is_connected (push t s) = m_is_connected s"
  "m_send_handler (push t s) = m_send_handler s" "m_recv_handler (push t s) = m_recv_handler s" "wire (push t s) = wire s"
  "queue (push t s) = queue s @ [t]"
  by (simp_all add: push_def)

lemma take_wire_sel [simp]: "m_send_handler (take_wire d s) = m_send_handler s" "m_recv_handler (take_wire d s) = m_recv_handler s"
  "m_is_connected (take_wire d s) = m_is_connected s" "queue (take_wire d s) = queue s" "wire (take_wire d s) = wire s @ d"
  "m_handle (take_wire d s) = m_handle s"
  by (simp_all add: take_wire_def)

lemma wait_sel [simp]: "m_send_handler (wait_send lib op s) = Some op" "wire (wait_send lib op s) = wire s"
  "queue (wait_send lib op s) = queue s" "m_recv_handler (wait_send lib op s) = m_recv_handler s"
  "m_recv_handler (wait_recv lib rop s) = Some rop" "queue (wait_recv lib rop s) = queue s"
  "m_send_handler (wait_recv lib rop s) = m_send_handler s" "wire (wait_recv lib rop s) = wire s"
  "m_is_connected (wait_send lib op s) = m_is_connected s" "m_is_connected (wait_recv lib rop s) = m_is_connected s"
  by (simp_all add: wait_send_def wait_recv_def)

text \<open>The counts of libcurl's answers; no answer takes more than is left, and only the last one completes.\<close>

definition counts :: "nat option list \<Rightarrow> nat" where
  "counts rs = sum_list (map (\<lambda>r. case r of None \<Rightarrow> 0 | Some n \<Rightarrow> n) rs)"

lemma counts_simps [simp]: "counts [] = 0" "counts (r # rs) = (case r of None \<Rightarrow> 0 | Some n \<Rightarrow> n) + counts rs"
  by (simp_all add: counts_def)

fun writable_run :: "nat option list \<Rightarrow> tcp \<Rightarrow> tcp" where
  "writable_run [] s = s"
| "writable_run (r # rs) s = writable_run rs (snd (on_writable (Inr r) s))"

lemma writable_all:
  assumes "m_send_handler s = Some (Send_all cb data sent)" "Some 0 \<notin> set rs" "sent + counts rs < length data"
    "n = 0 \<or> sent + counts rs + n = length data"
  shows "wire (writable_run (rs @ [Some n]) s) = wire s @ take (counts rs + n) (drop sent data) \<and>
    queue (writable_run (rs @ [Some n]) s) = queue s @ [Send_done cb (sent + counts rs + n)] \<and>
    m_send_handler (writable_run (rs @ [Some n]) s) = None"
  using assms
proof (induction rs arbitrary: s sent)
  case Nil
  then show ?case by (auto simp: on_writable_def Let_def)
next
  case (Cons r rs)
  show ?case
  proof (cases r)
    case None
    with Cons.prems have "snd (on_writable (Inr r) s) = s" by (simp add: on_writable_def)
    with Cons.IH [of s sent] Cons.prems None show ?thesis by simp
  next
    case (Some k)
    define t where "t = snd (on_writable (Inr r) s)"
    have k: "0 < k" "sent + k < length data" using Cons.prems Some by auto
    have t: "m_send_handler t = Some (Send_all cb data (sent + k))" "wire t = wire s @ take k (drop sent data)" "queue t = queue s"
      using Cons.prems(1) Some k by (simp_all add: t_def on_writable_def Let_def)
    have "writable_run ((r # rs) @ [Some n]) s = writable_run (rs @ [Some n]) t" by (simp add: t_def)
    moreover have "take k (drop sent data) @ take m (drop (sent + k) data) = take (k + m) (drop sent data)" for m
      by (simp add: take_add add.commute)
    ultimately show ?thesis using Cons.IH [OF t(1)] Cons.prems Some t(2,3) by (simp add: add.assoc del: writable_run.simps)
  qed
qed

subsection \<open>Every callback once\<close>

text \<open>Callbacks of transfers: pushed, pending in a handler, or in a cancellation that waits.\<close>

fun op_send :: "send_op \<Rightarrow> nat list" where
  "op_send (Send_some cb _) = [cb]" | "op_send (Send_all cb _ _) = [cb]"

fun op_recv :: "recv_op \<Rightarrow> nat list" where
  "op_recv (Recv_some cb _) = [cb]" | "op_recv (Recv_all cb _ _) = [cb]" | "op_recv (On_data _) = []"

definition in_option :: "('a \<Rightarrow> nat list) \<Rightarrow> 'a option \<Rightarrow> nat list" where
  "in_option f x = (case x of None \<Rightarrow> [] | Some y \<Rightarrow> f y)"

fun in_task :: "task \<Rightarrow> nat list" where
  "in_task (Send_done cb _) = [cb]"
| "in_task (Recv_done cb _) = [cb]"
| "in_task (Disconnected r w _) = in_option op_recv r @ in_option op_send w"
| "in_task (Cancel_user _) = []"
| "in_task (Cancel_recv op) = op_recv op"
| "in_task (Cancel_send op) = op_send op"

definition callbacks :: "tcp \<Rightarrow> nat multiset" where
  "callbacks s = mset (concat (map in_task (queue s))) + mset (in_option op_send (m_send_handler s)) + mset (in_option op_recv (m_recv_handler s))"

text \<open>One operation, with the callbacks it takes on.\<close>

inductive tcp_step :: "lib \<Rightarrow> tcp \<Rightarrow> nat multiset \<Rightarrow> tcp \<Rightarrow> bool" for lib where
  send: "tcp_send lib res cb data s = (None, s') \<Longrightarrow> tcp_step lib s {#cb#} s'"
| send_all: "tcp_send_all lib res cb data s = (None, s') \<Longrightarrow> tcp_step lib s {#cb#} s'"
| recv: "tcp_recv lib rres cb n s = (None, s') \<Longrightarrow> tcp_step lib s {#cb#} s'"
| recv_all: "tcp_recv_all lib rres cb n s = (None, s') \<Longrightarrow> tcp_step lib s {#cb#} s'"
| send_throws: "tcp_send lib res cb data s = (Some e, s') \<Longrightarrow> tcp_step lib s {#} s'"
| send_all_throws: "tcp_send_all lib res cb data s = (Some e, s') \<Longrightarrow> tcp_step lib s {#} s'"
| recv_throws: "tcp_recv lib rres cb n s = (Some e, s') \<Longrightarrow> tcp_step lib s {#} s'"
| recv_all_throws: "tcp_recv_all lib rres cb n s = (Some e, s') \<Longrightarrow> tcp_step lib s {#} s'"
| writable: "on_writable res s = (x, s') \<Longrightarrow> tcp_step lib s {#} s'"
| readable: "on_readable rres bits s = (x, s') \<Longrightarrow> tcp_step lib s {#} s'"
| flow: "tcp_step lib s {#} (pause_receive lib b s)"
| disconnect: "tcp_disconnect lib cb s = (None, s') \<Longrightarrow> tcp_step lib s {#} s'"
| cancelled: "queue s = pre @ Disconnected r w cb # post \<Longrightarrow> tcp_step lib s {#} (run_disconnected r w (s\<lparr>queue := pre @ post\<rparr>))"

inductive tcp_run :: "lib \<Rightarrow> tcp \<Rightarrow> nat multiset \<Rightarrow> tcp \<Rightarrow> bool" for lib where
  none: "tcp_run lib s {#} s"
| more: "tcp_run lib s A t \<Longrightarrow> tcp_step lib t B u \<Longrightarrow> tcp_run lib s (A + B) u"

lemma in_option_simps [simp]: "in_option f None = []" "in_option f (Some x) = f x"
  by (simp_all add: in_option_def)

lemma callbacks_push [simp]: "callbacks (push t s) = callbacks s + mset (in_task t)"
  by (simp add: callbacks_def)

lemma call_send_callbacks:
  "call_send op r s = (op', bits, s') \<Longrightarrow> m_send_handler s' = m_send_handler s \<and> m_recv_handler s' = m_recv_handler s \<and>
    op_send op' = op_send op \<and> (bits = result_none \<and> queue s' = queue s \<or> bits = result_clear \<and> (\<exists>k. queue s' = queue s @ [Send_done (hd (op_send op)) k]))"
  by (cases op; cases r) (auto simp: Let_def split: if_splits)

lemma call_recv_callbacks:
  "call_recv b op r s = (op', bits, s') \<Longrightarrow> m_send_handler s' = m_send_handler s \<and> m_recv_handler s' = m_recv_handler s \<and>
    op_recv op' = op_recv op \<and>
    (op_recv op = [] \<and> queue s' = queue s \<or> bits = result_none \<and> queue s' = queue s \<or>
     bits = result_clear \<and> op_recv op \<noteq> [] \<and> (\<exists>d. queue s' = queue s @ [Recv_done (hd (op_recv op)) d]))"
  by (cases op; cases r) (auto simp: Let_def split: if_splits)

lemma op_send_one: "\<exists>cb. op_send op = [cb]"
  by (cases op) auto

lemma op_recv_one: "op_recv op = [] \<or> (\<exists>cb. op_recv op = [cb])"
  by (cases op) auto

lemma writable_callbacks: "on_writable res s = (x, s') \<Longrightarrow> callbacks s' = callbacks s"
proof (cases "m_send_handler s")
  case (Some op)
  assume o: "on_writable res s = (x, s')"
  obtain cb where cb: "op_send op = [cb]" using op_send_one by blast
  show ?thesis
  proof (cases res)
    case (Inr r)
    obtain op' bits t where t: "call_send op r s = (op', bits, t)" by (cases "call_send op r s")
    from call_send_callbacks [OF t] o Some Inr t cb show ?thesis
      by (auto simp: on_writable_def callbacks_def)
  qed (use o Some in \<open>simp add: on_writable_def\<close>)
qed (simp add: on_writable_def)

lemma readable_callbacks: "on_readable res b s = (x, s') \<Longrightarrow> callbacks s' = callbacks s"
proof (cases "m_recv_handler s")
  case (Some op)
  assume o: "on_readable res b s = (x, s')"
  show ?thesis
  proof (cases res)
    case (Inr r)
    obtain op' bits t where t: "call_recv b op r s = (op', bits, t)" by (cases "call_recv b op r s")
    from call_recv_callbacks [OF t] o Some Inr t op_recv_one [of op] show ?thesis
      by (auto simp: on_readable_def callbacks_def)
  qed (use o Some in \<open>simp add: on_readable_def\<close>)
qed (simp add: on_readable_def)

lemma cancel_callbacks [simp]: "callbacks (cancel_send op s) = callbacks s + mset (op_send op)"
  "callbacks (cancel_recv rop s) = callbacks s + mset (op_recv rop)"
  by (cases op; simp) (cases rop; simp)

lemma tcp_step_callbacks: "tcp_step lib s A s' \<Longrightarrow> callbacks s' = callbacks s + A"
proof (induction rule: tcp_step.induct)
  case (cancelled s pre r w cb post)
  then show ?case
    by (cases r; cases w) (simp_all add: run_disconnected_def, simp_all add: callbacks_def)
next
  case (disconnect cb s s')
  then show ?case
    by (auto simp: tcp_disconnect_def Let_def callbacks_def push_def split: prod.splits option.splits)
qed (auto simp: tcp_send_def tcp_send_all_def tcp_recv_def tcp_recv_all_def callbacks_def pause_receive_def Let_def
    split: if_splits sum.splits option.splits dest!: writable_callbacks readable_callbacks)

lemma tcp_run_callbacks: "tcp_run lib s A t \<Longrightarrow> callbacks t = callbacks s + A"
  by (induction rule: tcp_run.induct) (auto dest: tcp_step_callbacks)

subsection \<open>Properties\<close>

lemma send_all_answers:
  assumes "m_is_connected s" "m_send_handler s = None" "Some 0 \<notin> set as" "as = [] \<or> counts as < length data"
    "n = 0 \<or> counts as + n = length data" "answers = as @ [Some n]"
    "tcp_send_all lib (Inr (hd answers)) cb data s = (e, s1)"
  shows "e = None \<and> wire (writable_run (tl answers) s1) = wire s @ take (counts as + n) data \<and>
    queue (writable_run (tl answers) s1) = queue s @ [Send_done cb (counts as + n)] \<and>
    m_send_handler (writable_run (tl answers) s1) = None"
proof (cases as)
  case Nil
  with assms show ?thesis by (auto simp: tcp_send_all_def Let_def)
next
  case (Cons r rs)
  define k where "k = (case r of None \<Rightarrow> 0 | Some k \<Rightarrow> k)"
  have k: "k + counts rs < length data" "n = 0 \<or> k + counts rs + n = length data" "counts as = k + counts rs"
    using assms(4,5) Cons by (simp_all add: k_def)
  have s1: "e = None" "m_send_handler s1 = Some (Send_all cb data k)" "wire s1 = wire s @ take k data" "queue s1 = queue s"
    using assms(1-3,6,7) Cons k by (cases r; auto simp: tcp_send_all_def Let_def k_def)+
  have "Some 0 \<notin> set rs" using assms(3) Cons by simp
  from writable_all [OF s1(2) this k(1,2)] s1 show ?thesis
    by (simp add: assms(6) Cons k_def [symmetric] take_add add.assoc)
qed

text \<open>
  C11: \<open>send_all\<close> on a connected client without a pending send, whatever libcurl answers short of an error (\<open>None\<close> is no
  progress): if libcurl takes the data in pieces, be it all at once in the call itself, the callback is
  pushed once, with the size of the data, when the last piece is taken; if a piece of no octets ends it
  early, the callback is pushed with the size of what was taken before. In both cases exactly so many
  octets of the data are on the wire, in order, and the handler is gone.
\<close>

theorem send_all_delivers:
  assumes "m_is_connected s" "m_send_handler s = None" "Some 0 \<notin> set as" "as = [] \<or> counts as < length data"
    "n = 0 \<or> counts as + n = length data" "answers = as @ [Some n]"
    "tcp_send_all lib (Inr (hd answers)) cb data s = (e, s1)"
  shows "e = None \<and> wire (writable_run (tl answers) s1) = wire s @ take (counts as + n) data \<and>
    queue (writable_run (tl answers) s1) = queue s @ [Send_done cb (counts as + n)] \<and>
    m_send_handler (writable_run (tl answers) s1) = None"
  using assms by (rule send_all_answers)

definition tcp_example :: tcp where
  "tcp_example = (tcp_ctor handle_blank)\<lparr>m_is_connected := True\<rparr>"

text \<open>Four octets taken by the call itself, and in pieces of 1, none, 1 and 2.\<close>

theorem send_all_delivers_witness:
  "queue (snd (tcp_send_all obliging (Inr (Some 4)) 7 [1, 2, 3, 4] tcp_example)) = [Send_done 7 4] \<and>
   wire (writable_run [None, Some 1, Some 2] (snd (tcp_send_all obliging (Inr (Some 1)) 7 [1, 2, 3, 4] tcp_example))) = [1, 2, 3, 4] \<and>
   queue (writable_run [None, Some 1, Some 2] (snd (tcp_send_all obliging (Inr (Some 1)) 7 [1, 2, 3, 4] tcp_example))) = [Send_done 7 4]"
proof -
  have c: "m_is_connected tcp_example" "m_send_handler tcp_example = None" "queue tcp_example = []" "wire tcp_example = []"
    by (simp_all add: tcp_example_def tcp_ctor_def)
  note sent = send_all_delivers [OF c(1,2) _ _ _ _ prod.collapse [symmetric]]
  from sent [of "[]" "[1, 2, 3, 4]" 4 "[Some 4]" obliging 7] sent [of "[Some 1, None, Some 1]" "[1, 2, 3, 4]" 2 "[Some 1, None, Some 1, Some 2]" obliging 7] c
  show ?thesis by simp
qed

text \<open>
  Whatever happens on a new client (transfers started, refused or failing, the socket ready,
  disconnects and their cancellations), the callbacks of the transfers it accepted are exactly
  those in its queue and in its pending handlers: none is lost, none is called twice.
\<close>

theorem transfer_callbacks_once:
  assumes "tcp_run lib (tcp_ctor h) A t"
  shows "mset (concat (map in_task (queue t))) + mset (in_option op_send (m_send_handler t)) + mset (in_option op_recv (m_recv_handler t)) = A"
  using tcp_run_callbacks [OF assms] by (simp add: callbacks_def tcp_ctor_def)

theorem transfer_callbacks_once_witness:
  "\<exists>t. tcp_run obliging (tcp_ctor handle_blank) {#7, 8#} t \<and> mset (concat (map in_task (queue t))) = {#7, 8#}"
proof -
  let ?s = "tcp_ctor handle_blank"
  have a: "tcp_send obliging (Inr None) 7 [1] ?s = (None, push (Send_done 7 0) ?s)" by (simp add: tcp_send_def tcp_ctor_def)
  have b: "tcp_recv obliging (Inr None) 8 4 (push (Send_done 7 0) ?s) = (None, push (Recv_done 8 []) (push (Send_done 7 0) ?s))"
    by (simp add: tcp_recv_def tcp_ctor_def)
  have "tcp_run obliging ?s (({#} + {#7#}) + {#8#}) (push (Recv_done 8 []) (push (Send_done 7 0) ?s))"
    by (rule tcp_run.more [OF tcp_run.more [OF tcp_run.none tcp_step.send [OF a]] tcp_step.recv [OF b]])
  then have r: "tcp_run obliging ?s {#7, 8#} (push (Recv_done 8 []) (push (Send_done 7 0) ?s))"
    by (simp add: add_mset_commute)
  from transfer_callbacks_once [OF r] r show ?thesis by (intro exI conjI) (auto simp: tcp_ctor_def)
qed

text \<open>
  When the connection cannot be made, \<open>connect\<close> reports it twice: it calls the callback with
  libcurl's code and throws the same code as well.
\<close>

theorem connect_failure_reported_twice:
  assumes "connect_setup lib remote port ssl (m_handle s) = (None, h)" "h_multi h = None"
    "lib (calls h) Easy_perform = res" "res \<noteq> 0"
  shows "\<exists>s'. tcp_connect lib remote port ssl s = ([res], Some (Curl_exception res False), s') \<and>
    m_is_connected s' = m_is_connected s"
proof -
  have "m_done_callback h = Some 2"
    using assms(1) by (auto simp: connect_setup_def next_do_def pause_def curl_pause_def set_donefunction_def Let_def
        split: prod.splits option.splits if_splits)
  then show ?thesis using assms by (simp add: tcp_connect_def perform_def Let_def)
qed

definition refusing :: lib where
  "refusing cs c = (if c = Easy_perform then 7 else 0)"

theorem connect_failure_reported_twice_witness:
  "\<exists>s'. tcp_connect refusing ''localhost'' 1 False (tcp_ctor handle_blank) = ([7], Some (Curl_exception 7 False), s')"
proof -
  obtain h where h: "connect_setup refusing ''localhost'' 1 False (m_handle (tcp_ctor handle_blank)) = (None, h)" "h_multi h = None"
    by (simp add: connect_setup_def set_option_bool_def set_option_long_def set_readfunction_def set_writefunction_def set_url_def
        set_option_ptr_def easy_def next_do_def refusing_def option_base_def type_long_def type_object_def type_function_def Let_def
        opt_connect_only_def opt_verbose_def set_donefunction_def pause_def curl_pause_def tcp_ctor_def handle_blank_def)
  from connect_failure_reported_twice [OF h, of 7] show ?thesis by (auto simp: refusing_def)
qed

end
