(* ===== verification/Executor.thy ===== *)
theory Executor
  imports Handle Header_Map
begin

text \<open>
  \<open>curl/multi.h\<close>, \<open>src/curl/multi.cpp\<close>, \<open>curl/executor.h\<close>, \<open>src/curl/executor.cpp\<close>: the table of
  transfers and the thread that drives it. libcurl's answers (result codes, finished transfers,
  ready sockets) and the clock are arguments. Work for the thread is a \<open>job\<close>: a function of a
  user, the done callback of a transfer with its result, or the second half of a cancellation.
  \<open>performed\<close> is what has been run. Handles are numbered; \<open>threadsafe_queue\<close> is a queue.
\<close>

subsection \<open>multi\<close>

definition multi_result :: "int \<Rightarrow> cpp_error option" where
  "multi_result res = (if res \<noteq> 0 then Some (Curl_exception res True) else None)"

text \<open>\<open>this\<close> is the number of the multi, \<open>res\<close> libcurl's answer.\<close>

definition multi_add_handle :: "nat \<Rightarrow> int \<Rightarrow> handle \<Rightarrow> step" where
  "multi_add_handle this res h =
     (if h_multi h = Some this then (None, h)
      else if h_multi h \<noteq> None then (Some Logic_error, h)
      else case multi_result res of Some e \<Rightarrow> (Some e, h) | None \<Rightarrow> (None, h\<lparr>h_multi := Some this\<rparr>))"

definition multi_remove_handle :: "nat \<Rightarrow> int \<Rightarrow> handle \<Rightarrow> step" where
  "multi_remove_handle this res h =
     (if h_multi h = None then (None, h)
      else if h_multi h \<noteq> Some this then (Some Logic_error, h)
      else case multi_result res of Some e \<Rightarrow> (Some e, h) | None \<Rightarrow> (None, h\<lparr>h_multi := None\<rparr>))"

definition multi_timeout :: "int \<Rightarrow> int \<Rightarrow> cpp_error + int" where
  "multi_timeout res timeout = (case multi_result res of Some e \<Rightarrow> Inl e | None \<Rightarrow> Inr timeout)"

definition multi_perform :: "int \<Rightarrow> cpp_error option" where "multi_perform res = multi_result res"
definition multi_wait :: "int \<Rightarrow> cpp_error option" where "multi_wait res = multi_result res"
definition multi_poll :: "int \<Rightarrow> cpp_error option" where "multi_poll res = multi_result res"
definition multi_wakeup :: "int \<Rightarrow> cpp_error option" where "multi_wakeup res = multi_result res"
definition multi_fdset :: "int \<Rightarrow> cpp_error option" where "multi_fdset res = multi_result res"
definition multi_set_option_long :: "int \<Rightarrow> cpp_error option" where "multi_set_option_long res = multi_result res"
definition multi_set_option_ptr :: "int \<Rightarrow> cpp_error option" where "multi_set_option_ptr res = multi_result res"
definition multi_set_option_bool :: "int \<Rightarrow> cpp_error option" where "multi_set_option_bool res = multi_result res"

text \<open>The constructor, given whether \<open>curl_multi_init\<close> succeeds; only the number of the multi is kept.\<close>

definition multi_ctor :: "bool \<Rightarrow> cpp_error option" where
  "multi_ctor init_ok = (if init_ok then None else Some Runtime_error)"

text \<open>A message of libcurl: whether it is \<open>CURLMSG_DONE\<close>, the handle, the result.\<close>

record message =
  is_done :: bool
  msg_handle :: nat
  result_code :: int

text \<open>
  \<open>next_event\<close>: libcurl's message (whether it is done, the raw handle, the result), with its
  answer to the question for the private pointer of that handle. A \<open>message\<close> is an event whose
  handle is not null: each handle sets its private pointer when it is made.
\<close>

definition next_event :: "(bool \<times> nat \<times> int) option \<Rightarrow> int \<Rightarrow> nat option \<Rightarrow> cpp_error + (bool \<times> nat option \<times> int) option" where
  "next_event msg res private =
     (case msg of
        None \<Rightarrow> Inr None
      | Some (done, raw, code) \<Rightarrow>
          (case get_handle_from_raw (Some raw) res private of Inl e \<Rightarrow> Inl e | Inr h \<Rightarrow> Inr (Some (done, h, code))))"

subsection \<open>The state of the executor\<close>

datatype job =
    is_User: User nat
  | Done_cb nat int
  | Abort nat nat

record exec =
  handles :: "nat \<Rightarrow> handle"
  m_queue :: "job list"
  m_scheduled :: "(int \<times> job) list"
  m_connect_only_handles :: "nat list"
  m_exit :: bool
  performed :: "job list"

definition upd_handle :: "nat \<Rightarrow> handle \<Rightarrow> exec \<Rightarrow> exec" where
  "upd_handle i h s = s\<lparr>handles := (handles s)(i := h)\<rparr>"

definition exec_push :: "job \<Rightarrow> exec \<Rightarrow> exec" where
  "exec_push j s = s\<lparr>m_queue := m_queue s @ [j]\<rparr>"

text \<open>\<open>schedule\<close>: times in nanoseconds.\<close>

definition schedule_at :: "job \<Rightarrow> int \<Rightarrow> exec \<Rightarrow> exec" where
  "schedule_at j time s = s\<lparr>m_scheduled := mm_emplace (<) time j (m_scheduled s)\<rparr>"

definition schedule_in :: "job \<Rightarrow> int \<Rightarrow> int \<Rightarrow> exec \<Rightarrow> exec" where
  "schedule_in j now timeout_ms s = schedule_at j (now + timeout_ms * 1000000) s"

text \<open>The bodies that \<open>add_handle\<close> and \<open>remove_handle\<close> run on the thread; a set is a list without repetition.\<close>

definition exec_add_handle :: "nat \<Rightarrow> int \<Rightarrow> exec \<Rightarrow> cpp_error option \<times> exec" where
  "exec_add_handle i res s =
     (let h = (handles s i)\<lparr>h_executor := Some 0\<rparr> in
      if is_connect_only h then
        (None, (upd_handle i h s)\<lparr>m_connect_only_handles := List.insert i (m_connect_only_handles s)\<rparr>)
      else case multi_add_handle 0 res h of (e, h) \<Rightarrow> (e, upd_handle i h s))"

definition exec_remove_handle :: "nat \<Rightarrow> int \<Rightarrow> exec \<Rightarrow> cpp_error option \<times> exec" where
  "exec_remove_handle i res s =
     (let h = (handles s i)\<lparr>h_executor := None\<rparr> in
      if is_connect_only h then
        (None, (upd_handle i h s)\<lparr>m_connect_only_handles := remove1 i (m_connect_only_handles s)\<rparr>)
      else case multi_remove_handle 0 res h of (e, h) \<Rightarrow> (e, upd_handle i h s))"

text \<open>What a handle does first when it is destroyed or reset: it leaves its executor and its multi.\<close>

definition handle_leave :: "nat \<Rightarrow> int \<Rightarrow> int \<Rightarrow> exec \<Rightarrow> cpp_error option \<times> exec" where
  "handle_leave i res res' s =
     (case (if h_executor (handles s i) \<noteq> None then exec_remove_handle i res s else (None, s)) of
        (Some e, s) \<Rightarrow> (Some e, s)
      | (None, s) \<Rightarrow>
          (case h_multi (handles s i) of
             None \<Rightarrow> (None, s)
           | Some m \<Rightarrow> (case multi_remove_handle m res' (handles s i) of (e, h) \<Rightarrow> (e, upd_handle i h s))))"

definition exec_dtor :: "exec \<Rightarrow> exec" where
  "exec_dtor s = s\<lparr>m_exit := True\<rparr>"

subsection \<open>One round of the thread\<close>

text \<open>The loop over \<open>next_event\<close>; an exception would end the program, the thread is \<open>noexcept\<close>.\<close>

definition handle_event :: "message \<Rightarrow> exec \<Rightarrow> exec" where
  "handle_event evt s =
     (if \<not> is_done evt then s
      else
        let h = handles s (msg_handle evt); cb = m_done_callback h; h = h\<lparr>m_done_callback := None\<rparr>;
            h = (if \<not> is_connect_only h then snd (multi_remove_handle 0 0 h) else h);
            s = upd_handle (msg_handle evt) h s
        in case cb of None \<Rightarrow> s | Some cb \<Rightarrow> exec_push (Done_cb cb (result_code evt)) s)"

text \<open>Running a job; \<open>pushes\<close> is what a job of a user pushes while it runs.\<close>

definition run_job :: "(job \<Rightarrow> job list) \<Rightarrow> job \<Rightarrow> exec \<Rightarrow> exec" where
  "run_job pushes j s =
     (case j of
        Abort i cb \<Rightarrow>
          (let h = snd (multi_remove_handle 0 0 ((handles s i)\<lparr>h_executor := None\<rparr>)); s = upd_handle i h s in
           s\<lparr>performed := performed s @ [Done_cb cb 42], m_queue := m_queue s @ pushes (Done_cb cb 42)\<rparr>)
      | _ \<Rightarrow> s\<lparr>performed := performed s @ [j], m_queue := m_queue s @ pushes j\<rparr>)"

text \<open>The loop over the queue, which need not end; the flag is whether the thread returns.\<close>

partial_function (option) drain :: "(job \<Rightarrow> job list) \<Rightarrow> int \<Rightarrow> exec \<Rightarrow> (bool \<times> exec) option" where
  "drain pushes still_running s =
     (case m_queue s of
        [] \<Rightarrow> Some (m_exit s \<and> still_running = 0, s)
      | j # q \<Rightarrow> drain pushes still_running (run_job pushes j (s\<lparr>m_queue := q\<rparr>)))"

definition millis :: "int \<Rightarrow> int" where
  "millis ns = (if ns < 0 then - ((- ns) div 1000000) else ns div 1000000)"

lemma run_job_scheduled [simp]: "m_scheduled (run_job pushes j s) = m_scheduled s"
  by (cases j) (simp_all add: run_job_def Let_def upd_handle_def)

text \<open>The loop over the scheduled calls, with the clock as read before it; the number is the timeout.\<close>

function run_scheduled :: "(job \<Rightarrow> job list) \<Rightarrow> int \<Rightarrow> int \<Rightarrow> exec \<Rightarrow> int \<times> exec" where
  "run_scheduled pushes now timeout s =
     (case m_scheduled s of
        [] \<Rightarrow> (timeout, s)
      | (time, fn) # later \<Rightarrow>
          let diff = millis (time - now) in
          if diff > 100 then ((if timeout > diff then diff else timeout), s)
          else run_scheduled pushes now timeout (run_job pushes fn (s\<lparr>m_scheduled := later\<rparr>)))"
  by pat_completeness auto
termination
  by (relation "measure (\<lambda>(_, _, _, s). length (m_scheduled s))") auto

declare run_scheduled.simps [simp del]

text \<open>
  The sockets to poll: for each connect-only handle with a socket (\<open>None\<close>: none) its number, and
  whether it waits for input and for output.
\<close>

definition poll_set :: "(nat \<Rightarrow> nat option) \<Rightarrow> exec \<Rightarrow> (nat \<times> bool \<times> bool) list" where
  "poll_set sockets s =
     map (\<lambda>i. (i, \<not> is_paused pause_recv (handles s i), \<not> is_paused pause_send (handles s i)))
       (filter (\<lambda>i. sockets i \<noteq> None \<and> (\<not> is_paused pause_recv (handles s i) \<or> \<not> is_paused pause_send (handles s i)))
         (m_connect_only_handles s))"

text \<open>
  What follows the poll for one handle: \<open>rin\<close> and \<open>rout\<close> are the ready directions, \<open>res\<close> what the
  callback called returns.
\<close>

definition ready_handle :: "lib \<Rightarrow> nat \<Rightarrow> bool \<Rightarrow> bool \<Rightarrow> nat \<Rightarrow> exec \<Rightarrow> exec" where
  "ready_handle lib i rin rout res s =
     (let h = handles s i in
      if rin then
        if m_write_callback h = None \<or> res = func_pause then upd_handle i (pause lib pause_recv h) s else s
      else if rout then
        if m_read_callback h = None \<or> res = func_pause then upd_handle i (pause lib pause_send h) s else s
      else s)"

text \<open>
  One round: the finished transfers, the queue, then, unless libcurl wants no wait, the scheduled
  calls. \<open>None\<close> as the timeout means that the round is over without a poll.
\<close>

definition worker_round ::
  "(job \<Rightarrow> job list) \<Rightarrow> int \<Rightarrow> message list \<Rightarrow> int \<Rightarrow> int \<Rightarrow> exec \<Rightarrow> (bool \<times> int option \<times> exec) option" where
  "worker_round pushes still_running evts curl_timeout now s =
     (case drain pushes still_running (fold handle_event evts s) of
        None \<Rightarrow> None
      | Some (True, s) \<Rightarrow> Some (True, None, s)
      | Some (False, s) \<Rightarrow>
          if curl_timeout = 0 then Some (False, None, s)
          else case run_scheduled pushes now (if curl_timeout < 0 then 500 else curl_timeout) s of
            (timeout, s) \<Rightarrow> Some (False, Some timeout, s))"

text \<open>
  The whole round: \<open>poll\<close> gives, from the timeout and the sockets, the ready handles, in which
  directions, and what the callback called for it returns.
\<close>

definition after_poll :: "lib \<Rightarrow> (nat \<times> bool \<times> bool \<times> nat) list \<Rightarrow> exec \<Rightarrow> exec" where
  "after_poll lib ready s = fold (\<lambda>(i, rin, rout, res). ready_handle lib i rin rout res) ready s"

definition worker_thread ::
  "lib \<Rightarrow> (job \<Rightarrow> job list) \<Rightarrow> (nat \<Rightarrow> nat option) \<Rightarrow> (int \<Rightarrow> (nat \<times> bool \<times> bool) list \<Rightarrow> (nat \<times> bool \<times> bool \<times> nat) list) \<Rightarrow>
   int \<Rightarrow> message list \<Rightarrow> int \<Rightarrow> int \<Rightarrow> exec \<Rightarrow> (bool \<times> exec) option" where
  "worker_thread lib pushes sockets poll still_running evts curl_timeout now s =
     (case worker_round pushes still_running evts curl_timeout now s of
        None \<Rightarrow> None
      | Some (returns, None, s) \<Rightarrow> Some (returns, s)
      | Some (returns, Some timeout, s) \<Rightarrow> Some (returns, after_poll lib (poll timeout (poll_set sockets s)) s))"

subsection \<open>Awaiting and cancelling a transfer\<close>

text \<open>\<open>exec\<close> refuses connect-only handles.\<close>

definition exec_exec :: "nat \<Rightarrow> exec \<Rightarrow> cpp_error option" where
  "exec_exec i s = (if is_connect_only (handles s i) then Some Logic_error else None)"

definition exec_await_suspend :: "nat \<Rightarrow> nat \<Rightarrow> int \<Rightarrow> exec \<Rightarrow> cpp_error option \<times> exec" where
  "exec_await_suspend i cb res s = exec_add_handle i res (upd_handle i (set_donefunction cb (handles s i)) s)"

definition stop_callback :: "nat \<Rightarrow> exec \<Rightarrow> exec" where
  "stop_callback i s =
     (let h = handles s i; s = upd_handle i (h\<lparr>m_done_callback := None\<rparr>) s in
      case m_done_callback h of None \<Rightarrow> s | Some cb \<Rightarrow> exec_push (Abort i cb) s)"

text \<open>
  The constructor of the awaiter registers the stop callback, which is called at once when the stop
  has been requested before. The done callback that \<open>await_suspend\<close> installs would then not be there yet.
\<close>

definition exec_awaiter_ctor :: "bool \<Rightarrow> nat \<Rightarrow> exec \<Rightarrow> exec" where
  "exec_awaiter_ctor stopped i s = (if stopped then stop_callback i s else s)"

lemma stop_before_start_lost:
  assumes "m_done_callback (handles s i) = None"
  shows "exec_awaiter_ctor True i s = s"
proof -
  have h: "(handles s i)\<lparr>m_done_callback := None\<rparr> = handles s i" by (rule handle.equality) (simp_all add: assms)
  show ?thesis unfolding exec_awaiter_ctor_def stop_callback_def upd_handle_def Let_def h using assms by simp
qed

subsection \<open>Scheduled calls\<close>

definition due :: "int \<Rightarrow> int \<times> job \<Rightarrow> bool" where
  "due now e \<longleftrightarrow> millis (fst e - now) \<le> 100"

lemma millis_mono: "a \<le> b \<Longrightarrow> millis a \<le> millis b"
proof -
  assume "a \<le> b"
  moreover have "(- b) div 1000000 \<le> (- a) div 1000000" "a div 1000000 \<le> b div 1000000"
    using \<open>a \<le> b\<close> by (simp_all add: zdiv_mono1)
  moreover have "0 \<le> b div 1000000" if "0 \<le> b" using that by simp
  moreover have "0 \<le> (- a) div 1000000" if "a < 0" using that by simp
  ultimately show ?thesis unfolding millis_def by (auto split: if_splits)
qed

lemma times_ordered: "times.ordered m \<longleftrightarrow> sorted (map fst m)"
  by (simp add: times.ordered_def sorted_wrt_map not_less)

lemma sorted_split:
  assumes "sorted (map fst m)"
  shows "m = filter (due now) m @ filter (\<lambda>e. \<not> due now e) m"
  using assms
proof (induction m)
  case (Cons e m)
  show ?case
  proof (cases "due now e")
    case False
    have "\<not> due now x" if "x \<in> set m" for x
    proof -
      have "fst e \<le> fst x" using Cons.prems that by auto
      then have "millis (fst e - now) \<le> millis (fst x - now)" by (intro millis_mono) simp
      with False show ?thesis by (simp add: due_def)
    qed
    then have "filter (due now) m = []" "filter (\<lambda>e. \<not> due now e) m = m" by (simp_all add: filter_id_conv filter_empty_conv)
    with False show ?thesis by simp
  qed (use Cons in simp)
qed simp

lemma run_scheduled_due:
  assumes "m_scheduled s = d @ l" "list_all (due now) d" "list_all is_User (map snd d)" "l = [] \<or> \<not> due now (hd l)"
  shows "\<exists>t s'. run_scheduled pushes now timeout s = (t, s') \<and> performed s' = performed s @ map snd d \<and> m_scheduled s' = l \<and>
    t = (if l = [] then timeout else min timeout (millis (fst (hd l) - now)))"
  using assms
proof (induction d arbitrary: s)
  case Nil
  then show ?case
    by (subst run_scheduled.simps) (cases l; auto simp: due_def Let_def)
next
  case (Cons e d)
  obtain time fn where e: "e = (time, fn)" by (cases e)
  then obtain u where u: "fn = User u" using Cons.prems(3) by (cases fn) auto
  let ?s = "run_job pushes fn (s\<lparr>m_scheduled := d @ l\<rparr>)"
  have "performed ?s = performed s @ [fn]" by (simp add: run_job_def u)
  moreover have "run_scheduled pushes now timeout s = run_scheduled pushes now timeout ?s"
    using Cons.prems(1,2) e by (subst run_scheduled.simps) (simp add: due_def)
  ultimately show ?case using Cons.IH [of ?s] Cons.prems e by auto
qed

definition scheduled_by :: "(int \<times> job) list \<Rightarrow> (int \<times> job) list" where
  "scheduled_by entries = foldl (\<lambda>m (k, v). mm_emplace (<) k v m) [] entries"

lemma scheduled_by_schedule_at:
  "m_scheduled (foldl (\<lambda>s (time, j). schedule_at j time s) s entries) = foldl (\<lambda>m (k, v). mm_emplace (<) k v m) (m_scheduled s) entries"
  by (induction entries arbitrary: s) (auto simp: schedule_at_def)

lemma scheduled_by_sorted: "sorted (map fst (scheduled_by entries))"
  using times.built [of entries] by (simp add: times_ordered scheduled_by_def)

lemma scheduled_by_set: "set (scheduled_by entries) = set entries"
  by (induction entries rule: rev_induct) (auto simp: scheduled_by_def)

subsection \<open>Finishing and cancelling\<close>

datatype action = Finished nat int | Stopped nat

fun act :: "action \<Rightarrow> exec \<Rightarrow> exec" where
  "act (Finished i res) s = handle_event \<lparr>is_done = True, msg_handle = i, result_code = res\<rparr> s"
| "act (Stopped i) s = stop_callback i s"

fun about :: "nat \<Rightarrow> job \<Rightarrow> bool" where
  "about cb (Done_cb c _) = (c = cb)"
| "about cb (Abort _ c) = (c = cb)"
| "about cb (User _) = False"

fun target :: "action \<Rightarrow> nat" where
  "target (Finished i _) = i"
| "target (Stopped i) = i"

fun outcome_of :: "nat \<Rightarrow> action \<Rightarrow> job" where
  "outcome_of cb (Finished i res) = Done_cb cb res"
| "outcome_of cb (Stopped i) = Abort i cb"

lemma multi_remove_done [simp]: "m_done_callback (snd (multi_remove_handle t r h)) = m_done_callback h"
  by (simp add: multi_remove_handle_def split: option.splits)

lemma act_effect:
  "m_queue (act a s) = m_queue s @ (case m_done_callback (handles s (target a)) of None \<Rightarrow> [] | Some cb \<Rightarrow> [outcome_of cb a]) \<and>
   m_done_callback (handles (act a s) i) = (if i = target a then None else m_done_callback (handles s i))"
  by (cases a) (auto simp: handle_event_def stop_callback_def Let_def upd_handle_def exec_push_def split: option.splits)

lemma about_outcome [simp]: "about cb (outcome_of c a) \<longleftrightarrow> c = cb"
  by (cases a) auto

lemma acts_once:
  assumes "\<forall>k. k \<noteq> i \<longrightarrow> m_done_callback (handles s k) \<noteq> Some cb" "m_done_callback (handles s i) \<in> {None, Some cb}"
  shows "filter (about cb) (m_queue (fold act acts s)) = filter (about cb) (m_queue s) @
    (if m_done_callback (handles s i) = None then []
     else case List.find (\<lambda>a. target a = i) acts of None \<Rightarrow> [] | Some a \<Rightarrow> [outcome_of cb a])"
  using assms
proof (induction acts arbitrary: s)
  case (Cons a acts)
  note e = act_effect [of a s]
  have "filter (about cb) (m_queue (fold act acts (act a s))) = filter (about cb) (m_queue (act a s)) @
    (if m_done_callback (handles (act a s) i) = None then []
     else case List.find (\<lambda>a. target a = i) acts of None \<Rightarrow> [] | Some a \<Rightarrow> [outcome_of cb a])"
    using Cons.prems e by (intro Cons.IH) auto
  with Cons.prems e show ?case by (auto split: option.splits)
qed simp

subsection \<open>Properties\<close>

text \<open>
  C37: Calls scheduled in any order: a round runs, earliest first, exactly those whose time is at
  most 100 ms (and a fraction) after the clock, so up to 100 ms early, keeps the others, and polls
  no longer than until the next of them.
\<close>

theorem scheduled_calls_run:
  assumes "m_scheduled s = scheduled_by entries" "\<forall>(time, j) \<in> set entries. is_User j"
  shows "\<exists>t s'. run_scheduled pushes now timeout s = (t, s') \<and>
    performed s' = performed s @ map snd (filter (due now) (scheduled_by entries)) \<and>
    m_scheduled s' = filter (\<lambda>e. \<not> due now e) (scheduled_by entries) \<and> sorted (map fst (scheduled_by entries)) \<and>
    t = (if m_scheduled s' = [] then timeout else min timeout (millis (fst (hd (m_scheduled s')) - now)))"
proof -
  let ?d = "filter (due now) (scheduled_by entries)" and ?l = "filter (\<lambda>e. \<not> due now e) (scheduled_by entries)"
  have "list_all is_User (map snd ?d)" using assms(2) scheduled_by_set [of entries] by (force simp: list_all_iff)
  moreover have "?l = [] \<or> \<not> due now (hd ?l)" using hd_in_set [of ?l] by auto
  moreover have "list_all (due now) ?d" by (simp add: list_all_iff)
  moreover have "m_scheduled s = ?d @ ?l" using sorted_split [OF scheduled_by_sorted, of entries now] assms(1) by (simp only:)
  ultimately obtain t s' where r: "run_scheduled pushes now timeout s = (t, s')" "performed s' = performed s @ map snd ?d"
      "m_scheduled s' = ?l" "t = (if ?l = [] then timeout else min timeout (millis (fst (hd ?l) - now)))"
    using run_scheduled_due [of s ?d ?l now pushes timeout] by blast
  show ?thesis using r scheduled_by_sorted [of entries] by (intro exI [of _ t] exI [of _ s'] conjI) simp_all
qed

definition exec_example :: exec where
  "exec_example = \<lparr>handles = (\<lambda>_. handle_blank\<lparr>m_done_callback := Some 5\<rparr>), m_queue = [],
     m_scheduled = scheduled_by [(300000000, User 11), (90000000, User 12), (10000000, User 13)],
     m_connect_only_handles = [], m_exit = False, performed = []\<rparr>"

theorem scheduled_calls_run_witness:
  "\<exists>s'. run_scheduled (\<lambda>_. []) 0 500 exec_example = (300, s') \<and> performed s' = [User 13, User 12] \<and> m_scheduled s' = [(300000000, User 11)]"
proof -
  have e: "scheduled_by [(300000000, User 11), (90000000, User 12), (10000000, User 13)] = [(10000000, User 13), (90000000, User 12), (300000000, User 11)]"
    by (simp add: scheduled_by_def)
  have d: "due 0 (10000000, User 13)" "due 0 (90000000, User 12)" "\<not> due 0 (300000000, User 11)"
    by (simp_all add: due_def millis_def)
  have "m_scheduled exec_example = scheduled_by [(300000000, User 11), (90000000, User 12), (10000000, User 13)]" "performed exec_example = []"
    by (simp_all add: exec_example_def)
  then show ?thesis
    using scheduled_calls_run [of exec_example "[(300000000, User 11), (90000000, User 12), (10000000, User 13)]" "\<lambda>_. []" 0 500]
    by (simp add: e d) (auto simp: millis_def)
qed

text \<open>
  C29: However finished transfers and stop requests interleave, for any handles, the done callback
  of a transfer is queued exactly once as soon as one of them concerns it: with the result, or as
  a cancellation, whichever came first.
\<close>

theorem transfer_reported_once:
  assumes "m_done_callback (handles s i) = Some cb" "\<forall>k. k \<noteq> i \<longrightarrow> m_done_callback (handles s k) \<noteq> Some cb"
    "list_all (\<lambda>j. \<not> about cb j) (m_queue s)"
  shows "filter (about cb) (m_queue (fold act acts s)) =
    (case List.find (\<lambda>a. target a = i) acts of None \<Rightarrow> [] | Some a \<Rightarrow> [outcome_of cb a])"
proof -
  have "filter (about cb) (m_queue s) = []" using assms(3) by (simp add: list_all_iff filter_empty_conv)
  with acts_once [of i s cb acts] assms show ?thesis by simp
qed

theorem transfer_reported_once_witness:
  "filter (about 5) (m_queue (fold act [Stopped 2, Finished 2 0, Stopped 2] (exec_example\<lparr>handles := (\<lambda>_. handle_blank)(2 := handle_blank\<lparr>m_done_callback := Some 5\<rparr>)\<rparr>)))
   = [Abort 2 5]"
  using transfer_reported_once [of "exec_example\<lparr>handles := (\<lambda>_. handle_blank)(2 := handle_blank\<lparr>m_done_callback := Some 5\<rparr>)\<rparr>" 2 5
      "[Stopped 2, Finished 2 0, Stopped 2]"]
  by (simp add: exec_example_def handle_blank_def)

end
