(* ===== verification/Webclient.thy ===== *)
theory Webclient
  imports Handle Cookie Header_Map "HOL-Library.Multiset"
begin

text \<open>
  \<open>curl/webclient.h\<close> and \<open>src/curl/webclient.cpp\<close>: requests, responses, and how a request is laid
  on a \<open>handle\<close>. The callbacks handed to the handle are the values of \<open>callback\<close>; \<open>number\<close>
  is the number the handle knows each of them by. libcurl (\<open>lib\<close>, \<open>curl_slist_append\<close>,
  \<open>curl_slist_free_all\<close>), the hooks of the user and what a transfer delivers are arguments.
  The sinks of the user (strings, streams and functions that are not the response) are numbered.
\<close>

datatype body_storage = Ignore_body | Inline_body | To_string nat | To_ostream nat | To_function nat

datatype body_provider = No_body | From_string bytes | From_istream nat | From_function nat

datatype callback =
    Header_cb
  | Ignore_cb
  | Inline_cb
  | Write_string_cb nat
  | Write_stream_cb nat
  | No_body_cb
  | Read_string_cb bytes
  | Read_stream_cb nat
  | User_cb nat

record http_response =
  status_code :: int
  status_message :: string
  resp_headers :: header_map
  resp_cookies :: "cookie list"
  resp_body :: bytes

record http_request =
  request_method :: string
  req_url :: uri
  req_headers :: header_map
  req_cookies :: "cookie list"
  req_body :: body_provider
  follow_redirects :: bool
  verbose :: bool
  timeout :: int
  timeout_connect :: int

definition http_response_blank :: http_response where
  "http_response_blank = \<lparr>status_code = 0, status_message = [], resp_headers = [], resp_cookies = [], resp_body = []\<rparr>"

definition http_request_blank :: http_request where
  "http_request_blank = \<lparr>request_method = [], req_url = uri_empty, req_headers = [], req_cookies = [], req_body = No_body,
     follow_redirects = True, verbose = False, timeout = 0, timeout_connect = 30000\<rparr>"

definition make_get where "make_get u = http_request_blank\<lparr>request_method := ''GET'', req_url := u\<rparr>"
definition make_head where "make_head u = http_request_blank\<lparr>request_method := ''HEAD'', req_url := u\<rparr>"
definition make_post where "make_post u b = http_request_blank\<lparr>request_method := ''POST'', req_url := u, req_body := b\<rparr>"
definition make_patch where "make_patch u b = http_request_blank\<lparr>request_method := ''PATCH'', req_url := u, req_body := b\<rparr>"
definition make_put where "make_put u b = http_request_blank\<lparr>request_method := ''PUT'', req_url := u, req_body := b\<rparr>"
definition make_delete where "make_delete u = http_request_blank\<lparr>request_method := ''DELETE'', req_url := u\<rparr>"

subsection \<open>Header lines\<close>

definition web_trim :: "string \<Rightarrow> string" where
  "web_trim str =
     (let str = (case find_if (\<lambda>c. \<not> is_space c) str of None \<Rightarrow> [] | Some pos \<Rightarrow> drop pos str) in
      case find_last_if (\<lambda>c. \<not> is_space c) str of None \<Rightarrow> [] | Some pos \<Rightarrow> take (pos + 1) str)"

definition header_cb :: "string \<Rightarrow> http_response \<Rightarrow> nat \<times> http_response" where
  "header_cb buffer response =
     (length buffer,
      if length buffer \<le> 1 then response
      else
        let line = web_trim buffer in
        if line = [] then response
        else if take 5 line = ''HTTP/'' then
          (case find_if ((=) (CHR '' '')) line of
             None \<Rightarrow> response
           | Some pos \<Rightarrow> (case find_from '' '' line (pos + 1) of
               None \<Rightarrow> response
             | Some pos \<Rightarrow> response\<lparr>status_message := web_trim (drop (pos + 1) line), resp_headers := []\<rparr>))
        else
          (case find_if ((=) (CHR '':'')) line of
             None \<Rightarrow> response\<lparr>resp_headers := header_emplace line [] (resp_headers response)\<rparr>
           | Some pos \<Rightarrow> response\<lparr>resp_headers :=
               header_emplace (web_trim (take pos line)) (web_trim (drop (pos + 1) line)) (resp_headers response)\<rparr>))"

subsection \<open>Laying a request on a handle\<close>

definition set_write_cb :: "lib \<Rightarrow> (callback \<Rightarrow> nat) \<Rightarrow> body_storage \<Rightarrow> handle \<Rightarrow> step" where
  "set_write_cb lib number store hdl =
     (case store of
        Ignore_body \<Rightarrow> set_writefunction lib (number Ignore_cb) hdl
      | Inline_body \<Rightarrow> set_writefunction lib (number Inline_cb) hdl
      | To_string s \<Rightarrow> set_writefunction lib (number (Write_string_cb s)) hdl
      | To_ostream s \<Rightarrow> set_writefunction lib (number (Write_stream_cb s)) hdl
      | To_function f \<Rightarrow> set_writefunction lib (number (User_cb f)) hdl)"

definition opt_upload :: int where "opt_upload = 46"

definition set_read_cb :: "lib \<Rightarrow> (callback \<Rightarrow> nat) \<Rightarrow> body_provider \<Rightarrow> handle \<Rightarrow> step" where
  "set_read_cb lib number provider hdl =
     (case provider of
        No_body \<Rightarrow> set_readfunction lib (number No_body_cb) hdl
      | From_string s \<Rightarrow>
          next_do (set_option_bool lib opt_upload True hdl) (\<lambda>hdl.
          next_do (set_option_offset lib 30115 (int (length s)) hdl) (set_readfunction lib (number (Read_string_cb s))))
      | From_istream s \<Rightarrow>
          next_do (set_option_bool lib opt_upload True hdl) (set_readfunction lib (number (Read_stream_cb s)))
      | From_function f \<Rightarrow>
          next_do (set_option_bool lib opt_upload True hdl) (set_readfunction lib (number (User_cb f))))"

text \<open>What a C function sees of a string.\<close>

definition c_str :: "string \<Rightarrow> string" where
  "c_str s = takeWhile (\<lambda>c. c \<noteq> CHR 0x00) s"

definition header_text :: "string \<times> string \<Rightarrow> string" where
  "header_text e = (if snd e = [] then fst e @ '';'' else fst e @ '': '' @ snd e)"

text \<open>The loop that fills \<open>out_headers\<close>; an exception destroys the list.\<close>

fun append_all :: "c_append \<Rightarrow> c_free \<Rightarrow> header_map \<Rightarrow> slist \<Rightarrow> heap \<Rightarrow> slist heap_result" where
  "append_all app free [] l hp = Some (Inr l, hp)"
| "append_all app free (e # es) l hp =
     (case slist_append app l (c_str (header_text e)) hp of
        None \<Rightarrow> None
      | Some (Inl x, hp) \<Rightarrow> Some (Inl x, free hp (m_first_node l))
      | Some (Inr (_, l), hp) \<Rightarrow> append_all app free es l hp)"

definition set_auth_options :: "lib \<Rightarrow> string \<Rightarrow> handle \<Rightarrow> step" where
  "set_auth_options lib user hdl =
     (if user = [] then (None, hdl)
      else case find_if ((=) (CHR '':'')) user of
          None \<Rightarrow> set_option_string lib 10173 (c_str user) hdl
        | Some pos \<Rightarrow> next_do (set_option_string lib 10174 (c_str (drop (pos + 1) user)) hdl)
            (set_option_string lib 10173 (c_str (take pos user))))"

text \<open>\<open>None\<close> when a cookie with indeterminate flags is printed.\<close>

fun set_cookies :: "lib \<Rightarrow> cookie list \<Rightarrow> handle \<Rightarrow> step option" where
  "set_cookies lib [] hdl = Some (None, hdl)"
| "set_cookies lib (c # cs) hdl =
     (case cookie_to_string c of None \<Rightarrow> None | Some line \<Rightarrow>
      case set_option_string lib 10135 (c_str line) hdl of
        (Some e, hdl) \<Rightarrow> Some (Some e, hdl)
      | (None, hdl) \<Rightarrow> set_cookies lib cs hdl)"

definition prepare_front :: "lib \<Rightarrow> (callback \<Rightarrow> nat) \<Rightarrow> http_request \<Rightarrow> body_storage \<Rightarrow> handle \<Rightarrow> step" where
  "prepare_front lib number req store hdl =
     next_do (set_headerfunction lib (number Header_cb) hdl) (\<lambda>hdl.
     next_do (set_write_cb lib number store hdl) (\<lambda>hdl.
     next_do (set_option_string lib 10036 (c_str (request_method req)) hdl)
       (set_option_string lib 10002 (c_str (to_string (req_url req))))))"

definition prepare_back :: "lib \<Rightarrow> (callback \<Rightarrow> nat) \<Rightarrow> http_request \<Rightarrow> slist \<Rightarrow> handle \<Rightarrow> step" where
  "prepare_back lib number req out_headers hdl =
     next_do (set_headers lib out_headers hdl) (\<lambda>hdl.
     next_do (set_read_cb lib number (req_body req) hdl) (\<lambda>hdl.
     next_do (set_follow_location lib (follow_redirects req) hdl) (\<lambda>hdl.
     next_do (set_verbose lib (verbose req) hdl) (\<lambda>hdl.
     next_do (set_option_long lib 155 (timeout req) hdl) (\<lambda>hdl.
     next_do (set_option_long lib 156 (timeout_connect req) hdl) (\<lambda>hdl.
     next_do (set_auth_options lib (m_auth (req_url req)) hdl)
       (set_option_string lib 10031 [])))))))"

definition prepare_handle ::
  "lib \<Rightarrow> c_append \<Rightarrow> c_free \<Rightarrow> (callback \<Rightarrow> nat) \<Rightarrow> http_request \<Rightarrow> body_storage \<Rightarrow> handle \<Rightarrow> heap \<Rightarrow> (step \<times> heap) option" where
  "prepare_handle lib app free number req store hdl hp =
     (case prepare_front lib number req store hdl of
        (Some e, hdl) \<Rightarrow> Some ((Some e, hdl), hp)
      | (None, hdl) \<Rightarrow>
          (case append_all app free (req_headers req) slist_empty hp of
             None \<Rightarrow> None
           | Some (Inl e, hp) \<Rightarrow> Some ((Some e, hdl), hp)
           | Some (Inr out_headers, hp) \<Rightarrow>
               (case prepare_back lib number req out_headers hdl of
                  (Some e, hdl) \<Rightarrow> Some ((Some e, hdl), hp)
                | (None, hdl) \<Rightarrow> map_option (\<lambda>r. (r, hp)) (set_cookies lib (req_cookies req) hdl))))"

subsection \<open>Executing\<close>

text \<open>What a transfer delivers, and what reaches the response of it.\<close>

datatype transfer_event = Header_line string | Body_data bytes

definition deliver :: "body_storage \<Rightarrow> transfer_event \<Rightarrow> http_response \<Rightarrow> http_response" where
  "deliver store ev resp =
     (case ev of
        Header_line l \<Rightarrow> snd (header_cb l resp)
      | Body_data d \<Rightarrow> if store = Inline_body then resp\<lparr>resp_body := snd (writestring_cb d (resp_body resp))\<rparr> else resp)"

fun read_cookies :: "string list \<Rightarrow> (cpp_error + cookie list) option" where
  "read_cookies [] = Some (Inr [])"
| "read_cookies (l # ls) =
     (case cookie_ctor l of
        None \<Rightarrow> None
      | Some (Inl e) \<Rightarrow> Some (Inl e)
      | Some (Inr c) \<Rightarrow>
          (case read_cookies ls of
             None \<Rightarrow> None | Some (Inl e) \<Rightarrow> Some (Inl e) | Some (Inr cs) \<Rightarrow> Some (Inr (c # cs))))"

text \<open>\<open>configure\<close> and \<open>result_hook\<close> are the hooks, \<open>code\<close> and \<open>lines\<close> libcurl's two answers after the transfer.\<close>

definition execute_sync ::
  "lib \<Rightarrow> c_append \<Rightarrow> c_free \<Rightarrow> (callback \<Rightarrow> nat) \<Rightarrow> (handle \<Rightarrow> step) \<Rightarrow> (handle \<Rightarrow> step) \<Rightarrow> bool \<Rightarrow> transfer_event list \<Rightarrow>
   int \<times> int \<Rightarrow> int \<times> string list \<Rightarrow> http_request \<Rightarrow> body_storage \<Rightarrow> heap \<Rightarrow> (cpp_error + http_response) option" where
  "execute_sync lib app free number configure result_hook init_ok events code lines req store hp =
     (case handle_ctor lib init_ok of (Some e, _) \<Rightarrow> Some (Inl e) | (None, hdl) \<Rightarrow>
      case prepare_handle lib app free number req store hdl hp of None \<Rightarrow> None | Some (r, hp) \<Rightarrow>
      case next_do (next_do (next_do r configure) (\<lambda>hdl. snd (perform lib hdl))) result_hook of
        (Some e, _) \<Rightarrow> Some (Inl e)
      | (None, hdl) \<Rightarrow>
          let response = fold (deliver store) events http_response_blank in
          case get_response_code (fst code) (snd code) of Inl e \<Rightarrow> Some (Inl e) | Inr c \<Rightarrow>
          case get_info 0x400000 0x40001c (fst lines) (snd lines) of Inl e \<Rightarrow> Some (Inl e) | Inr ls \<Rightarrow>
          case read_cookies ls of None \<Rightarrow> None | Some (Inl e) \<Rightarrow> Some (Inl e) | Some (Inr cs) \<Rightarrow>
            Some (Inr (response\<lparr>status_code := c, resp_cookies := cs\<rparr>)))"

text \<open>\<open>await_resume\<close>: \<open>res\<close> is the result of the transfer, \<open>response\<close> what it has filled.\<close>

definition execute_await_resume :: "(handle \<Rightarrow> step) \<Rightarrow> int \<Rightarrow> int \<times> int \<Rightarrow> handle \<Rightarrow> http_response \<Rightarrow> cpp_error + http_response" where
  "execute_await_resume result_hook res code hdl response =
     (case result_hook hdl of (Some e, _) \<Rightarrow> Inl e | (None, hdl) \<Rightarrow>
      if res \<noteq> 0 then Inl (Curl_exception res False)
      else case get_response_code (fst code) (snd code) of Inl e \<Rightarrow> Inl e | Inr c \<Rightarrow> Inr (response\<lparr>status_code := c\<rparr>))"

subsection \<open>What the header callback makes of a response\<close>

text \<open>No blank at either end.\<close>

definition no_outer_blank :: "string \<Rightarrow> bool" where
  "no_outer_blank s \<longleftrightarrow> s = [] \<or> \<not> is_space (hd s) \<and> \<not> is_space (last s)"

lemma web_trim_between:
  assumes "\<forall>c \<in> set pre. is_space c" "\<forall>c \<in> set post. is_space c" "no_outer_blank core"
  shows "web_trim (pre @ core @ post) = core"
proof (cases "core = []")
  case True
  with assms(1,2) have "find_if (\<lambda>c. \<not> is_space c) (pre @ core @ post) = None" by auto
  with True show ?thesis by (simp add: web_trim_def del: find_if_None_iff)
next
  case False
  with assms(3) obtain c r d t where s: "core = c # r" "\<not> is_space c" "core = t @ [d]" "\<not> is_space d"
    by (metis append_butlast_last_id list.collapse no_outer_blank_def)
  have "find_if (\<lambda>c. \<not> is_space c) (pre @ c # (r @ post)) = Some (length pre)" using s(2) assms(1) by (intro find_if_hit) simp_all
  moreover have "find_last_if (\<lambda>c. \<not> is_space c) (t @ d # post) = Some (length t)"
    using s(4) assms(2) by (intro find_last_if_hit) simp_all
  moreover have "pre @ c # (r @ post) = pre @ core @ post" "t @ d # post = core @ post" using s by simp_all
  moreover have "take (length t + 1) (core @ post) = core" using s(3) by simp
  ultimately show ?thesis by (simp add: web_trim_def)
qed

abbreviation line_end :: string where
  "line_end \<equiv> [CHR 0x0D, CHR 0x0A]"

lemma line_end_blank: "\<forall>c \<in> set line_end. is_space c" "\<forall>c \<in> set ('' '' @ line_end). is_space c"
  by (simp_all add: is_space_def)

definition status_line :: "string \<Rightarrow> string \<Rightarrow> string \<Rightarrow> string" where
  "status_line version code reason = ''HTTP/'' @ version @ '' '' @ code @ '' '' @ reason @ line_end"

definition field_line :: "string \<times> string \<Rightarrow> string" where
  "field_line e = fst e @ '': '' @ snd e @ line_end"

definition field_ok :: "string \<times> string \<Rightarrow> bool" where
  "field_ok e \<longleftrightarrow> fst e \<noteq> [] \<and> no_outer_blank (fst e) \<and> CHR '':'' \<notin> set (fst e) \<and> take 5 (fst e) \<noteq> ''HTTP/'' \<and>
     no_outer_blank (snd e)"

definition word :: "string \<Rightarrow> bool" where
  "word s \<longleftrightarrow> s \<noteq> [] \<and> (\<forall>c \<in> set s. \<not> is_space c)"

lemma header_cb_field:
  assumes "field_ok e"
  shows "header_cb (field_line e) r =
    (length (field_line e), r\<lparr>resp_headers := header_emplace (fst e) (snd e) (resp_headers r)\<rparr>)"
proof -
  obtain k v where e: "e = (k, v)" by (cases e)
  note a = assms [unfolded field_ok_def e, simplified]
  define l where "l = (if v = [] then k @ '':'' else k @ '': '' @ v)"
  have sp: "\<not> is_space (CHR '':'')" by (simp add: is_space_def)
  have "no_outer_blank l" using a sp by (auto simp: l_def no_outer_blank_def)
  then have "web_trim ([] @ l @ (if v = [] then '' '' @ line_end else line_end)) = l"
    using line_end_blank by (intro web_trim_between) auto
  then have t: "web_trim (field_line e) = l" by (cases "v = []") (simp_all add: field_line_def e l_def)
  have l: "l = k @ CHR '':'' # (if v = [] then [] else '' '' @ v)" by (simp add: l_def)
  have f: "find_if ((=) (CHR '':'')) l = Some (length k)" unfolding l using a by (intro find_if_hit) auto
  have v: "web_trim (drop (length k + 1) l) = v"
    using web_trim_between [of "'' ''" "[]" v] web_trim_between [of "[]" "[]" "[]"] a by (simp add: l is_space_def no_outer_blank_def)
  have k: "web_trim (take (length k) l) = k" using web_trim_between [of "[]" "[]" k] a by (simp add: l)
  have h: "take 5 l \<noteq> ''HTTP/''"
  proof
    assume h: "take 5 l = ''HTTP/''"
    show False
    proof (cases "length k < 5")
      case True
      then have "CHR '':'' \<in> set (take 5 l)" by (simp add: l take_Cons')
      with h show False by simp
    next
      case False
      with h a show False by (simp add: l)
    qed
  qed
  have "2 \<le> length (field_line e)" by (simp add: field_line_def)
  with t f v k h show ?thesis by (simp add: header_cb_def Let_def e l)
qed

lemma find_space_word: "\<forall>c \<in> set w. \<not> is_space c \<Longrightarrow> find_if ((=) (CHR '' '')) (w @ CHR '' '' # s) = Some (length w)"
  by (rule find_if_hit) (auto simp: is_space_def)

lemma header_cb_status:
  assumes "word version" "word code" "no_outer_blank reason" "reason \<noteq> []"
  shows "header_cb (status_line version code reason) r =
    (length (status_line version code reason), r\<lparr>status_message := reason, resp_headers := []\<rparr>)"
proof -
  let ?w = "''HTTP/'' @ version"
  define l where "l = ?w @ CHR '' '' # (code @ CHR '' '' # reason)"
  have "no_outer_blank l" using assms by (simp add: no_outer_blank_def l_def is_space_def)
  then have "web_trim ([] @ l @ line_end) = l" using line_end_blank by (intro web_trim_between) auto
  then have t: "web_trim (status_line version code reason) = l" by (simp add: status_line_def l_def)
  have f: "find_if ((=) (CHR '' '')) l = Some (length ?w)"
    unfolding l_def using assms(1) by (intro find_space_word) (auto simp: word_def is_space_def)
  have "find_if ((=) (CHR '' '')) (code @ CHR '' '' # reason) = Some (length code)"
    using assms(2) by (intro find_space_word) (auto simp: word_def)
  then have g: "find_from '' '' l (length ?w + 1) = Some (length ?w + 1 + length code)"
    by (simp add: find_from_def find_sub_char l_def)
  have d: "drop (length ?w + 1 + length code + 1) l = reason" by (simp add: l_def)
  have m: "web_trim reason = reason" using web_trim_between [of "[]" "[]" reason] assms by simp
  have "2 \<le> length (status_line version code reason)" "take 5 l = ''HTTP/''" "l \<noteq> []" by (simp_all add: status_line_def l_def)
  with t f g d m show ?thesis by (simp add: header_cb_def Let_def)
qed

lemma header_cb_status_bare:
  assumes "word version" "word code"
  shows "header_cb (status_line version code []) r = (length (status_line version code []), r)"
proof -
  let ?w = "''HTTP/'' @ version"
  define l where "l = ?w @ CHR '' '' # code"
  have "no_outer_blank l" using assms by (simp add: no_outer_blank_def l_def is_space_def word_def)
  then have "web_trim ([] @ l @ '' '' @ line_end) = l" using line_end_blank by (intro web_trim_between) auto
  then have t: "web_trim (status_line version code []) = l" by (simp add: status_line_def l_def)
  have f: "find_if ((=) (CHR '' '')) l = Some (length ?w)"
    unfolding l_def using assms(1) by (intro find_space_word) (auto simp: word_def is_space_def)
  have "find_if ((=) (CHR '' '')) code = None" using assms(2) by (auto simp: word_def is_space_def)
  then have g: "find_from '' '' l (length ?w + 1) = None"
    by (simp add: find_from_def find_sub_char l_def)
  have "2 \<le> length (status_line version code [])" "take 5 l = ''HTTP/''" "l \<noteq> []" by (simp_all add: status_line_def l_def)
  with t f g show ?thesis by (simp add: header_cb_def Let_def)
qed

lemma header_cb_end: "header_cb line_end r = (2, r)"
proof -
  have "web_trim ([] @ [] @ line_end) = []" using line_end_blank by (intro web_trim_between) (auto simp: no_outer_blank_def)
  then show ?thesis by (simp add: header_cb_def)
qed

lemma deliver_fields:
  assumes "list_all field_ok kvs"
  shows "fold (deliver store) (map (\<lambda>e. Header_line (field_line e)) kvs) r =
    r\<lparr>resp_headers := foldl (\<lambda>m (k, v). header_emplace k v m) (resp_headers r) kvs\<rparr>"
  using assms
proof (induction kvs arbitrary: r)
  case (Cons e kvs)
  then show ?case by (simp add: deliver_def header_cb_field case_prod_unfold)
qed simp

lemma mset_header_emplace: "mset (header_emplace k v m) = add_mset (k, v) (mset m)"
  by (induction m) (auto simp: header_emplace_def)

text \<open>
  An answer of the server as libcurl delivers it: status line, header fields, the empty line and the
  body in pieces. A transfer has several (redirects, interim answers); libcurl gives the status lines of
  HTTP/2 and HTTP/3 an empty reason.
\<close>

record answer =
  answer_version :: string
  answer_code :: string
  answer_reason :: string
  answer_fields :: "(string \<times> string) list"
  answer_body :: "bytes list"

definition answer_ok :: "answer \<Rightarrow> bool" where
  "answer_ok a \<longleftrightarrow> word (answer_version a) \<and> word (answer_code a) \<and> no_outer_blank (answer_reason a) \<and> list_all field_ok (answer_fields a)"

definition answer_events :: "answer \<Rightarrow> transfer_event list" where
  "answer_events a = Header_line (status_line (answer_version a) (answer_code a) (answer_reason a)) #
     map (\<lambda>e. Header_line (field_line e)) (answer_fields a) @ Header_line line_end # map Body_data (answer_body a)"

abbreviation emplace_all :: "(string \<times> string) list \<Rightarrow> (string \<times> string) list \<Rightarrow> (string \<times> string) list" where
  "emplace_all kvs m \<equiv> foldl (\<lambda>m (k, v). header_emplace k v m) m kvs"

lemma deliver_body_keeps:
  "status_message (fold (deliver store) (map Body_data ds) r) = status_message r"
  "resp_headers (fold (deliver store) (map Body_data ds) r) = resp_headers r"
  by (induction ds arbitrary: r) (simp_all add: deliver_def)

lemma deliver_answer:
  assumes "answer_ok a"
  shows "status_message (fold (deliver store) (answer_events a) r) = (if answer_reason a = [] then status_message r else answer_reason a)"
    "resp_headers (fold (deliver store) (answer_events a) r) =
       emplace_all (answer_fields a) (if answer_reason a = [] then resp_headers r else [])"
  using assms deliver_fields
  by (simp_all add: answer_events_def answer_ok_def deliver_body_keeps deliver_def header_cb_status header_cb_status_bare header_cb_end)

lemma deliver_bare_answers:
  assumes "list_all answer_ok as" "\<forall>a \<in> set as. answer_reason a = []"
  shows "status_message (fold (deliver store) (concat (map answer_events as)) r) = status_message r"
    "resp_headers (fold (deliver store) (concat (map answer_events as)) r) = emplace_all (concat (map answer_fields as)) (resp_headers r)"
  using assms by (induction as arbitrary: r) (simp_all add: deliver_answer)

subsection \<open>Properties of responses\<close>

text \<open>
  C28: Whatever came before (redirects, their headers and bodies): the response has the reason of the
  last status line that has one, and exactly the header fields of the answer it opens and of the
  answers after it, whose status lines have no reason (none when the last answer has a reason, so that
  nothing of a redirect stays; with HTTP/2 and HTTP/3, where there never is a reason, also the fields
  of the redirects). Looking up a name gives the first of these fields of that name, up to case.
\<close>

theorem final_response_headers:
  assumes "list_all answer_ok (a # as)" "answer_reason a \<noteq> []" "\<forall>b \<in> set as. answer_reason b = []"
    "response = fold (deliver store) (earlier @ concat (map answer_events (a # as))) r"
    "kvs = concat (map answer_fields (a # as))"
  shows "status_message response = answer_reason a \<and>
    header_find name (resp_headers response) = map_option snd (List.find (\<lambda>(k, v). map tolower k = map tolower name) kvs) \<and>
    mset (resp_headers response) = mset kvs"
proof -
  have "resp_headers response = emplace_all kvs []" "status_message response = answer_reason a"
    using assms by (simp_all add: deliver_bare_answers deliver_answer)
  moreover have "mset (emplace_all kvs []) = mset kvs"
    by (induction kvs rule: rev_induct) (auto simp: mset_header_emplace)
  ultimately show ?thesis using header_find_built [of name kvs] by simp
qed

text \<open>A redirect over HTTP/1.1 and its target, and an answer with a reason followed by one without.\<close>

definition moved_answer :: answer where
  "moved_answer = \<lparr>answer_version = ''1.1'', answer_code = ''301'', answer_reason = ''Moved'', answer_fields = [(''Location'', ''/b'')], answer_body = [[1]]\<rparr>"

definition plain_answer :: answer where
  "plain_answer = \<lparr>answer_version = ''1.1'', answer_code = ''200'', answer_reason = ''OK'', answer_fields = [(''Server'', ''x y''), (''X-Id'', [])], answer_body = []\<rparr>"

definition bare_answer :: answer where
  "bare_answer = \<lparr>answer_version = ''2'', answer_code = ''200'', answer_reason = [], answer_fields = [(''Age'', ''1'')], answer_body = []\<rparr>"

theorem final_response_headers_witness:
  "status_message (fold (deliver Inline_body) (answer_events moved_answer @ concat (map answer_events [plain_answer])) http_response_blank) = ''OK'' \<and>
   header_find ''location'' (resp_headers (fold (deliver Inline_body) (answer_events moved_answer @ concat (map answer_events [plain_answer])) http_response_blank)) = None \<and>
   header_find ''location'' (resp_headers (fold (deliver Inline_body) ([] @ concat (map answer_events [moved_answer, bare_answer])) http_response_blank)) = Some ''/b''"
proof -
  have ok: "list_all answer_ok [plain_answer]" "list_all answer_ok [moved_answer, bare_answer]"
    by (simp_all add: answer_ok_def plain_answer_def moved_answer_def bare_answer_def word_def no_outer_blank_def field_ok_def is_space_def)
  have r: "answer_reason plain_answer = ''OK''" "answer_reason moved_answer \<noteq> []" "\<forall>b \<in> set [bare_answer]. answer_reason b = []"
    by (simp_all add: plain_answer_def moved_answer_def bare_answer_def)
  have l: "List.find (\<lambda>(k, v). map tolower k = map tolower ''location'') (concat (map answer_fields [plain_answer])) = None"
    "List.find (\<lambda>(k, v). map tolower k = map tolower ''location'') (concat (map answer_fields [moved_answer, bare_answer])) = Some (''Location'', ''/b'')"
    by code_simp+
  from final_response_headers [OF ok(1) _ _ refl refl, of Inline_body "answer_events moved_answer" http_response_blank "''location''"]
    final_response_headers [OF ok(2) r(2,3) refl refl, of Inline_body "[]" http_response_blank "''location''"] r(1) l
  show ?thesis by simp
qed

text \<open>
  A status line without a reason, which is what libcurl makes of HTTP/2 and HTTP/3, does not
  start a new response: the reason and the header fields of the one before (a redirect) stay, and
  the new fields are added to them.
\<close>

theorem bare_status_keeps_headers:
  assumes "word version" "word code" "list_all field_ok kvs"
    "response = fold (deliver store) (Header_line (status_line version code []) #
        map (\<lambda>e. Header_line (field_line e)) kvs @ [Header_line line_end]) r"
  shows "status_message response = status_message r \<and> set (resp_headers response) = set (resp_headers r) \<union> set kvs"
proof -
  have "resp_headers response = foldl (\<lambda>m (k, v). header_emplace k v m) (resp_headers r) kvs" "status_message response = status_message r"
    using assms deliver_fields by (simp_all add: deliver_def header_cb_status_bare header_cb_end)
  moreover have "set (foldl (\<lambda>m (k, v). header_emplace k v m) (resp_headers r) kvs) = set (resp_headers r) \<union> set kvs"
    by (induction kvs rule: rev_induct) (auto simp: header_emplace_def)
  ultimately show ?thesis by simp
qed

theorem bare_status_keeps_headers_witness:
  "set (resp_headers (fold (deliver Inline_body) (Header_line (status_line ''2'' ''200'' []) #
      map (\<lambda>e. Header_line (field_line e)) [(''Server'', ''x'')] @ [Header_line line_end])
      (http_response_blank\<lparr>resp_headers := [(''location'', ''/b'')]\<rparr>))) = {(''location'', ''/b''), (''Server'', ''x'')}"
  using bare_status_keeps_headers [OF _ _ _ refl, of "''2''" "''200''" "[(''Server'', ''x'')]" Inline_body
      "http_response_blank\<lparr>resp_headers := [(''location'', ''/b'')]\<rparr>"]
  by (simp add: word_def no_outer_blank_def field_ok_def is_space_def insert_commute)

subsection \<open>What a request tells libcurl\<close>

definition accepts :: "lib \<Rightarrow> bool" where
  "accepts lib \<longleftrightarrow> (\<forall>cs c. lib cs c = 0)"

lemma easy_accepts: "accepts lib \<Longrightarrow> easy lib c h = (None, h\<lparr>calls := calls h @ [(c, 0)]\<rparr>)"
  by (simp add: easy_def accepts_def)

lemma next_do_None [simp]: "next_do (None, h) f = f h"
  by (simp add: next_do_def)

lemmas setters = set_option_long_def set_option_bool_def set_option_string_def set_option_ptr_def set_option_offset_def
  set_option_slist_def set_headerfunction_def set_writefunction_def set_readfunction_def set_headers_def
  set_follow_location_def set_verbose_def type_long_def type_object_def type_function_def type_off_def option_base_def
  opt_connect_only_def opt_verbose_def opt_upload_def

definition values_told :: "int \<Rightarrow> (curl_call \<times> int) list \<Rightarrow> opt_value list" where
  "values_told opt cs = concat (map (\<lambda>(c, _). case c of Setopt o' v \<Rightarrow> if o' = opt then [v] else [] | _ \<Rightarrow> []) cs)"

lemma values_told_append [simp]:
  "values_told opt (xs @ ys) = values_told opt xs @ values_told opt ys"
  "values_told opt [] = []"
  "values_told opt ((Setopt o' v, r) # xs) = (if o' = opt then [v] else []) @ values_told opt xs"
  by (simp_all add: values_told_def)

fun write_cb :: "body_storage \<Rightarrow> callback" where
  "write_cb Ignore_body = Ignore_cb"
| "write_cb Inline_body = Inline_cb"
| "write_cb (To_string s) = Write_string_cb s"
| "write_cb (To_ostream s) = Write_stream_cb s"
| "write_cb (To_function f) = User_cb f"

fun read_cb :: "body_provider \<Rightarrow> callback" where
  "read_cb No_body = No_body_cb"
| "read_cb (From_string s) = Read_string_cb s"
| "read_cb (From_istream s) = Read_stream_cb s"
| "read_cb (From_function f) = User_cb f"

lemma set_write_cb_eq: "set_write_cb lib number store h = set_writefunction lib (number (write_cb store)) h"
  by (cases store) (simp_all add: set_write_cb_def)

definition read_calls :: "body_provider \<Rightarrow> curl_call list" where
  "read_calls b = (if b = No_body then [] else [Setopt 46 (V_long 1)]) @
     (case b of From_string s \<Rightarrow> [Setopt 30115 (V_off (int (length s)))] | _ \<Rightarrow> []) @
     [Setopt 20012 V_trampoline, Setopt 10009 V_self]"

definition auth_calls :: "string \<Rightarrow> curl_call list" where
  "auth_calls user =
     (if user = [] then []
      else if CHR '':'' \<in> set user then
        [Setopt 10174 (V_string (c_str (tl (dropWhile (\<lambda>c. c \<noteq> CHR '':'') user)))),
         Setopt 10173 (V_string (c_str (takeWhile (\<lambda>c. c \<noteq> CHR '':'') user)))]
      else [Setopt 10173 (V_string (c_str user))])"

abbreviation done_ok :: "curl_call list \<Rightarrow> (curl_call \<times> int) list" where
  "done_ok \<equiv> map (\<lambda>c. (c, 0))"

lemma set_read_cb_accepts:
  "accepts lib \<Longrightarrow> set_read_cb lib number b h =
     (None, h\<lparr>m_read_callback := Some (number (read_cb b)), calls := calls h @ done_ok (read_calls b)\<rparr>)"
  by (cases b) (simp_all add: set_read_cb_def setters easy_accepts read_calls_def)

lemma set_auth_accepts:
  assumes "accepts lib"
  shows "set_auth_options lib user h = (None, h\<lparr>calls := calls h @ done_ok (auth_calls user)\<rparr>)"
proof (cases "find_if ((=) (CHR '':'')) user")
  case None
  then have "CHR '':'' \<notin> set user" by auto
  with assms None show ?thesis
    by (simp add: set_auth_options_def setters easy_accepts auth_calls_def del: find_if_None_iff)
next
  case (Some pos)
  note f = find_if_takeWhile [OF Some]
  then have "CHR '':'' \<in> set user" by (metis nth_mem)
  moreover have "take pos user = takeWhile (\<lambda>c. c \<noteq> CHR '':'') user" "drop (pos + 1) user = tl (dropWhile (\<lambda>c. c \<noteq> CHR '':'') user)"
    using f by (simp_all add: drop_Suc tl_drop [symmetric] eq_commute [of "CHR '':''"])
  ultimately show ?thesis using assms Some
    by (auto simp: set_auth_options_def setters easy_accepts auth_calls_def)
qed

lemma set_cookies_accepts:
  assumes "accepts lib" "list_all (\<lambda>c. cookie_to_string c \<noteq> None) cs"
  shows "set_cookies lib cs h = Some (None, h\<lparr>calls := calls h @
    done_ok (map (\<lambda>c. Setopt 10135 (V_string (c_str (the (cookie_to_string c))))) cs)\<rparr>)"
  using assms(2)
  by (induction cs arbitrary: h) (auto simp: setters easy_accepts [OF assms(1)])

lemma append_all_holds:
  assumes "append_spec app" "holds hp l ns"
  shows "(\<exists>hp'. append_all app free es l hp = Some (Inl Bad_alloc, hp')) \<or>
    (\<exists>l' hp' ns'. append_all app free es l hp = Some (Inr l', hp') \<and> holds hp' l' (ns @ ns') \<and>
       map snd ns' = map (\<lambda>e. c_str (header_text e)) es)"
  using assms(2)
proof (induction es arbitrary: l hp ns)
  case (Cons e es)
  let ?s = "c_str (header_text e)"
  have i: "inserted app hp (slist_append app l ?s hp) ns ?s []"
    using append_holds [OF assms(1) Cons.prems] by (simp add: slist_append_def)
  show ?case
  proof (cases "fst (app hp None ?s) = None")
    case True
    with i show ?thesis by (simp add: inserted_def)
  next
    case False
    with i obtain a l' hp' where a: "slist_append app l ?s hp = Some (Inr (Some a, l'), hp')" "holds hp' l' (ns @ [(a, ?s)])"
      by (auto simp: inserted_def)
    from Cons.IH [OF a(2)] show ?thesis
    proof (elim disjE exE conjE)
      fix l'' hp'' ns'
      assume "append_all app free es l' hp' = Some (Inr l'', hp'')" "holds hp'' l'' ((ns @ [(a, ?s)]) @ ns')"
        "map snd ns' = map (\<lambda>e. c_str (header_text e)) es"
      with a(1) show ?thesis by (intro disjI2 exI [of _ l''] exI [of _ hp''] exI [of _ "(a, ?s) # ns'"]) simp
    qed (use a(1) in simp)
  qed
qed simp

definition front_calls :: "http_request \<Rightarrow> curl_call list" where
  "front_calls req = [Setopt 20079 V_trampoline, Setopt 10029 V_self, Setopt 20011 V_trampoline, Setopt 10001 V_self,
     Setopt 10036 (V_string (c_str (request_method req))), Setopt 10002 (V_string (c_str (to_string (req_url req))))]"

definition back_calls :: "http_request \<Rightarrow> slist \<Rightarrow> curl_call list" where
  "back_calls req l = Setopt 10023 (V_slist (m_first_node l)) # read_calls (req_body req) @
     [Setopt 52 (V_long (if follow_redirects req then 1 else 0)), Setopt 41 (V_long (if verbose req then 1 else 0)),
      Setopt 155 (V_long (timeout req)), Setopt 156 (V_long (timeout_connect req))] @
     auth_calls (m_auth (req_url req)) @ [Setopt 10031 (V_string [])]"

lemma prepare_front_accepts:
  "accepts lib \<Longrightarrow> prepare_front lib number req store h =
     (None, h\<lparr>m_header_callback := Some (number Header_cb), m_write_callback := Some (number (write_cb store)),
        calls := calls h @ done_ok (front_calls req)\<rparr>)"
  by (simp add: prepare_front_def set_write_cb_eq setters easy_accepts front_calls_def)

lemma prepare_back_accepts:
  "accepts lib \<Longrightarrow> prepare_back lib number req l h =
     (None, h\<lparr>m_owned_slists := (10023, l) # filter (\<lambda>(o', _). o' \<noteq> 10023) (m_owned_slists h),
        m_read_callback := Some (number (read_cb (req_body req))),
        m_flags := if verbose req then m_flags h OR flag_verbose else m_flags h AND NOT flag_verbose,
        calls := calls h @ done_ok (back_calls req l)\<rparr>)"
  by (simp add: prepare_back_def set_read_cb_accepts set_auth_accepts setters easy_accepts back_calls_def)

lemma options_last:
  assumes "list_all (\<lambda>c. \<exists>o' v. c = Setopt o' v) ys"
  shows "options (cs @ done_ok ys) opt = (if values_told opt (done_ok ys) = [] then options cs opt else Some (last (values_told opt (done_ok ys))))"
  using assms
proof (induction ys rule: rev_induct)
  case (snoc y ys)
  then obtain o' v where "y = Setopt o' v" by auto
  with snoc show ?case by (auto simp flip: append_assoc)
qed simp

lemma values_read [simp]:
  "values_told opt (done_ok (read_calls b)) = (if opt = 46 \<and> b \<noteq> No_body then [V_long 1] else []) @
     (if opt = 30115 then case b of From_string s \<Rightarrow> [V_off (int (length s))] | _ \<Rightarrow> [] else []) @
     (if opt = 20012 then [V_trampoline] else []) @ (if opt = 10009 then [V_self] else [])"
  by (cases b) (auto simp: read_calls_def)

lemma values_auth [simp]:
  "values_told opt (done_ok (auth_calls user)) = (if user = [] then []
     else (if opt = 10174 \<and> CHR '':'' \<in> set user then [V_string (c_str (tl (dropWhile (\<lambda>c. c \<noteq> CHR '':'') user)))] else []) @
       (if opt = 10173 then [V_string (c_str (takeWhile (\<lambda>c. c \<noteq> CHR '':'') user))] else []))"
proof (cases "CHR '':'' \<in> set user")
  case False
  then have "\<forall>c \<in> set user. c \<noteq> CHR '':''" by blast
  with False show ?thesis by (simp add: auth_calls_def takeWhile_eq_all_conv [THEN iffD2])
qed (auto simp: auth_calls_def)

lemma all_setopt: "list_all (\<lambda>c. \<exists>o' v. c = Setopt o' v) (front_calls req @ back_calls req l)"
  by (simp add: front_calls_def back_calls_def read_calls_def auth_calls_def split: body_provider.splits)

definition cookie_calls :: "cookie list \<Rightarrow> curl_call list" where
  "cookie_calls cs = map (\<lambda>c. Setopt 10135 (V_string (c_str (the (cookie_to_string c))))) cs"

lemma values_cookies [simp]:
  "values_told opt (done_ok (cookie_calls cs)) =
     (if opt = 10135 then map (\<lambda>c. V_string (c_str (the (cookie_to_string c)))) cs else [])"
  by (induction cs) (auto simp: cookie_calls_def)

lemma all_setopt_cookies: "list_all (\<lambda>c. \<exists>o' v. c = Setopt o' v) (cookie_calls cs)"
  by (auto simp: cookie_calls_def list_all_iff)

text \<open>
  C35: When libcurl accepts every option: either \<open>curl_slist_append\<close> fails and \<open>std::bad_alloc\<close> is
  thrown, or the handle returns with the callbacks installed and libcurl told the method, the
  printed url, the header texts in order, the upload flag exactly for requests with a body, the size of
  a body that is a string, whether to follow redirects, the timeouts, the user name and, when there is
  a colon, the password after the first one (otherwise the password is left as it was), and every
  cookie in order.
  \<open>CURLOPT_NOBODY\<close> (44) is never told, also for \<open>HEAD\<close>.
\<close>

theorem request_configures_transfer:
  assumes "accepts lib" "append_spec app" "list_all (\<lambda>c. cookie_to_string c \<noteq> None) (req_cookies req)"
  shows "(\<exists>h' hp'. prepare_handle lib app free number req store h hp = Some ((Some Bad_alloc, h'), hp')) \<or>
    (\<exists>h' hp' l ns. prepare_handle lib app free number req store h hp = Some ((None, h'), hp') \<and>
       holds hp' l ns \<and> map snd ns = map (\<lambda>e. c_str (header_text e)) (req_headers req) \<and>
       m_header_callback h' = Some (number Header_cb) \<and> m_write_callback h' = Some (number (write_cb store)) \<and>
       m_read_callback h' = Some (number (read_cb (req_body req))) \<and> is_verbose h' = verbose req \<and>
       options (calls h') 10036 = Some (V_string (c_str (request_method req))) \<and>
       options (calls h') 10002 = Some (V_string (c_str (to_string (req_url req)))) \<and>
       options (calls h') 10023 = Some (V_slist (m_first_node l)) \<and>
       options (calls h') 46 = (if req_body req = No_body then options (calls h) 46 else Some (V_long 1)) \<and>
       options (calls h') 155 = Some (V_long (timeout req)) \<and> options (calls h') 156 = Some (V_long (timeout_connect req)) \<and>
       (m_auth (req_url req) \<noteq> [] \<longrightarrow>
          options (calls h') 10173 = Some (V_string (c_str (takeWhile (\<lambda>c. c \<noteq> CHR '':'') (m_auth (req_url req)))))) \<and>
       options (calls h') 10174 = (if CHR '':'' \<in> set (m_auth (req_url req))
          then Some (V_string (c_str (tl (dropWhile (\<lambda>c. c \<noteq> CHR '':'') (m_auth (req_url req)))))) else options (calls h) 10174) \<and>
       options (calls h') 52 = Some (V_long (if follow_redirects req then 1 else 0)) \<and>
       (\<forall>body. req_body req = From_string body \<longrightarrow> options (calls h') 30115 = Some (V_off (int (length body)))) \<and>
       options (calls h') 44 = options (calls h) 44 \<and>
       values_told 10135 (calls h') = values_told 10135 (calls h) @
         map (\<lambda>c. V_string (c_str (the (cookie_to_string c)))) (req_cookies req))"
proof -
  define h1 where "h1 = h\<lparr>m_header_callback := Some (number Header_cb), m_write_callback := Some (number (write_cb store)),
        calls := calls h @ done_ok (front_calls req)\<rparr>"
  have front: "prepare_front lib number req store h = (None, h1)" by (simp add: prepare_front_accepts [OF assms(1)] h1_def)
  have "holds hp slist_empty []" by (simp add: holds_def slist_empty_def)
  from append_all_holds [OF assms(2) this, of free "req_headers req"] show ?thesis
  proof (elim disjE exE conjE)
    fix l hp' ns
    assume a: "append_all app free (req_headers req) slist_empty hp = Some (Inr l, hp')" "holds hp' l ([] @ ns)"
      "map snd ns = map (\<lambda>e. c_str (header_text e)) (req_headers req)"
    define ys where "ys = front_calls req @ back_calls req l"
    obtain h2 where b: "prepare_back lib number req l h1 = (None, h2)" and h2: "calls h2 = calls h @ done_ok ys"
      "m_header_callback h2 = Some (number Header_cb)" "m_write_callback h2 = Some (number (write_cb store))"
      "m_read_callback h2 = Some (number (read_cb (req_body req)))" "is_verbose h2 = verbose req"
      using flag_algebra(11,12) [of "m_flags h1"]
      by (simp add: prepare_back_accepts [OF assms(1)] h1_def ys_def is_verbose_def flag_values)
    define h3 where "h3 = h2\<lparr>calls := calls h2 @ done_ok (cookie_calls (req_cookies req))\<rparr>"
    define zs where "zs = ys @ cookie_calls (req_cookies req)"
    have c3: "calls h3 = calls h @ done_ok zs" by (simp add: h3_def h2(1) zs_def)
    have "prepare_handle lib app free number req store h hp = Some ((None, h3), hp')"
      by (simp add: prepare_handle_def front a b set_cookies_accepts [OF assms(1,3)] h3_def cookie_calls_def)
    moreover have "m_header_callback h3 = Some (number Header_cb)" "m_write_callback h3 = Some (number (write_cb store))"
      "m_read_callback h3 = Some (number (read_cb (req_body req)))" "is_verbose h3 = verbose req"
      using h2 by (simp_all add: h3_def is_verbose_def)
    moreover have o: "options (calls h3) opt = (if values_told opt (done_ok zs) = [] then options (calls h) opt
        else Some (last (values_told opt (done_ok zs))))" for opt
      unfolding c3 by (rule options_last) (use all_setopt all_setopt_cookies in \<open>auto simp: zs_def ys_def\<close>)
    moreover have "values_told 10135 (calls h3) = values_told 10135 (calls h) @
         map (\<lambda>c. V_string (c_str (the (cookie_to_string c)))) (req_cookies req)"
      by (simp add: c3 zs_def ys_def front_calls_def back_calls_def)
    moreover have "values_told opt (done_ok zs) = values_told opt (done_ok ys)" if "opt \<noteq> 10135" for opt
      using that by (simp add: zs_def)
    ultimately show ?thesis using a(2,3)
      by (intro disjI2 exI [of _ h3] exI [of _ hp'] exI [of _ l] exI [of _ ns])
        (simp add: ys_def front_calls_def back_calls_def)
  qed (simp add: prepare_handle_def front)
qed

definition request_example :: http_request where
  "request_example = (make_head (uri_empty\<lparr>m_scheme := ''http'', m_host := ''h'', m_auth := ''u:p:q''\<rparr>))\<lparr>req_headers := [(''A'', [])]\<rparr>"

lemma request_example_runs:
  "map_option (\<lambda>r. fst (fst r)) (prepare_handle (\<lambda>_ _. 0) small_append small_free (\<lambda>_. 7) request_example Ignore_body handle_blank Map.empty)
    = Some None"
  by code_simp

theorem request_configures_transfer_witness:
  "\<exists>h hp l ns. prepare_handle (\<lambda>_ _. 0) small_append small_free (\<lambda>_. 7) request_example Ignore_body handle_blank Map.empty = Some ((None, h), hp) \<and>
     options (calls h) 10173 = Some (V_string ''u'') \<and> options (calls h) 10174 = Some (V_string ''p:q'') \<and> options (calls h) 10002 = Some (V_string ''http://u:p:q@h'') \<and>
     holds hp l ns \<and> map snd ns = [''A;''] \<and> options (calls h) 44 = None"
proof -
  let ?p = "prepare_handle (\<lambda>_ _. 0) small_append small_free (\<lambda>_. 7) request_example Ignore_body handle_blank Map.empty"
  have v: "m_auth (req_url request_example) = ''u:p:q''" "to_string (req_url request_example) = ''http://u:p:q@h''"
    "req_headers request_example = [(''A'', [])]" "req_cookies request_example = []" "options (calls handle_blank) 44 = None"
    by (simp_all add: request_example_def make_head_def http_request_blank_def to_string_def uri_empty_def handle_blank_def)
  have "accepts (\<lambda>_ _. 0)" "list_all (\<lambda>c. cookie_to_string c \<noteq> None) (req_cookies request_example)"
    by (simp_all add: accepts_def v)
  from request_configures_transfer [OF this(1) small_append_spec this(2), of small_free "\<lambda>_. 7" Ignore_body handle_blank Map.empty]
  show ?thesis
  proof (elim disjE exE conjE)
    fix h' hp' assume "?p = Some ((Some Bad_alloc, h'), hp')"
    with request_example_runs show ?thesis by simp
  next
    fix h' hp' l ns
    assume *: "?p = Some ((None, h'), hp')" "holds hp' l ns" "options (calls h') 44 = options (calls handle_blank) 44"
      "map snd ns = map (\<lambda>e. c_str (header_text e)) (req_headers request_example)"
      "m_auth (req_url request_example) \<noteq> [] \<longrightarrow>
        options (calls h') 10173 = Some (V_string (c_str (takeWhile (\<lambda>c. c \<noteq> CHR '':'') (m_auth (req_url request_example)))))"
      "options (calls h') 10174 = (if CHR '':'' \<in> set (m_auth (req_url request_example))
        then Some (V_string (c_str (tl (dropWhile (\<lambda>c. c \<noteq> CHR '':'') (m_auth (req_url request_example)))))) else options (calls handle_blank) 10174)"
      "options (calls h') 10002 = Some (V_string (c_str (to_string (req_url request_example))))"
    show ?thesis
      by (intro exI [of _ h'] exI [of _ hp'] exI [of _ l] exI [of _ ns] conjI) (use * in \<open>simp_all add: v c_str_def header_text_def\<close>)
  qed
qed

end
