(* ===== verification/Ws_Frame.thy ===== *)
theory Ws_Frame
  imports Cpp_Std
begin

text \<open>
  The wire format of \<open>src/curl/websocket.cpp\<close>: opcodes (\<open>websocket.h\<close>), \<open>get_be\<close> and \<open>set_be\<close>,
  and the bytes that \<open>websocket_state::send_frame\<close> puts into the queue. An independent decoder
  of RFC 6455 section 5.2 reads back what was written.
\<close>

subsection \<open>Opcodes\<close>

text \<open>The enumerators are bits of an octet and are combined, so an opcode is the octet.\<close>

type_synonym opcode = u8

definition op_continuation :: opcode where "op_continuation = 0x00"
definition op_text :: opcode where "op_text = 0x01"
definition op_binary :: opcode where "op_binary = 0x02"
definition op_close :: opcode where "op_close = 0x08"
definition op_ping :: opcode where "op_ping = 0x09"
definition op_pong :: opcode where "op_pong = 0x0A"
definition op_compressed :: opcode where "op_compressed = 0x40"
definition op_fin :: opcode where "op_fin = 0x80"

lemmas opcode_defs = op_continuation_def op_text_def op_binary_def op_close_def op_ping_def
  op_pong_def op_compressed_def op_fin_def

definition op_or :: "opcode \<Rightarrow> opcode \<Rightarrow> opcode" where
  "op_or lhs rhs = lhs OR rhs"

definition op_and :: "opcode \<Rightarrow> opcode \<Rightarrow> opcode" where
  "op_and lhs rhs = lhs AND rhs"

definition op_not :: "opcode \<Rightarrow> bool" where
  "op_not lhs \<longleftrightarrow> lhs = op_continuation"

definition clean_op :: "opcode \<Rightarrow> opcode" where
  "clean_op op = op AND 0x0f"

subsection \<open>Big endian integers\<close>

definition get_be :: "bytes \<Rightarrow> 'a::len word" where
  "get_be ptr = foldl (\<lambda>acc b. push_bit 8 acc OR ucast b) 0 ptr"

definition set_be :: "nat \<Rightarrow> 'a::len word \<Rightarrow> bytes" where
  "set_be n val = map (\<lambda>i. ucast (drop_bit (8 * (n - 1 - i)) val)) [0..<n]"

definition get_be16 :: "bytes \<Rightarrow> u16" where
  "get_be16 ptr = get_be (take 2 ptr)"

definition get_be64 :: "bytes \<Rightarrow> u64" where
  "get_be64 ptr = get_be (take 8 ptr)"

definition set_be16 :: "u16 \<Rightarrow> bytes" where
  "set_be16 val = set_be 2 val"

definition set_be64 :: "u64 \<Rightarrow> bytes" where
  "set_be64 val = set_be 8 val"

lemma length_set_be [simp]: "length (set_be16 v) = 2" "length (set_be64 w) = 8"
  by (simp_all add: set_be16_def set_be64_def set_be_def)


lemma set_be_Suc: "set_be (Suc n) v = set_be n (drop_bit 8 v) @ [ucast v]"
  by (auto simp: set_be_def intro!: arg_cong [where f = "\<lambda>k. ucast (drop_bit k v)"])

text \<open>The value of an octet string, most significant octet first, as a number.\<close>

definition be_nat :: "bytes \<Rightarrow> nat" where
  "be_nat bs = foldl (\<lambda>acc b. 256 * acc + unat b) 0 bs"

lemma be_nat_snoc: "be_nat (bs @ [b]) = 256 * be_nat bs + unat b"
  by (simp add: be_nat_def)

lemma be_nat_set_be: "be_nat (set_be n v) = unat v mod 256 ^ n"
proof (induction n arbitrary: v)
  case (Suc n)
  have "unat (ucast v :: u8) = unat v mod 256"
    by (simp add: unsigned_ucast_eq take_bit_eq_mod)
  moreover have "unat (drop_bit 8 v) = unat v div 256" using unat_drop_bit_eq [of 8 v] by (simp only: drop_bit_eq_div [where 'a = nat]) simp
  ultimately have "be_nat (set_be (Suc n) v) = 256 * (unat v div 256 mod 256 ^ n) + unat v mod 256"
    by (simp add: set_be_Suc be_nat_snoc Suc)
  also have "\<dots> = unat v mod 256 ^ Suc n" by (simp add: mod_mult2_eq)
  finally show ?case .
qed (simp add: be_nat_def set_be_def)

lemma be_nat_set_be16: "be_nat (set_be16 v) = unat v"
  using unsigned_less [of v, where 'a = nat] by (simp add: set_be16_def be_nat_set_be)

lemma be_nat_set_be64: "be_nat (set_be64 v) = unat v"
  using unsigned_less [of v, where 'a = nat] by (simp add: set_be64_def be_nat_set_be)

lemma get_be_eq: "get_be bs = (word_of_nat (be_nat bs) :: 'a::len word)"
proof (induction bs rule: rev_induct)
  case (snoc b bs)
  have "(get_be (bs @ [b]) :: 'a word) = push_bit 8 (get_be bs) OR ucast b" by (simp add: get_be_def)
  also have "\<dots> = push_bit 8 (get_be bs) + ucast b"
    by (rule disjunctive_add_eq_or [symmetric]) (auto simp: bit_eq_iff bit_simps)
  also have "ucast b = (word_of_nat (unat b) :: 'a word)" by simp
  finally show ?case by (simp add: snoc be_nat_snoc push_bit_eq_mult mult.commute)
qed (simp add: get_be_def be_nat_def)

lemma be_nat_less: "be_nat bs < 256 ^ length bs"
proof (induction bs rule: rev_induct)
  case (snoc b bs)
  then have "256 * be_nat bs + unat b < 256 * (be_nat bs + 1)" by simp
  also have "\<dots> \<le> 256 * 256 ^ length bs" using snoc by (intro mult_le_mono) simp_all
  finally show ?case by (simp add: be_nat_snoc)
qed (simp add: be_nat_def)

lemma unat_get_be16: "2 \<le> length p \<Longrightarrow> unat (get_be16 p) = be_nat (take 2 p)"
  using be_nat_less [of "take 2 p"] by (simp add: get_be16_def get_be_eq unat_of_nat take_bit_eq_mod)

lemma unat_get_be64: "8 \<le> length p \<Longrightarrow> unat (get_be64 p) = be_nat (take 8 p)"
  using be_nat_less [of "take 8 p"] by (simp add: get_be64_def get_be_eq unat_of_nat take_bit_eq_mod)

lemma get_set_be16 [simp]: "get_be16 (set_be16 v @ r) = v"
  by (simp add: word_unat_eq_iff unat_get_be16 be_nat_set_be16)

lemma get_set_be64 [simp]: "get_be64 (set_be64 v @ r) = v"
  by (simp add: word_unat_eq_iff unat_get_be64 be_nat_set_be64)

subsection \<open>What \<open>send_frame\<close> writes\<close>

definition apply_mask :: "bytes \<Rightarrow> bytes \<Rightarrow> bytes" where
  "apply_mask masking_key buf = map (\<lambda>i. buf ! i XOR masking_key ! (i mod 4)) [0..<length buf]"

text \<open>The second octet and the length octets after it, before \<open>0x80\<close> is set in the former.\<close>

definition length_octets :: "nat \<Rightarrow> bytes" where
  "length_octets n = (if n > 65535 then 127 # set_be64 (word_of_nat n)
     else if n > 125 then 126 # set_be16 (word_of_nat n)
     else [word_of_nat n])"

definition encode_frame :: "opcode \<Rightarrow> bytes \<Rightarrow> bytes \<Rightarrow> bytes" where
  "encode_frame op masking_key buf =
     (let len = length_octets (length buf)
      in op # (hd len OR 0x80) # tl len @ masking_key @ apply_mask masking_key buf)"

subsection \<open>The format of RFC 6455\<close>

text \<open>
  A decoder after section 5.2. It takes the first frame off a stream: final bit, reserved
  bits, opcode, whether the frame was masked, and the unmasked payload; then the rest. Longer
  forms of a length than needed, and a 64 bit length with its top bit set, are refused.
\<close>

record rfc_frame =
  rfc_fin :: bool
  rfc_rsv :: nat
  rfc_code :: nat
  rfc_masked :: bool
  rfc_payload :: bytes

definition rfc_length :: "bytes \<Rightarrow> (nat \<times> bytes) option" where
  "rfc_length bs = (case bs of [] \<Rightarrow> None | b # r \<Rightarrow>
     let n = unat b mod 128 in
     if n < 126 then Some (n, r)
     else let k = (if n = 126 then 2 else 8); m = be_nat (take k r) in
       if length r < k \<or> m < (if n = 126 then 126 else 65536) \<or> m \<ge> 2 ^ 63 then None
       else Some (m, drop k r))"

definition rfc_decode :: "bytes \<Rightarrow> (rfc_frame \<times> bytes) option" where
  "rfc_decode bs = (case bs of a # b # r \<Rightarrow>
       (case rfc_length (b # r) of None \<Rightarrow> None | Some (n, r) \<Rightarrow>
         let m = (unat b \<ge> 128); key = (if m then take 4 r else [0, 0, 0, 0]); r = (if m then drop 4 r else r) in
         if length key < 4 \<or> length r < n then None
         else Some (\<lparr>rfc_fin = (unat a \<ge> 128), rfc_rsv = unat a div 16 mod 8, rfc_code = unat a mod 16, rfc_masked = m,
            rfc_payload = map2 (XOR) (take n r) (concat (replicate (n div 4 + 1) key))\<rparr>, drop n r))
     | _ \<Rightarrow> None)"

lemma key_stream:
  assumes "length key = 4" "i < 4 * k"
  shows "concat (replicate k key) ! i = key ! (i mod 4)"
  using assms(2)
proof (induction k arbitrary: i)
  case (Suc k)
  show ?case
  proof (cases "i < 4")
    case False
    then have "concat (replicate (Suc k) key) ! i = concat (replicate k key) ! (i - 4)"
      using assms(1) by (simp add: nth_append)
    also have "\<dots> = key ! ((i - 4) mod 4)" using Suc False by simp
    also have "(i - 4) mod 4 = i mod 4" using False by (simp add: le_mod_geq)
    finally show ?thesis .
  qed (use assms(1) in \<open>simp add: nth_append\<close>)
qed simp

lemma apply_mask_xor:
  assumes "length key = 4"
  shows "map2 (XOR) (apply_mask key buf) (concat (replicate (length buf div 4 + 1) key)) = buf"
proof (rule nth_equalityI)
  have l: "length (concat (replicate k key)) = 4 * k" for k using assms by (induction k) auto
  have le: "length buf < 4 * (length buf div 4 + 1)" by simp
  then show "length (map2 (XOR) (apply_mask key buf) (concat (replicate (length buf div 4 + 1) key))) = length buf"
    using l [of "length buf div 4 + 1"] by (simp add: apply_mask_def del: concat_replicate_trivial replicate.simps)
  fix i assume "i < length (map2 (XOR) (apply_mask key buf) (concat (replicate (length buf div 4 + 1) key)))"
  then have i: "i < length buf" by (simp add: apply_mask_def)
  then have "map2 (XOR) (apply_mask key buf) (concat (replicate (length buf div 4 + 1) key)) ! i
      = apply_mask key buf ! i XOR key ! (i mod 4)"
    using le l [of "length buf div 4 + 1"] key_stream [OF assms, of i "length buf div 4 + 1"]
    by (simp add: apply_mask_def del: replicate.simps)
  also have "\<dots> = buf ! i" using i by (simp add: apply_mask_def xor.assoc)
  finally show "map2 (XOR) (apply_mask key buf) (concat (replicate (length buf div 4 + 1) key)) ! i = buf ! i" .
qed


lemma rfc_length_octets:
  assumes "n < 2 ^ 63"
  shows "rfc_length (hd (length_octets n) # tl (length_octets n) @ r) = Some (n, r)"
    and "rfc_length ((hd (length_octets n) OR 0x80) # tl (length_octets n) @ r) = Some (n, r)"
    and "unat (hd (length_octets n)) < 128" and "unat (hd (length_octets n) OR 0x80) \<ge> 128"
proof -
  have top: "unat (b OR 0x80) = unat b + 128" if "unat b < 128" for b :: u8
  proof -
    have "b AND 0x80 = 0"
    proof -
      have c: "bit (0x80 :: u8) n \<longleftrightarrow> n = 7" for n
        using bit_exp_iff [of 7 n, where 'a = u8] by auto
      have "\<not> bit (unat b) 7" using that by (simp add: bit_iff_odd)
      then have "\<not> bit b 7" by (simp add: bit_unsigned_iff)
      then have "bit (b AND 0x80) n = bit (0 :: u8) n" for n
        using c [of n] by (cases "n = 7") (simp_all add: bit_and_iff)
      then show ?thesis by (rule bit_eqI)
    qed
    then have "b OR 0x80 = b + 0x80" by (rule disjunctive_add_eq_or [symmetric])
    then show ?thesis using that by (simp add: unat_word_ariths)
  qed
  show "unat (hd (length_octets n)) < 128" by (simp add: length_octets_def unat_u8)
  note u = this
  then show "unat (hd (length_octets n) OR 0x80) \<ge> 128" by (simp add: top)
  have "unat (word_of_nat n :: u16) = n" if "n \<le> 65535" using that by (simp add: unat_of_nat take_bit_eq_mod)
  moreover have "unat (word_of_nat n :: u64) = n" using assms by (simp add: unat_of_nat take_bit_eq_mod)
  ultimately show l: "rfc_length (hd (length_octets n) # tl (length_octets n) @ r) = Some (n, r)"
    using assms by (auto simp: rfc_length_def length_octets_def be_nat_set_be16 be_nat_set_be64 unat_u8 Let_def)
  show "rfc_length ((hd (length_octets n) OR 0x80) # tl (length_octets n) @ r) = Some (n, r)"
    using l top [OF u] u by (simp add: rfc_length_def)
qed

lemma rfc_decode_encode:
  assumes "length key = 4" "length buf < 2 ^ 63"
  shows "rfc_decode (encode_frame op key buf @ rest) =
    Some (\<lparr>rfc_fin = (unat op \<ge> 128), rfc_rsv = unat op div 16 mod 8, rfc_code = unat op mod 16, rfc_masked = True, rfc_payload = buf\<rparr>, rest)"
proof -
  let ?len = "length_octets (length buf)" and ?m = "apply_mask key buf"
  have e: "encode_frame op key buf @ rest = op # (hd ?len OR 0x80) # tl ?len @ (key @ ?m @ rest)"
    by (simp add: encode_frame_def Let_def)
  have l: "length ?m = length buf" by (simp add: apply_mask_def)
  have r: "rfc_length ((hd ?len OR 0x80) # tl ?len @ (key @ ?m @ rest)) = Some (length buf, key @ ?m @ rest)"
    by (rule rfc_length_octets(2) [OF assms(2)])
  show ?thesis
    unfolding e rfc_decode_def using rfc_length_octets(4) [OF assms(2)] assms(1) l apply_mask_xor [OF assms(1), of buf]
    by (simp add: r Let_def)
qed

text \<open>
  C6: What \<open>send_frame\<close> puts on the wire is a frame of RFC 6455: the standard's decoder reads
  back the opcode and flags, finds the frame masked, its length in the shortest form, and gets
  the payload byte for byte, whatever the masking key and whatever follows.
\<close>

theorem encode_frame_is_rfc:
  assumes "length key = 4" "length buf < 2 ^ 63"
  shows "rfc_decode (encode_frame op key buf @ rest) =
    Some (\<lparr>rfc_fin = (unat op \<ge> 128), rfc_rsv = unat op div 16 mod 8, rfc_code = unat op mod 16, rfc_masked = True, rfc_payload = buf\<rparr>, rest)"
  using assms by (rule rfc_decode_encode)

theorem encode_frame_is_rfc_witness:
  "rfc_decode (encode_frame (op_or op_fin op_text) [1, 2, 3, 4] [0x48, 0x69, 0x21] @ [7]) =
    Some (\<lparr>rfc_fin = True, rfc_rsv = 0, rfc_code = 1, rfc_masked = True, rfc_payload = [0x48, 0x69, 0x21]\<rparr>, [7])"
  using encode_frame_is_rfc [of "[1, 2, 3, 4]" "[0x48, 0x69, 0x21]" "op_or op_fin op_text" "[7]"]
  by (simp add: op_or_def opcode_defs)

end
