(* ===== verification/Ws_State.thy ===== *)
theory Ws_State
  imports Ws_Frame Uri Utf8
begin

text \<open>
  \<open>src/curl/websocket.cpp\<close>: the state behind a \<open>websocket\<close> and every operation on it after
  the handshake, in the order of the source. The handshake itself is in \<open>Ws_Handshake\<close>.

  \<^item> Callbacks the user installs are calls into other code: a call is an entry of \<open>events\<close>,
    and what a callback does through the interface is a later operation. A callback field says
    only whether a callback is installed.
  \<^item> \<open>g_random\<close> and zlib are parameters, collected in \<open>env\<close>.
  \<^item> The send queue holds encoded frames with their callback. A frame that enters the queue is
    also recorded in \<open>events\<close>, so that statements can speak of the frames sent so far.
  \<^item> Each operation is one step, as if no two overlapped. \<open>close\<close>, the setters of callbacks and the handling
    of a frame hold the mutex; \<open>websocket::send_frame\<close>, the close of the destructor and that of the parser
    on a masked frame do not. \<open>late_send\<close> in \<open>Ws_Client\<close> is a send with another operation in between.
\<close>

subsection \<open>Surroundings\<close>

text \<open>
  zlib: from its state, the flush mode (does the window restart?), the input and the room for
  output, \<open>inflate\<close> and \<open>deflate\<close> give the return code (0 is \<open>Z_OK\<close>), the number of bytes
  taken, the bytes produced and the state after.
\<close>

type_synonym 'z flate = "'z \<Rightarrow> bytes \<Rightarrow> nat \<Rightarrow> int \<times> nat \<times> bytes \<times> 'z"

record 'z env =
  rng :: "nat \<Rightarrow> u8"
  zinflate :: "'z flate"
  zdeflate :: "bool \<Rightarrow> 'z flate"

record 'z z_stream =
  internal :: 'z
  avail_out :: nat

subsection \<open>The state\<close>

datatype cs = Init | Connect | Handshake | Open | Client_close | Server_close | Closed

text \<open>The callbacks that travel with a frame through the queue.\<close>

datatype send_cb =
    No_cb
  | Keep_state
  | Report_close bool u16 bytes
  | User_cb nat

datatype event =
    On_open int
  | On_close u16 bytes
  | On_message bytes bool
  | On_ping bytes
  | On_pong bytes
  | Sent nat bool
  | Queued opcode bytes

record 'z ws =
  last_url :: uri
  handshake_nonce :: string
  request_headers :: "(string \<times> string) list"
  response_headers :: "(string \<times> string) list"
  on_open :: bool
  on_close :: bool
  on_message :: bool
  on_ping :: bool
  on_pong :: bool
  fragment_was_compressed :: bool
  fragment_code :: opcode
  fragment_payload :: bytes
  fragment_validate_offset :: nat
  con_state :: cs
  utf8_mode :: mode
  pmce_enabled :: bool
  pmce_inflate :: "'z z_stream"
  pmce_deflate :: "'z z_stream"
  pmce_client_no_context_takeover :: bool
  parser_wanted_size :: nat
  parser_data :: bytes
  send_should_exit :: bool
  send_event :: bool
  send_queue :: "(bytes \<times> send_cb) list"
  drawn :: nat
  events :: "event list"

text \<open>The state a \<open>websocket_state\<close> has before the constructor of \<open>websocket\<close> fills in the headers.\<close>

definition initial_state :: "'z \<Rightarrow> 'z ws" where
  "initial_state z =
     \<lparr>last_url = uri_empty, handshake_nonce = [], request_headers = [], response_headers = [],
      on_open = False, on_close = False, on_message = False, on_ping = False, on_pong = False,
      fragment_was_compressed = False, fragment_code = op_continuation, fragment_payload = [],
      fragment_validate_offset = 0, con_state = Init, utf8_mode = Mode_pedantic, pmce_enabled = False,
      pmce_inflate = \<lparr>internal = z, avail_out = 0\<rparr>, pmce_deflate = \<lparr>internal = z, avail_out = 0\<rparr>,
      pmce_client_no_context_takeover = False, parser_wanted_size = 2, parser_data = [],
      send_should_exit = False, send_event = False, send_queue = [], drawn = 0, events = []\<rparr>"

text \<open>Surroundings for examples: a constant generator, and a zlib that copies.\<close>

definition copying_flate :: "'z flate" where
  "copying_flate z inp room = (0, min (length inp) room, take room inp, z)"

definition plain_env :: "unit env" where
  "plain_env = \<lparr>rng = (\<lambda>_. 7), zinflate = copying_flate, zdeflate = (\<lambda>_. copying_flate)\<rparr>"

definition emit :: "event \<Rightarrow> 'z ws \<Rightarrow> 'z ws" where
  "emit e s = s\<lparr>events := events s @ [e]\<rparr>"

definition random_key :: "'z env \<Rightarrow> 'z ws \<Rightarrow> bytes" where
  "random_key env s = map (\<lambda>i. rng env (drawn s + i)) [0..<4]"

lemma length_random_key [simp]: "length (random_key env s) = 4"
  by (simp add: random_key_def)

subsection \<open>Compression\<close>

text \<open>
  The loop of \<open>inflate_some\<close> and \<open>deflate_some\<close>: \<open>n\<close> is \<open>in.size()\<close>, \<open>rest\<close> the input still
  available. Output room that zlib leaves unused is zero.
\<close>

partial_function (option) flate_loop ::
  "'z flate \<Rightarrow> nat \<Rightarrow> bytes \<Rightarrow> bytes \<Rightarrow> 'z z_stream \<Rightarrow> (bool \<times> bytes \<times> 'z z_stream) option" where
  "flate_loop f n rest out z =
     (if rest = [] then Some (True, out, z)
      else
        let room = max (n * 2) (length out * 2) - length out in
        (case f (internal z) rest room of (res, used, produced, zs) \<Rightarrow>
           let out = out @ take room produced @ replicate (room - length produced) 0;
               z = z\<lparr>internal := zs, avail_out := room - length produced\<rparr>
           in if res \<noteq> 0 then Some (False, out, z) else flate_loop f n (drop used rest) out z))"

declare flate_loop.simps [code]

text \<open>
  \<open>out.resize(out.size() - avail_out)\<close>: the subtraction is in \<open>size_t\<close>; a size above the
  maximum throws \<open>std::length_error\<close>, which is a \<open>std::logic_error\<close>.
\<close>

definition flate_some :: "'z flate \<Rightarrow> bytes \<Rightarrow> bytes \<Rightarrow> 'z z_stream \<Rightarrow> (bool \<times> bytes \<times> 'z z_stream) outcome" where
  "flate_some f inp out z =
     (case flate_loop f (length inp) inp out z of
        None \<Rightarrow> None
      | Some (ok, out, z) \<Rightarrow>
          if \<not> ok then Ret (False, out, z)
          else if avail_out z > length out then Throw Logic_error
          else Ret (True, take (length out - avail_out z) out, z))"

definition inflate_some :: "'z env \<Rightarrow> bytes \<Rightarrow> bytes \<Rightarrow> 'z ws \<Rightarrow> (bool \<times> bytes \<times> 'z ws) outcome" where
  "inflate_some env inp out s =
     andthen (flate_some (zinflate env) inp out (pmce_inflate s))
       (\<lambda>(ok, out, z). Ret (ok, out, s\<lparr>pmce_inflate := z\<rparr>))"

definition deflate_some :: "'z env \<Rightarrow> bytes \<Rightarrow> bytes \<Rightarrow> 'z ws \<Rightarrow> (bool \<times> bytes \<times> 'z ws) outcome" where
  "deflate_some env inp out s =
     andthen (flate_some (zdeflate env (pmce_client_no_context_takeover s)) inp out (pmce_deflate s))
       (\<lambda>(ok, out, z). Ret (ok, out, s\<lparr>pmce_deflate := z\<rparr>))"

subsection \<open>Sending and closing\<close>

definition state_transition :: "cs \<Rightarrow> 'z ws \<Rightarrow> 'z ws" where
  "state_transition newstate s = s\<lparr>con_state := newstate\<rparr>"

text \<open>The second half of \<open>send_frame\<close>: encode, mask, queue.\<close>

definition enqueue_frame :: "'z env \<Rightarrow> opcode \<Rightarrow> bytes \<Rightarrow> send_cb \<Rightarrow> 'z ws \<Rightarrow> 'z ws" where
  "enqueue_frame env op buf cb s =
     emit (Queued op buf)
       (s\<lparr>drawn := drawn s + 4,
          send_queue := send_queue s @ [(encode_frame op (random_key env s) buf, cb)],
          send_event := True\<rparr>)"

definition send_frame :: "'z env \<Rightarrow> opcode \<Rightarrow> bytes \<Rightarrow> send_cb \<Rightarrow> 'z ws \<Rightarrow> 'z ws outcome" where
  "send_frame env op buf cb s =
     (let s = (if clean_op op = op_close \<and> con_state s = Open then state_transition Client_close s else s) in
      if pmce_enabled s \<and> (clean_op op = op_binary \<or> clean_op op = op_text) then
        andthen (deflate_some env buf [] s) (\<lambda>(ok, compressed, s).
          if \<not> ok then Throw Runtime_error
          else
            let compressed = (if length compressed > 4 then take (length compressed - 4) compressed else compressed)
            in Ret (enqueue_frame env (op_or op op_compressed) compressed cb s))
      else Ret (enqueue_frame env op buf cb s))"

definition close_payload :: "u16 \<Rightarrow> bytes \<Rightarrow> bytes" where
  "close_payload code reason = set_be16 code @ reason"

definition close_impl :: "'z env \<Rightarrow> u16 \<Rightarrow> bytes \<Rightarrow> 'z ws \<Rightarrow> 'z ws outcome" where
  "close_impl env code reason s =
     (if con_state s = Closed \<or> con_state s = Client_close then Ret s
      else if con_state s = Server_close then
        send_frame env (op_or op_fin op_close) (close_payload code reason) (Report_close (on_close s) code reason)
          (state_transition Closed s)
      else send_frame env (op_or op_fin op_close) (close_payload code reason) Keep_state s)"

definition protocol_error :: bytes where
  "protocol_error = bytes_of_string ''Protocol error''"

subsection \<open>Frames\<close>

definition call_on_message :: "bytes \<Rightarrow> bool \<Rightarrow> 'z ws \<Rightarrow> 'z ws" where
  "call_on_message payload binary s = (if on_message s then emit (On_message payload binary) s else s)"

definition close_code_refused :: "u16 \<Rightarrow> bool" where
  "close_code_refused code \<longleftrightarrow>
     code < 1000 \<or> code = 1004 \<or> code = 1005 \<or> code = 1006 \<or> (code \<ge> 1015 \<and> code < 3000) \<or> code \<ge> 5000"

definition handle_close_frame :: "'z env \<Rightarrow> opcode \<Rightarrow> bytes \<Rightarrow> 'z ws \<Rightarrow> 'z ws outcome" where
  "handle_close_frame env op payload s =
     (let code = (if length payload \<ge> 2 then get_be16 payload else 1000);
          reason = (if length payload \<ge> 2 then drop 2 payload else payload)
      in if con_state s = Client_close then
           Ret (state_transition Closed (if on_close s then emit (On_close code reason) s else s))
         else
           let s = state_transition Server_close s in
           if op_not (op_and op op_fin) \<or> length payload > 125 \<or> length payload = 1 then close_impl env 1002 protocol_error s
           else if fst (validate (utf8_mode s) reason) \<noteq> Valid then close_impl env 1007 (bytes_of_string ''Invalid utf-8'') s
           else if close_code_refused code then close_impl env 1002 protocol_error s
           else close_impl env code reason s)"

definition handle_ping_frame :: "'z env \<Rightarrow> opcode \<Rightarrow> bytes \<Rightarrow> 'z ws \<Rightarrow> 'z ws outcome" where
  "handle_ping_frame env op payload s =
     (if op_not (op_and op op_fin) \<or> length payload > 125 then close_impl env 1002 protocol_error s
      else if on_ping s then Ret (emit (On_ping payload) s)
      else send_frame env (op_or op_fin op_pong) payload Keep_state s)"

definition handle_pong_frame :: "'z env \<Rightarrow> opcode \<Rightarrow> bytes \<Rightarrow> 'z ws \<Rightarrow> 'z ws outcome" where
  "handle_pong_frame env op payload s =
     (if op_not (op_and op op_fin) \<or> length payload > 125 then close_impl env 1002 protocol_error s
      else Ret (if on_pong s then emit (On_pong payload) s else s))"

definition invalid_utf8 :: bytes where
  "invalid_utf8 = bytes_of_string ''Invalid utf8''"

definition is_compressed_op :: "opcode \<Rightarrow> bool" where
  "is_compressed_op op \<longleftrightarrow> op_and op op_compressed = op_compressed"

definition handle_text_frame :: "'z env \<Rightarrow> opcode \<Rightarrow> bytes \<Rightarrow> 'z ws \<Rightarrow> 'z ws outcome" where
  "handle_text_frame env op payload s =
     (if fragment_code s \<noteq> op_continuation then close_impl env 1002 protocol_error s
      else if op_not (op_and op op_fin) then
        let s = s\<lparr>fragment_code := op_text, fragment_was_compressed := is_compressed_op op, fragment_payload := payload\<rparr> in
        (case validate (utf8_mode s) payload of (r, last_valid) \<Rightarrow>
           if r = Invalid then close_impl env 1007 invalid_utf8 s
           else Ret (s\<lparr>fragment_validate_offset := last_valid\<rparr>))
      else if fst (validate (utf8_mode s) payload) \<noteq> Valid then close_impl env 1007 invalid_utf8 s
      else Ret (call_on_message payload False s))"

definition handle_binary_frame :: "'z env \<Rightarrow> opcode \<Rightarrow> bytes \<Rightarrow> 'z ws \<Rightarrow> 'z ws outcome" where
  "handle_binary_frame env op payload s =
     (if fragment_code s \<noteq> op_continuation then close_impl env 1002 protocol_error s
      else if op_not (op_and op op_fin) then
        Ret (s\<lparr>fragment_code := op_binary, fragment_was_compressed := is_compressed_op op, fragment_payload := payload,
               fragment_validate_offset := 0\<rparr>)
      else Ret (call_on_message payload True s))"

text \<open>A moved-from string is empty.\<close>

definition handle_continuation_frame :: "'z env \<Rightarrow> opcode \<Rightarrow> bytes \<Rightarrow> 'z ws \<Rightarrow> 'z ws outcome" where
  "handle_continuation_frame env op payload s =
     (if fragment_code s = op_continuation then close_impl env 1002 protocol_error s
      else
        let s = s\<lparr>fragment_payload := fragment_payload s @ payload\<rparr> in
        if \<not> op_not (op_and op op_fin) then
          let binary = (fragment_code s = op_binary); payload = fragment_payload s;
              s = s\<lparr>fragment_code := op_continuation, fragment_payload := []\<rparr>
          in if \<not> binary \<and> fst (validate (utf8_mode s) (drop (fragment_validate_offset s) payload)) \<noteq> Valid
             then close_impl env 1007 invalid_utf8 s
             else Ret (call_on_message payload binary s)
        else if fragment_code s \<noteq> op_binary then
          (case validate (utf8_mode s) (drop (fragment_validate_offset s) (fragment_payload s)) of (r, last_valid) \<Rightarrow>
             if r = Invalid then close_impl env 1007 invalid_utf8 s
             else Ret (s\<lparr>fragment_validate_offset := fragment_validate_offset s + last_valid\<rparr>))
        else Ret s)"

text \<open>The part of \<open>handle_frame\<close> that inflates a data frame; \<open>Inl\<close> is a frame to refuse.\<close>

definition decompress :: "'z env \<Rightarrow> opcode \<Rightarrow> bytes \<Rightarrow> 'z ws \<Rightarrow> ('z ws + bytes \<times> 'z ws) outcome" where
  "decompress env code payload s =
     andthen (if payload \<noteq> [] then inflate_some env payload [] s else Ret (True, [], s)) (\<lambda>(ok, decompressed, s).
       if \<not> ok then Ret (Inl s)
       else if op_and code op_fin = op_fin then
         andthen (inflate_some env [0x00, 0x00, 0xff, 0xff] decompressed s) (\<lambda>(ok, decompressed, s).
           if \<not> ok then Ret (Inl s) else Ret (Inr (decompressed, s)))
       else Ret (Inr (decompressed, s)))"

definition handle_data_frame :: "'z env \<Rightarrow> opcode \<Rightarrow> bytes \<Rightarrow> 'z ws \<Rightarrow> 'z ws outcome" where
  "handle_data_frame env code payload s =
     (if clean_op code = op_continuation then handle_continuation_frame env code payload s
      else if clean_op code = op_binary then handle_binary_frame env code payload s
      else handle_text_frame env code payload s)"

definition handle_frame :: "'z env \<Rightarrow> opcode \<Rightarrow> bytes \<Rightarrow> 'z ws \<Rightarrow> 'z ws outcome" where
  "handle_frame env code payload s =
     (if con_state s = Closed \<or> con_state s = Server_close then Ret s
      else
        let clean_code = clean_op code in
        if clean_code = op_close \<or> clean_code = op_ping \<or> clean_code = op_pong then
          if code AND 0x70 \<noteq> 0 then close_impl env 1002 protocol_error s
          else if clean_code = op_close then handle_close_frame env code payload s
          else if clean_code = op_ping then handle_ping_frame env code payload s
          else handle_pong_frame env code payload s
        else if clean_code = op_continuation \<or> clean_code = op_binary \<or> clean_code = op_text then
          if code AND 0x30 \<noteq> 0 \<or> (\<not> pmce_enabled s \<and> code AND 0x70 \<noteq> 0) then close_impl env 1002 protocol_error s
          else
            let is_compressed = (if clean_code = op_continuation then fragment_was_compressed s else is_compressed_op code) in
            if pmce_enabled s \<and> is_compressed then
              andthen (decompress env code payload s) (\<lambda>r. case r of
                  Inl s \<Rightarrow> close_impl env 1002 protocol_error s
                | Inr (payload, s) \<Rightarrow> handle_data_frame env code payload s)
            else handle_data_frame env code payload s
        else close_impl env 1002 protocol_error s)"

subsection \<open>The parser\<close>

definition raw_on_disconnect :: "'z ws \<Rightarrow> 'z ws" where
  "raw_on_disconnect s =
     (let old = con_state s; s = state_transition Closed s in
      if old = Closed \<or> old = Server_close then s
      else if on_close s then emit (On_close 1006 (bytes_of_string ''Connection lost'')) s else s)"

text \<open>
  The loop of \<open>raw_on_data_available\<close>. \<open>header_len + payload_len\<close> is a sum in 64 bits, so it
  can come out smaller than the header; \<open>erase\<close> then takes off that much.
\<close>

definition header_len :: "bytes \<Rightarrow> nat" where
  "header_len d = (let n = unat (d ! 1) mod 128 in
     2 + (if unat (d ! 1) \<ge> 128 then 4 else 0) + (if n \<ge> 126 then (if n = 127 then 8 else 2) else 0))"

definition payload_len :: "bytes \<Rightarrow> nat" where
  "payload_len d = (let n = unat (d ! 1) mod 128 in
     if n = 126 then unat (get_be16 (drop 2 d)) else if n = 127 then unat (get_be64 (drop 2 d)) else n)"

definition frame_len :: "bytes \<Rightarrow> nat" where
  "frame_len d = (header_len d + payload_len d) mod 2 ^ 64"

partial_function (option) parse_loop :: "'z env \<Rightarrow> 'z ws \<Rightarrow> 'z ws outcome" where
  "parse_loop env s =
     (let d = parser_data s; w = parser_wanted_size s in
      if length d < w then Ret s
      else
        let w1 = max w (header_len d) in
        if length d < w1 then parse_loop env (s\<lparr>parser_wanted_size := w1\<rparr>)
        else
          let w2 = max w1 (frame_len d) in
          if length d < w2 then parse_loop env (s\<lparr>parser_wanted_size := w2\<rparr>)
          else if unat (d ! 1) \<ge> 128 then close_impl env 1002 protocol_error (s\<lparr>parser_wanted_size := w2\<rparr>)
          else
            (case handle_frame env (d ! 0) (take (payload_len d) (drop (header_len d) d)) (s\<lparr>parser_wanted_size := w2\<rparr>) of
               None \<Rightarrow> None
             | Some (Inl e) \<Rightarrow> Throw e
             | Some (Inr s') \<Rightarrow> parse_loop env (s'\<lparr>parser_wanted_size := 2, parser_data := drop (frame_len d) d\<rparr>)))"

declare parse_loop.simps [code]

text \<open>What \<open>recv_raw\<close> gives: bytes, no more for now (negative), or the end of the stream (0).\<close>

datatype received = Bytes bytes | Try_again | End_of_stream

datatype callback_result = Cb_none | Cb_clear

definition raw_on_data_available :: "'z env \<Rightarrow> bool \<Rightarrow> received \<Rightarrow> 'z ws \<Rightarrow> (callback_result \<times> 'z ws) outcome" where
  "raw_on_data_available env cancelled res s =
     (if cancelled then Ret (Cb_clear, raw_on_disconnect s)
      else case res of
        End_of_stream \<Rightarrow>
          Ret (Cb_clear, raw_on_disconnect (s\<lparr>parser_data := parser_data s @ replicate (64 * 1024) 0\<rparr>))
      | Try_again \<Rightarrow> andthen (parse_loop env s) (\<lambda>s. Ret (Cb_none, s))
      | Bytes bs \<Rightarrow> andthen (parse_loop env (s\<lparr>parser_data := parser_data s @ bs\<rparr>)) (\<lambda>s. Ret (Cb_none, s)))"

subsection \<open>The sending task\<close>

definition run_cb :: "send_cb \<Rightarrow> bool \<Rightarrow> 'z ws \<Rightarrow> 'z ws" where
  "run_cb cb ok s = (case cb of
       Report_close has_cb code reason \<Rightarrow> if has_cb then emit (On_close code reason) s else s
     | User_cb i \<Rightarrow> emit (Sent i ok) s
     | _ \<Rightarrow> s)"

text \<open>One round of the inner loop of \<open>send_task\<close>; \<open>sent\<close> is what \<open>send_all\<close> returned.\<close>

definition send_step :: "nat \<Rightarrow> 'z ws \<Rightarrow> 'z ws" where
  "send_step sent s = (case send_queue s of
       [] \<Rightarrow> s\<lparr>send_event := False\<rparr>
     | (data, cb) # q \<Rightarrow> run_cb cb (sent = length data) (s\<lparr>send_queue := q\<rparr>))"

text \<open>The loop that empties the queue when the task ends.\<close>

definition drain_queue :: "'z ws \<Rightarrow> 'z ws" where
  "drain_queue s = fold (\<lambda>(_, cb). run_cb cb False) (send_queue s) (s\<lparr>send_queue := []\<rparr>)"

subsection \<open>The interface\<close>

definition ws_close :: "'z env \<Rightarrow> u16 \<Rightarrow> bytes \<Rightarrow> 'z ws \<Rightarrow> 'z ws outcome" where
  "ws_close env code reason s =
     (if fst (validate (utf8_mode s) reason) \<noteq> Valid then Ret s else close_impl env code reason s)"

definition ws_send_frame :: "'z env \<Rightarrow> opcode \<Rightarrow> bytes \<Rightarrow> send_cb \<Rightarrow> 'z ws \<Rightarrow> 'z ws outcome" where
  "ws_send_frame env op data cb s =
     (if con_state s \<noteq> Open then Ret (run_cb cb False s) else send_frame env op data cb s)"

definition ws_send where
  "ws_send env data binary cb = ws_send_frame env (op_or op_fin (if binary then op_binary else op_text)) data cb"
definition ws_send_binary where "ws_send_binary env data cb = ws_send_frame env (op_or op_fin op_binary) data cb"
definition ws_send_text where "ws_send_text env sv cb = ws_send_frame env (op_or op_fin op_text) sv cb"
definition ws_send_ping where "ws_send_ping env data cb = ws_send_frame env (op_or op_fin op_ping) data cb"
definition ws_send_pong where "ws_send_pong env data cb = ws_send_frame env (op_or op_fin op_pong) data cb"

definition set_on_open :: "bool \<Rightarrow> 'z ws \<Rightarrow> 'z ws" where "set_on_open cb s = s\<lparr>on_open := cb\<rparr>"
definition set_on_close :: "bool \<Rightarrow> 'z ws \<Rightarrow> 'z ws" where "set_on_close cb s = s\<lparr>on_close := cb\<rparr>"
definition set_on_message :: "bool \<Rightarrow> 'z ws \<Rightarrow> 'z ws" where "set_on_message cb s = s\<lparr>on_message := cb\<rparr>"
definition set_on_ping :: "bool \<Rightarrow> 'z ws \<Rightarrow> 'z ws" where "set_on_ping cb s = s\<lparr>on_ping := cb\<rparr>"
definition set_on_pong :: "bool \<Rightarrow> 'z ws \<Rightarrow> 'z ws" where "set_on_pong cb s = s\<lparr>on_pong := cb\<rparr>"
definition set_utf8_validation_mode :: "mode \<Rightarrow> 'z ws \<Rightarrow> 'z ws" where
  "set_utf8_validation_mode m s = s\<lparr>utf8_mode := m\<rparr>"

end
