(* ===== verification/Ws_Parser.thy ===== *)
theory Ws_Parser
  imports Ws_State "HOL-Library.Sublist"
begin

text \<open>
  The parser of \<open>raw_on_data_available\<close>: however the bytes of a stream of frames are cut into
  reads, the frames are handled once each, in order, with their payloads, and an incomplete
  frame at the end waits. The one thing that breaks it is a length near 2^64.
\<close>

subsection \<open>Handlers leave the parser alone\<close>

definition with_parser :: "nat \<Rightarrow> bytes \<Rightarrow> 'z ws \<Rightarrow> 'z ws" where
  "with_parser w d s = s\<lparr>parser_wanted_size := w, parser_data := d\<rparr>"

definition omap :: "('a \<Rightarrow> 'b) \<Rightarrow> 'a outcome \<Rightarrow> 'b outcome" where
  "omap f m = andthen m (\<lambda>x. Ret (f x))"

lemma omap_simps [simp]: "omap f None = None" "omap f (Throw e) = Throw e" "omap f (Ret x) = Ret (f x)"
  by (simp_all add: omap_def)

lemma andthen_omap: "andthen (omap f m) g = andthen m (\<lambda>x. g (f x))"
  by (simp add: omap_def andthen_def split: option.splits sum.splits)

lemma omap_andthen: "omap f (andthen m g) = andthen m (\<lambda>x. omap f (g x))"
  by (simp add: omap_def andthen_def split: option.splits sum.splits)

lemma omap_if: "omap f (if b then x else y) = (if b then omap f x else omap f y)"
  by simp

lemma with_parser_sel [frame_simps]:
  "con_state (with_parser w d s) = con_state s" "on_close (with_parser w d s) = on_close s"
  "on_ping (with_parser w d s) = on_ping s" "on_pong (with_parser w d s) = on_pong s"
  "on_message (with_parser w d s) = on_message s" "utf8_mode (with_parser w d s) = utf8_mode s"
  "fragment_code (with_parser w d s) = fragment_code s" "fragment_payload (with_parser w d s) = fragment_payload s"
  "fragment_validate_offset (with_parser w d s) = fragment_validate_offset s"
  "fragment_was_compressed (with_parser w d s) = fragment_was_compressed s"
  "pmce_enabled (with_parser w d s) = pmce_enabled s"
  "pmce_inflate (with_parser w d s) = pmce_inflate s" "pmce_deflate (with_parser w d s) = pmce_deflate s"
  "pmce_client_no_context_takeover (with_parser w d s) = pmce_client_no_context_takeover s"
  by (simp_all add: with_parser_def)

lemma parser_with_parser [simp]:
  "parser_data (with_parser w d s) = d" "parser_wanted_size (with_parser w d s) = w"
  "with_parser w d (with_parser w' d' s) = with_parser w d s"
  by (simp_all add: with_parser_def)

lemma omap_with_parser [simp]: "omap (with_parser w d) (omap (with_parser w' d') m) = omap (with_parser w d) m"
  by (simp add: omap_def andthen_def split: option.splits sum.splits)

lemma with_parser_pure [frame_simps]:
  "emit e (with_parser w d s) = with_parser w d (emit e s)"
  "state_transition c (with_parser w d s) = with_parser w d (state_transition c s)"
  "enqueue_frame env op buf cb (with_parser w d s) = with_parser w d (enqueue_frame env op buf cb s)"
  "call_on_message p b (with_parser w d s) = with_parser w d (call_on_message p b s)"
  "(with_parser w d s)\<lparr>pmce_inflate := z\<rparr> = with_parser w d (s\<lparr>pmce_inflate := z\<rparr>)"
  "(with_parser w d s)\<lparr>pmce_deflate := z\<rparr> = with_parser w d (s\<lparr>pmce_deflate := z\<rparr>)"
  "(with_parser w d s)\<lparr>fragment_payload := p\<rparr> = with_parser w d (s\<lparr>fragment_payload := p\<rparr>)"
  "(with_parser w d s)\<lparr>fragment_code := c'\<rparr> = with_parser w d (s\<lparr>fragment_code := c'\<rparr>)"
  "(with_parser w d s)\<lparr>fragment_was_compressed := b'\<rparr> = with_parser w d (s\<lparr>fragment_was_compressed := b'\<rparr>)"
  "(with_parser w d s)\<lparr>fragment_validate_offset := n\<rparr> = with_parser w d (s\<lparr>fragment_validate_offset := n\<rparr>)"
  by (simp_all add: with_parser_def emit_def state_transition_def enqueue_frame_def random_key_def call_on_message_def)

lemma inflate_some_parser [frame_simps]:
  "inflate_some env inp out (with_parser w d s) = omap (\<lambda>(ok, out, s). (ok, out, with_parser w d s)) (inflate_some env inp out s)"
  by (simp add: inflate_some_def omap_andthen frame_simps case_prod_beta')

lemma deflate_some_parser [frame_simps]:
  "deflate_some env inp out (with_parser w d s) = omap (\<lambda>(ok, out, s). (ok, out, with_parser w d s)) (deflate_some env inp out s)"
  by (simp add: deflate_some_def omap_andthen frame_simps case_prod_beta')

lemma send_frame_parser [frame_simps]:
  "send_frame env op buf cb (with_parser w d s) = omap (with_parser w d) (send_frame env op buf cb s)"
  by (simp add: send_frame_def Let_def frame_simps omap_andthen andthen_omap case_prod_beta' if_distrib [of "omap f" for f] cong: if_cong)

lemma close_impl_parser [frame_simps]:
  "close_impl env code reason (with_parser w d s) = omap (with_parser w d) (close_impl env code reason s)"
  by (simp add: close_impl_def frame_simps)

lemma handle_close_parser [frame_simps]:
  "handle_close_frame env op p (with_parser w d s) = omap (with_parser w d) (handle_close_frame env op p s)"
  by (simp add: handle_close_frame_def Let_def frame_simps)

lemma handle_ping_parser [frame_simps]:
  "handle_ping_frame env op p (with_parser w d s) = omap (with_parser w d) (handle_ping_frame env op p s)"
  by (simp add: handle_ping_frame_def frame_simps)

lemma handle_pong_parser [frame_simps]:
  "handle_pong_frame env op p (with_parser w d s) = omap (with_parser w d) (handle_pong_frame env op p s)"
  by (simp add: handle_pong_frame_def frame_simps)

lemma handle_text_parser [frame_simps]:
  "handle_text_frame env op p (with_parser w d s) = omap (with_parser w d) (handle_text_frame env op p s)"
  by (simp add: handle_text_frame_def Let_def frame_simps case_prod_beta')

lemma handle_binary_parser [frame_simps]:
  "handle_binary_frame env op p (with_parser w d s) = omap (with_parser w d) (handle_binary_frame env op p s)"
  by (simp add: handle_binary_frame_def frame_simps)

lemma handle_continuation_parser [frame_simps]:
  "handle_continuation_frame env op p (with_parser w d s) = omap (with_parser w d) (handle_continuation_frame env op p s)"
  by (simp add: handle_continuation_frame_def Let_def frame_simps case_prod_beta')

lemma handle_data_parser [frame_simps]:
  "handle_data_frame env op p (with_parser w d s) = omap (with_parser w d) (handle_data_frame env op p s)"
  by (simp add: handle_data_frame_def frame_simps)

lemma decompress_parser [frame_simps]:
  "decompress env op p (with_parser w d s) =
     omap (map_sum (with_parser w d) (map_prod id (with_parser w d))) (decompress env op p s)"
  by (simp add: decompress_def frame_simps andthen_omap omap_andthen case_prod_beta' map_prod_def
      if_distrib [of "omap f" for f] cong: if_cong)

lemma case_map_sum: "case_sum f g (map_sum h k x) = case_sum (\<lambda>y. f (h y)) (\<lambda>y. g (k y)) x"
  by (cases x) simp_all

lemma handle_frame_parser:
  "handle_frame env op p (with_parser w d s) = omap (with_parser w d) (handle_frame env op p s)"
  by (simp add: handle_frame_def Let_def frame_simps andthen_omap omap_andthen case_map_sum
      sum.case_distrib [of "omap f" for f] case_prod_beta' if_distrib [of "omap f" for f] cong: if_cong)

subsection \<open>Frames of a server\<close>

text \<open>A frame as a server sends it: opcode and payload, not masked, the length in its shortest form.\<close>

definition server_frame :: "opcode \<times> bytes \<Rightarrow> bytes" where
  "server_frame f = fst f # length_octets (length (snd f)) @ snd f"

definition frame_fits :: "opcode \<times> bytes \<Rightarrow> bool" where
  "frame_fits f \<longleftrightarrow> length (snd f) < 2 ^ 63"

definition head_len :: "opcode \<times> bytes \<Rightarrow> nat" where
  "head_len f = 1 + length (length_octets (length (snd f)))"

lemma length_server_frame: "length (server_frame f) = head_len f + length (snd f)"
  by (simp add: server_frame_def head_len_def)

lemma head_len_ge: "2 \<le> head_len f" "head_len f \<le> 10"
  by (simp_all add: head_len_def length_octets_def)

lemma length_octets_head:
  "length_octets n ! 0 = (if n > 65535 then 127 else if n > 125 then 126 else word_of_nat n)"
  by (simp add: length_octets_def)

lemma header_of_prefix:
  assumes "prefix d (server_frame f @ r)" "2 \<le> length d"
  shows "unat (d ! 1) < 128" "header_len d = head_len f" "d ! 0 = fst f"
proof -
  from assms obtain t where t: "server_frame f @ r = d @ t" by (auto simp: prefix_def)
  have n: "d ! k = (server_frame f @ r) ! k" if "k < 2" for k
    using assms(2) that by (simp add: t nth_append)
  have "length_octets (length (snd f)) \<noteq> []" by (simp add: length_octets_def)
  then have d1: "d ! Suc 0 = length_octets (length (snd f)) ! 0"
    using n [of 1] by (simp add: server_frame_def nth_append)
  show "d ! 0 = fst f" using n [of 0] by (simp add: server_frame_def)
  show "unat (d ! 1) < 128" "header_len d = head_len f"
    by (auto simp: header_len_def d1 length_octets_head head_len_def Let_def unat_u8 length_octets_def)
qed

lemma payload_of_prefix:
  assumes "prefix d (server_frame f @ r)" "head_len f \<le> length d" "frame_fits f"
  shows "payload_len d = length (snd f)" "frame_len d = length (server_frame f)"
proof -
  let ?n = "length (snd f)"
  have l: "2 \<le> length d" using assms(2) head_len_ge(1) [of f] by simp
  from assms obtain t where t: "server_frame f @ r = d @ t" by (auto simp: prefix_def)
  have "take (head_len f) d = take (head_len f) (server_frame f @ r)" using assms(2) by (simp add: t)
  also have "\<dots> = fst f # length_octets ?n" by (simp add: server_frame_def head_len_def)
  finally have h: "take (head_len f) d = fst f # length_octets ?n" .
  then have d: "d = fst f # length_octets ?n @ drop (head_len f) d"
    using append_take_drop_id [of "head_len f" d] by simp
  have "length_octets ?n \<noteq> []" by (simp add: length_octets_def)
  then have d1: "d ! Suc 0 = length_octets ?n ! 0" by (subst d) (simp add: nth_append)
  have d2: "drop 2 d = tl (length_octets ?n) @ drop (head_len f) d"
    by (subst d) (cases "length_octets ?n"; simp add: numeral_2_eq_2 \<open>length_octets ?n \<noteq> []\<close>)
  have u16: "unat (word_of_nat ?n :: u16) = ?n" if "?n \<le> 65535" using that by (simp add: unat_of_nat take_bit_eq_mod)
  have u64: "unat (word_of_nat ?n :: u64) = ?n" using assms(3) by (simp add: frame_fits_def unat_of_nat take_bit_eq_mod)
  show p: "payload_len d = ?n"
  proof -
    consider "?n \<le> 125" | "125 < ?n" "?n \<le> 65535" | "65535 < ?n" by linarith
    then show ?thesis
      by cases (simp_all add: payload_len_def d1 d2 length_octets_head unat_u8 length_octets_def u16 u64)
  qed
  show "frame_len d = length (server_frame f)"
    using header_of_prefix(2) [OF assms(1) l] head_len_ge(2) [of f] assms(3)
    by (simp add: frame_len_def p length_server_frame frame_fits_def)
qed

text \<open>How many bytes the parser waits for when its buffer holds \<open>d\<close>.\<close>

definition need :: "bytes \<Rightarrow> nat" where
  "need d = (if length d < 2 then 2 else if length d < header_len d then header_len d else frame_len d)"

definition incomplete :: "opcode \<times> bytes \<Rightarrow> bytes \<Rightarrow> bool" where
  "incomplete f d \<longleftrightarrow> frame_fits f \<and> strict_prefix d (server_frame f)"

lemma need_incomplete:
  assumes "incomplete f d"
  shows "need d = (if length d < 2 then 2 else if length d < head_len f then head_len f else length (server_frame f))"
proof -
  have p: "prefix d (server_frame f @ [])" "frame_fits f" using assms by (auto simp: incomplete_def)
  show ?thesis
    using header_of_prefix(2) [OF p(1)] payload_of_prefix(2) [OF p(1) _ p(2)] by (simp add: need_def)
qed

lemma need_bounds:
  assumes "incomplete f d"
  shows "2 \<le> need d" "length d < need d" "need d \<le> length (server_frame f)"
proof -
  have "length d < length (server_frame f)"
    using assms by (auto simp: incomplete_def strict_prefix_def prefix_def)
  then show "2 \<le> need d" "length d < need d" "need d \<le> length (server_frame f)"
    using head_len_ge(1) [of f] by (auto simp: need_incomplete [OF assms] length_server_frame)
qed

lemma need_mono:
  assumes "incomplete f d" "prefix b d"
  shows "need b \<le> need d"
proof -
  have "incomplete f b" using assms by (auto simp: incomplete_def strict_prefix_def prefix_def dest: prefix_order.antisym)
  moreover have "length b \<le> length d" using assms(2) by (rule prefix_length_le)
  ultimately show ?thesis
    using head_len_ge(1) [of f] by (auto simp: need_incomplete [OF assms(1)] need_incomplete length_server_frame)
qed

subsection \<open>Whole frames are handled, an incomplete one waits\<close>

lemma need_settled:
  assumes "incomplete f d" "prefix b d" "length d < need b"
  shows "need b = need d"
proof -
  have "incomplete f b" using assms(1,2) by (auto simp: incomplete_def strict_prefix_def prefix_def dest: prefix_order.antisym)
  moreover have "length b \<le> length d" using assms(2) by (rule prefix_length_le)
  ultimately show ?thesis
    using assms(3) head_len_ge(1) [of f] by (auto simp: need_incomplete [OF assms(1)] need_incomplete split: if_splits)
qed

lemma parse_loop_wait:
  assumes "incomplete f (parser_data s)" "prefix b (parser_data s)" "parser_wanted_size s = need b"
  shows "parse_loop env s = Ret (with_parser (need (parser_data s)) (parser_data s) s)"
proof -
  let ?d = "parser_data s"
  have p: "prefix ?d (server_frame f @ [])" "frame_fits f" using assms(1) by (auto simp: incomplete_def)
  have stop: "parse_loop env t = Ret t" if "length (parser_data t) < parser_wanted_size t" for t :: "'a ws"
    using that by (subst parse_loop.simps) (simp add: Let_def)
  have upd: "s\<lparr>parser_wanted_size := w\<rparr> = with_parser w ?d s" for w by (simp add: with_parser_def)
  show ?thesis
  proof (cases "length ?d < parser_wanted_size s")
    case True
    then have "parser_wanted_size s = need ?d" using need_settled [OF assms(1,2)] assms(3) by simp
    then show ?thesis using stop [OF True] by (simp add: with_parser_def)
  next
    case False
    have b: "incomplete f b"
      using assms(1,2) by (auto simp: incomplete_def strict_prefix_def prefix_def dest: prefix_order.antisym)
    have w: "parser_wanted_size s \<le> need ?d" unfolding assms(3) by (rule need_mono [OF assms(1,2)])
    have l: "2 \<le> length ?d" using need_bounds(1) [OF b] False assms(3) by simp
    note h = header_of_prefix [OF p(1) l]
    show ?thesis
    proof (cases "length ?d < head_len f")
      case True
      then have "need ?d = head_len f" using l by (simp add: need_incomplete [OF assms(1)])
      moreover have "parse_loop env s = parse_loop env (with_parser (head_len f) ?d s)"
        using True False by (subst parse_loop.simps) (simp add: Let_def h(2) upd max_def)
      ultimately show ?thesis using stop [of "with_parser (head_len f) ?d s"] True by (simp add: with_parser_def)
    next
      case F: False
      then have n: "need ?d = length (server_frame f)" using l by (simp add: need_incomplete [OF assms(1)])
      have fl: "frame_len ?d = length (server_frame f)" using payload_of_prefix(2) [OF p(1) _ p(2)] F by simp
      have "length ?d < length (server_frame f)" using need_bounds(2) [OF assms(1)] n by simp
      then have "parse_loop env s = parse_loop env (with_parser (length (server_frame f)) ?d s)"
        using F False by (subst parse_loop.simps) (simp add: Let_def h(2) upd max_def fl)
      then show ?thesis using stop [of "with_parser (length (server_frame f)) ?d s"] need_bounds(2) [OF assms(1)]
        by (simp add: with_parser_def n)
    qed
  qed
qed

subsection \<open>A rule for the loop\<close>

text \<open>
  A rule for the loop: a relation that holds for the steps it is made of (waiting for more, closing,
  handling a frame, going on to the next) holds for the loop, under an invariant it preserves.
\<close>

lemma parse_loop_rule:
  assumes loop: "parse_loop env s = Ret s'" "I s"
    and refl: "\<And>s. R s s" and trans: "\<And>s t u. R s t \<Longrightarrow> R t u \<Longrightarrow> R s u" and keep: "\<And>s t. R s t \<Longrightarrow> I s \<Longrightarrow> I t"
    and wait: "\<And>s w. parser_wanted_size s \<le> w \<Longrightarrow> R s (s\<lparr>parser_wanted_size := w\<rparr>)"
    and close: "\<And>s t. I s \<Longrightarrow> close_impl env 1002 protocol_error s = Ret t \<Longrightarrow> R s t"
    and frame: "\<And>op p s t. I s \<Longrightarrow> handle_frame env op p s = Ret t \<Longrightarrow> R s t"
    and next_frame: "\<And>s d. R s (s\<lparr>parser_wanted_size := 2, parser_data := d\<rparr>)"
  shows "R s s'"
proof -
  define P where "P e (s :: 'a ws) (r :: cpp_error + 'a ws) \<longleftrightarrow> (e = env \<longrightarrow> I s \<longrightarrow> (\<forall>t. r = Inr t \<longrightarrow> R s t))" for e s r
  have "P env s (Inr s')"
  proof (rule parse_loop.raw_induct [where P = P, OF _ loop(1)])
    fix loop e r and s :: "'a ws"
    assume IH: "\<And>e s r. loop e s = Some r \<Longrightarrow> P e s r"
      and *: "(let d = parser_data s; w = parser_wanted_size s in
      if length d < w then Ret s
      else
        let w1 = max w (header_len d) in
        if length d < w1 then loop e (s\<lparr>parser_wanted_size := w1\<rparr>)
        else
          let w2 = max w1 (frame_len d) in
          if length d < w2 then loop e (s\<lparr>parser_wanted_size := w2\<rparr>)
          else if unat (d ! 1) \<ge> 128 then close_impl e 1002 protocol_error (s\<lparr>parser_wanted_size := w2\<rparr>)
          else
            (case handle_frame e (d ! 0) (take (payload_len d) (drop (header_len d) d)) (s\<lparr>parser_wanted_size := w2\<rparr>) of
               None \<Rightarrow> None
             | Some (Inl x) \<Rightarrow> Throw x
             | Some (Inr s') \<Rightarrow> loop e (s'\<lparr>parser_wanted_size := 2, parser_data := drop (frame_len d) d\<rparr>))) = Some r"
    show "P e s r"
      unfolding P_def
    proof (intro impI allI)
      fix t assume e: "e = env" and s: "I s" and r: "r = Inr t"
      have go: "R s t" if "loop env s1 = Some (Inr t)" "R s s1" for s1
        using IH [OF that(1)] keep [OF that(2) s] trans [OF that(2)] by (simp add: P_def)
      let ?d = "parser_data s"
      let ?w1 = "max (parser_wanted_size s) (header_len ?d)"
      let ?w2 = "max ?w1 (frame_len ?d)"
      let ?s2 = "s\<lparr>parser_wanted_size := ?w2\<rparr>"
      let ?h = "handle_frame env (?d ! 0) (take (payload_len ?d) (drop (header_len ?d) ?d)) ?s2"
      have s2: "R s ?s2" by (rule wait) simp
      note u = * [unfolded Let_def r e]
      show "R s t"
      proof (cases "length ?d < parser_wanted_size s")
        case 1: False
        show ?thesis
        proof (cases "length ?d < ?w1")
          case True
          with u 1 show ?thesis by (intro go [OF _ wait [of s ?w1]]) (simp_all only: if_True if_False max.cobounded1)
        next
          case 2: False
          show ?thesis
          proof (cases "length ?d < ?w2")
            case True
            with u 1 2 show ?thesis by (intro go [OF _ s2]) (simp only: if_True if_False)
          next
            case 3: False
            show ?thesis
            proof (cases "unat (?d ! 1) \<ge> 128")
              case True
              with u 1 2 3 have "close_impl env 1002 protocol_error ?s2 = Ret t" by (simp only: if_True if_False)
              then show ?thesis by (intro trans [OF s2] close keep [OF s2 s])
            next
              case False
              with u 1 2 3 have "(case ?h of None \<Rightarrow> None | Some (Inl x) \<Rightarrow> Throw x
                 | Some (Inr s1) \<Rightarrow> loop env (s1\<lparr>parser_wanted_size := 2, parser_data := drop (frame_len ?d) ?d\<rparr>)) = Some (Inr t)"
                by (simp only: if_False)
              then obtain s1 where s1: "?h = Ret s1"
                  "loop env (s1\<lparr>parser_wanted_size := 2, parser_data := drop (frame_len ?d) ?d\<rparr>) = Some (Inr t)"
                by (auto split: option.splits sum.splits)
              then show ?thesis by (intro go [OF s1(2)] trans [OF trans [OF s2 frame [OF keep [OF s2 s] s1(1)]] next_frame])
            qed
          qed
        qed
      qed (use u refl in simp)
    qed
  qed
  with loop(2) show ?thesis by (simp add: P_def)
qed

subsection \<open>One frame\<close>

lemma parse_loop_unfold:
  "parse_loop env s =
     (let d = parser_data s; w = parser_wanted_size s; w1 = max w (header_len d); w2 = max w1 (frame_len d) in
      if length d < w then Ret s
      else if length d < w1 then parse_loop env (with_parser w1 d s)
      else if length d < w2 then parse_loop env (with_parser w2 d s)
      else if unat (d ! 1) \<ge> 128 then close_impl env 1002 protocol_error (with_parser w2 d s)
      else andthen (handle_frame env (d ! 0) (take (payload_len d) (drop (header_len d) d)) (with_parser w2 d s))
             (\<lambda>s'. parse_loop env (with_parser 2 (drop (frame_len d) d) s')))"
proof -
  have u: "s\<lparr>parser_wanted_size := w\<rparr> = with_parser w (parser_data s) s"
    "s'\<lparr>parser_wanted_size := 2, parser_data := x\<rparr> = with_parser 2 x s'" for w x and s' :: "'a ws"
    by (simp_all add: with_parser_def)
  show ?thesis by (subst parse_loop.simps) (simp only: Let_def u andthen_def)
qed

lemma parse_loop_frame:
  assumes d: "parser_data s = server_frame f @ r" and f: "frame_fits f"
    and w: "2 \<le> parser_wanted_size s" "parser_wanted_size s \<le> length (server_frame f)"
  shows "parse_loop env s = andthen (handle_frame env (fst f) (snd f) s) (\<lambda>s'. parse_loop env (with_parser 2 r s'))"
proof -
  let ?d = "server_frame f @ r" and ?T = "length (server_frame f)"
  have l: "head_len f \<le> length ?d" "2 \<le> length ?d" "head_len f \<le> ?T"
    using head_len_ge(1) [of f] by (simp_all add: length_server_frame)
  note h = header_of_prefix [OF _ l(2), of f r, simplified] and p = payload_of_prefix [OF _ l(1) f, of r, simplified]
  have body: "take (length (snd f)) (drop (head_len f) ?d) = snd f"
    by (simp add: server_frame_def head_len_def)
  have rest: "drop ?T ?d = r" by simp
  have last: "parse_loop env (with_parser ?T ?d s) =
      andthen (handle_frame env (fst f) (snd f) s) (\<lambda>s'. parse_loop env (with_parser 2 r s'))"
  proof -
    have "parse_loop env (with_parser ?T ?d s) = andthen (handle_frame env (fst f) (snd f) (with_parser ?T ?d s))
        (\<lambda>s'. parse_loop env (with_parser 2 r s'))"
      using h p l by (subst parse_loop_unfold) (simp add: Let_def max_absorb1 body rest del: take_append drop_append)
    then show ?thesis by (simp add: handle_frame_parser andthen_omap)
  qed
  have upd: "with_parser v ?d s = with_parser v (parser_data s) s" for v using d by simp
  have "parse_loop env s = parse_loop env (with_parser ?T ?d s)"
    using d w l h p by (subst (1 2) parse_loop_unfold) (simp add: Let_def max_def handle_frame_parser)
  with last show ?thesis by simp
qed

fun handle_frames :: "'z env \<Rightarrow> (opcode \<times> bytes) list \<Rightarrow> 'z ws \<Rightarrow> 'z ws outcome" where
  "handle_frames env [] s = Ret s"
| "handle_frames env (f # fs) s = andthen (handle_frame env (fst f) (snd f) s) (handle_frames env fs)"

lemma handle_frames_parser:
  "handle_frames env fs (with_parser w d s) = omap (with_parser w d) (handle_frames env fs s)"
proof (induction fs arbitrary: s)
  case (Cons f fs)
  then show ?case by (simp add: handle_frame_parser andthen_omap omap_andthen)
qed simp

definition stream_of :: "(opcode \<times> bytes) list \<Rightarrow> bytes" where
  "stream_of fs = concat (map server_frame fs)"

text \<open>\<open>w\<close> is what the parser waits for after it has seen some beginning of the first frame.\<close>

lemma parse_loop_frames:
  assumes "parser_data s = stream_of fs @ r" "incomplete g r" "list_all frame_fits fs"
    and "prefix b (parser_data s)" "parser_wanted_size s = need b" "fs \<noteq> [] \<Longrightarrow> incomplete (hd fs) b"
  shows "parse_loop env s = omap (with_parser (need r) r) (handle_frames env fs s)"
  using assms
proof (induction fs arbitrary: s b)
  case Nil
  then show ?case using parse_loop_wait [of g s b env] by (simp add: stream_of_def)
next
  case (Cons f fs)
  let ?r = "stream_of fs @ r"
  have "parse_loop env s = andthen (handle_frame env (fst f) (snd f) s) (\<lambda>s'. parse_loop env (with_parser 2 ?r s'))"
  proof (rule parse_loop_frame)
    show "parser_data s = server_frame f @ ?r" using Cons.prems(1) by (simp add: stream_of_def)
    show "frame_fits f" using Cons.prems(3) by simp
    show "2 \<le> parser_wanted_size s" "parser_wanted_size s \<le> length (server_frame f)"
      using need_bounds(1,3) [of f b] Cons.prems(5,6) by simp_all
  qed
  also have "\<dots> = andthen (handle_frame env (fst f) (snd f) s)
      (\<lambda>s'. omap (with_parser (need r) r) (handle_frames env fs s'))"
  proof -
    have "parse_loop env (with_parser 2 ?r s') = omap (with_parser (need r) r) (handle_frames env fs (with_parser 2 ?r s'))" for s'
    proof (rule Cons.IH [of _ "[]"])
      show "parser_data (with_parser 2 ?r s') = ?r" "parser_wanted_size (with_parser 2 ?r s') = need []"
        "prefix [] (parser_data (with_parser 2 ?r s'))" by (simp_all add: need_def)
      show "incomplete g r" "list_all frame_fits fs" using Cons.prems by simp_all
      show "incomplete (hd fs) []" if "fs \<noteq> []"
        using that Cons.prems(3) by (cases fs) (auto simp: incomplete_def server_frame_def strict_prefix_def)
    qed
    then show ?thesis by (simp add: handle_frames_parser)
  qed
  finally show ?case by (simp add: omap_andthen)
qed

subsection \<open>Any cut into reads\<close>

fun feed :: "'z env \<Rightarrow> bytes list \<Rightarrow> 'z ws \<Rightarrow> 'z ws outcome" where
  "feed env [] s = Ret s"
| "feed env (c # cs) s = andthen (raw_on_data_available env False (Bytes c) s) (\<lambda>x. feed env cs (snd x))"

lemma handle_frames_append:
  "handle_frames env (fs @ gs) s = andthen (handle_frames env fs s) (handle_frames env gs)"
proof (induction fs arbitrary: s)
  case (Cons f fs)
  then show ?case by (simp add: andthen_def split: option.splits sum.splits)
qed simp

lemma incomplete_prefix: "incomplete f d \<Longrightarrow> prefix b d \<Longrightarrow> incomplete f b"
  by (auto simp: incomplete_def strict_prefix_def prefix_def dest: prefix_order.antisym)

lemma split_stream:
  assumes "prefix x (stream_of fs @ r)" "incomplete g r" "list_all frame_fits fs"
  shows "\<exists>fs1 fs2 b h. fs = fs1 @ fs2 \<and> x = stream_of fs1 @ b \<and> incomplete h b \<and> (fs2 \<noteq> [] \<longrightarrow> h = hd fs2)"
  using assms
proof (induction fs arbitrary: x)
  case Nil
  then have "incomplete g x" using incomplete_prefix [of g r x] by (simp add: stream_of_def)
  then show ?case
    by (intro exI [of _ "[]"] exI [of _ "[]"] exI [of _ x] exI [of _ g]) (simp add: stream_of_def)
next
  case (Cons f fs)
  have p: "prefix x (server_frame f @ (stream_of fs @ r))" using Cons.prems(1) by (simp add: stream_of_def)
  show ?case
  proof (cases "prefix (server_frame f) x")
    case True
    then obtain y where y: "x = server_frame f @ y" by (auto simp: prefix_def)
    with p have y': "prefix y (stream_of fs @ r)" by simp
    have fits: "list_all frame_fits fs" using Cons.prems(3) by simp
    then obtain fs1 fs2 b h where "fs = fs1 @ fs2" "y = stream_of fs1 @ b" "incomplete h b" "fs2 \<noteq> [] \<longrightarrow> h = hd fs2"
      using Cons.IH [OF y' Cons.prems(2) fits] by blast
    then show ?thesis
      by (intro exI [of _ "f # fs1"] exI [of _ fs2] exI [of _ b] exI [of _ h]) (simp add: y stream_of_def)
  next
    case False
    then have "prefix x (server_frame f)"
      using p by (metis prefix_append prefixI)
    with False have "strict_prefix x (server_frame f)" by (auto simp: strict_prefix_def)
    then have "incomplete f x" using Cons.prems(3) by (simp add: incomplete_def)
    then show ?thesis
      by (intro exI [of _ "[]"] exI [of _ "f # fs"] exI [of _ x] exI [of _ f]) (simp add: stream_of_def)
  qed
qed

lemma feed_frames:
  assumes "parser_data s @ concat cs = stream_of fs @ r" "incomplete g r" "list_all frame_fits fs"
    and "parser_wanted_size s = need (parser_data s)" "fs \<noteq> [] \<Longrightarrow> incomplete (hd fs) (parser_data s)"
  shows "feed env cs s = omap (with_parser (need r) r) (handle_frames env fs s)"
  using assms
proof (induction cs arbitrary: s fs)
  case Nil
  have "fs = []"
  proof (rule ccontr)
    assume "fs \<noteq> []"
    then obtain f gs where f: "fs = f # gs" by (cases fs) auto
    then have "length (parser_data s) < length (server_frame f)"
      using Nil.prems(5) by (auto simp: incomplete_def strict_prefix_def prefix_def)
    then show False using Nil.prems(1) by (auto simp: f stream_of_def dest: arg_cong [of _ _ length])
  qed
  then show ?case using Nil.prems by (simp add: stream_of_def with_parser_def)
next
  case (Cons c cs)
  have "prefix (parser_data s @ c) (stream_of fs @ r)" using Cons.prems(1) by (metis append.assoc concat.simps(2) prefixI)
  then obtain fs1 fs2 b h where split: "fs = fs1 @ fs2" "parser_data s @ c = stream_of fs1 @ b" "incomplete h b"
    "fs2 \<noteq> [] \<longrightarrow> h = hd fs2"
    using split_stream [OF _ Cons.prems(2,3)] by blast
  let ?s = "s\<lparr>parser_data := parser_data s @ c\<rparr>"
  have s: "?s = with_parser (parser_wanted_size s) (parser_data s @ c) s" by (simp add: with_parser_def)
  have "parse_loop env ?s = omap (with_parser (need b) b) (handle_frames env fs1 ?s)"
  proof (rule parse_loop_frames)
    show "parser_data ?s = stream_of fs1 @ b" "incomplete h b" "list_all frame_fits fs1"
      using split Cons.prems(3) by simp_all
    show "prefix (parser_data s) (parser_data ?s)" "parser_wanted_size ?s = need (parser_data s)"
      using Cons.prems(4) by simp_all
    show "incomplete (hd fs1) (parser_data s)" if "fs1 \<noteq> []" using that Cons.prems(5) split(1) by simp
  qed
  then have p: "parse_loop env ?s = omap (with_parser (need b) b) (handle_frames env fs1 s)"
    unfolding s handle_frames_parser by simp
  have rest: "b @ concat cs = stream_of fs2 @ r"
    using Cons.prems(1) split(1,2) by (simp add: stream_of_def) (metis append.assoc append_same_eq same_append_eq)
  have ih: "feed env cs (with_parser (need b) b s') = omap (with_parser (need r) r) (handle_frames env fs2 s')" for s'
  proof -
    have "feed env cs (with_parser (need b) b s') =
        omap (with_parser (need r) r) (handle_frames env fs2 (with_parser (need b) b s'))"
    proof (rule Cons.IH)
      show "parser_data (with_parser (need b) b s') @ concat cs = stream_of fs2 @ r" using rest by simp
      show "incomplete g r" by (rule Cons.prems(2))
      show "list_all frame_fits fs2" using Cons.prems(3) split(1) by simp
      show "parser_wanted_size (with_parser (need b) b s') = need (parser_data (with_parser (need b) b s'))" by simp
      show "incomplete (hd fs2) (parser_data (with_parser (need b) b s'))" if "fs2 \<noteq> []" using that split(3,4) by simp
    qed
    then show ?thesis by (simp add: handle_frames_parser)
  qed
  show ?case
    by (simp add: raw_on_data_available_def p split(1) handle_frames_append omap_andthen andthen_omap)
      (simp add: omap_def andthen_def ih split: option.splits sum.splits)
qed

text \<open>
  C1: Delivery. If the bytes a server sends are a sequence of unmasked frames (payloads below
  2^63 bytes) followed by the beginning of a frame, then for every cut of these bytes into
  reads the client handles exactly these frames, once each and in order, and keeps the
  beginning for the next read. This includes exceptions: they leave at the same frame.
\<close>

theorem parser_delivers_frames:
  assumes "concat cs = stream_of fs @ r" "list_all frame_fits fs" "incomplete g r"
    and "parser_data s = []" "parser_wanted_size s = 2"
  shows "feed env cs s = omap (\<lambda>s'. s'\<lparr>parser_wanted_size := need r, parser_data := r\<rparr>) (handle_frames env fs s)"
proof -
  have "incomplete (hd fs) []" if "fs \<noteq> []"
    using that assms(2) by (cases fs) (auto simp: incomplete_def server_frame_def strict_prefix_def)
  then have "feed env cs s = omap (with_parser (need r) r) (handle_frames env fs s)"
    by (intro feed_frames) (use assms in \<open>simp_all add: need_def\<close>)
  then show ?thesis unfolding with_parser_def [abs_def] .
qed

theorem parser_delivers_frames_witness:
  "feed plain_env [[0x81, 2, 0x48], [0x69, 0x82]] (initial_state ()) =
     omap (\<lambda>s'. s'\<lparr>parser_wanted_size := need [0x82], parser_data := [0x82]\<rparr>)
       (handle_frames plain_env [(0x81, [0x48, 0x69])] (initial_state ()))"
  by (rule parser_delivers_frames [of _ _ _ "(0x82, [])"])
    (simp_all add: stream_of_def server_frame_def length_octets_def frame_fits_def incomplete_def initial_state_def)

subsection \<open>A length that wraps\<close>

lemma op_clean [simp]:
  "clean_op (op_or op_fin op_close) = op_close" "clean_op (op_or op_fin op_pong) = op_pong"
  by (simp_all add: clean_op_def op_or_def opcode_defs)

lemma op_distinct [simp]:
  "op_close \<noteq> op_binary" "op_close \<noteq> op_text" "op_pong \<noteq> op_binary" "op_pong \<noteq> op_text" "op_pong \<noteq> op_close"
  by (simp_all add: opcode_defs)

lemma send_close_frame:
  "send_frame env (op_or op_fin op_close) buf cb s =
     Ret (enqueue_frame env (op_or op_fin op_close) buf cb (if con_state s = Open then state_transition Client_close s else s))"
  by (simp add: send_frame_def Let_def)

lemma pmce_frame [frame_simps]:
  "pmce_enabled (state_transition c s) = pmce_enabled s" "pmce_enabled (emit e s) = pmce_enabled s"
  "pmce_enabled (enqueue_frame env op buf cb s) = pmce_enabled s" "pmce_enabled (call_on_message p b s) = pmce_enabled s"
  by (simp_all add: state_transition_def emit_def enqueue_frame_def call_on_message_def)

lemma close_impl_returns: "\<exists>s'. close_impl env code reason s = Ret s' \<and> pmce_enabled s' = pmce_enabled s"
  by (simp add: close_impl_def send_close_frame frame_simps)

definition endless_frame :: bytes where
  "endless_frame = [0x82, 127, 0xFF, 0xFF, 0xFF, 0xFF, 0xFF, 0xFF, 0xFF, 0xF6]"

lemma endless_sizes:
  "header_len endless_frame = 10" "frame_len endless_frame = 0" "length endless_frame = 10"
  by (simp_all add: endless_frame_def header_len_def frame_len_def payload_len_def get_be64_def get_be_def Let_def)

lemma binary_frame_returns:
  assumes "\<not> pmce_enabled s"
  shows "\<exists>s'. handle_frame env 0x82 payload s = Ret s' \<and> \<not> pmce_enabled s'"
proof -
  have c: "clean_op 0x82 = op_binary" "op_binary \<noteq> op_continuation" "op_binary \<noteq> op_ping" "op_binary \<noteq> op_pong"
    "op_binary \<noteq> op_close" "op_and 0x82 op_fin = op_fin" "\<not> op_not op_fin"
    by (simp_all add: clean_op_def op_and_def op_not_def opcode_defs)
  have "\<exists>s'. handle_binary_frame env 0x82 payload s = Ret s' \<and> \<not> pmce_enabled s'"
    using assms close_impl_returns [of env 1002 protocol_error s]
    by (auto simp: handle_binary_frame_def c frame_simps)
  then show ?thesis
    using assms by (auto simp: handle_frame_def Let_def handle_data_frame_def c)
qed

lemma parse_loop_stuck:
  assumes "parse_loop env s = Some r" "parser_data s = endless_frame" "parser_wanted_size s \<le> 10" "\<not> pmce_enabled s"
  shows False
proof -
  have "parser_data s = endless_frame \<longrightarrow> parser_wanted_size s \<le> 10 \<longrightarrow> \<not> pmce_enabled s \<longrightarrow> False"
  proof (rule parse_loop.raw_induct
      [where P = "\<lambda>env s r. parser_data s = endless_frame \<longrightarrow> parser_wanted_size s \<le> 10 \<longrightarrow> \<not> pmce_enabled s \<longrightarrow> False",
        OF _ assms(1)], intro impI)
    fix loop :: "'a env \<Rightarrow> 'a ws \<Rightarrow> 'a ws outcome" and env and s :: "'a ws" and r
    assume IH: "\<And>env s r. loop env s = Some r \<Longrightarrow>
        parser_data s = endless_frame \<longrightarrow> parser_wanted_size s \<le> 10 \<longrightarrow> \<not> pmce_enabled s \<longrightarrow> False"
      and s: "parser_data s = endless_frame" "parser_wanted_size s \<le> 10" "\<not> pmce_enabled s"
    let ?s = "s\<lparr>parser_wanted_size := 10\<rparr>"
    obtain s' where h: "handle_frame env 0x82 [] ?s = Ret s'" "\<not> pmce_enabled s'"
      using binary_frame_returns [of ?s env "[]"] s(3) by auto
    assume "(let d = parser_data s; w = parser_wanted_size s in
      if length d < w then Ret s
      else
        let w1 = max w (header_len d) in
        if length d < w1 then loop env (s\<lparr>parser_wanted_size := w1\<rparr>)
        else
          let w2 = max w1 (frame_len d) in
          if length d < w2 then loop env (s\<lparr>parser_wanted_size := w2\<rparr>)
          else if unat (d ! 1) \<ge> 128 then close_impl env 1002 protocol_error (s\<lparr>parser_wanted_size := w2\<rparr>)
          else
            (case handle_frame env (d ! 0) (take (payload_len d) (drop (header_len d) d)) (s\<lparr>parser_wanted_size := w2\<rparr>) of
               None \<Rightarrow> None
             | Some (Inl e) \<Rightarrow> Throw e
             | Some (Inr s') \<Rightarrow> loop env (s'\<lparr>parser_wanted_size := 2, parser_data := drop (frame_len d) d\<rparr>))) = Some r"
    moreover have "drop 10 endless_frame = []" "endless_frame ! 0 = 0x82" "unat (endless_frame ! Suc 0) < 128"
      by (simp_all add: endless_frame_def)
    ultimately have "loop env (s'\<lparr>parser_wanted_size := 2, parser_data := endless_frame\<rparr>) = Some r"
      using s h(1) by (simp add: Let_def endless_sizes max_absorb2)
    from IH [OF this] h(2) show False by simp
  qed
  with assms(2-4) show False by blast
qed

text \<open>
  C39: Ten bytes hang the client: a binary frame whose length field is 2^64 - 10 makes the sum
  of header and payload wrap to 0, nothing is erased, and the frame is delivered again and
  again; the call never returns.
\<close>

theorem parser_hangs_on_wrapped_length:
  assumes "parser_data s = []" "parser_wanted_size s = 2" "\<not> pmce_enabled s"
  shows "raw_on_data_available env False (Bytes endless_frame) s = None"
proof -
  let ?s = "s\<lparr>parser_data := endless_frame\<rparr>"
  have "parse_loop env ?s = None"
    using parse_loop_stuck [of env ?s] assms by (cases "parse_loop env ?s") auto
  then show ?thesis using assms by (simp add: raw_on_data_available_def)
qed

theorem parser_hangs_on_wrapped_length_witness:
  "raw_on_data_available plain_env False (Bytes endless_frame) (initial_state ()) = None"
  by (rule parser_hangs_on_wrapped_length) (simp_all add: initial_state_def)

end
