(* ===== verification/Ws_Messages.thy ===== *)
theory Ws_Messages
  imports Ws_Parser Utf8_Props
begin

text \<open>
  Fragmented messages: what \<open>handle_text_frame\<close>, \<open>handle_binary_frame\<close> and
  \<open>handle_continuation_frame\<close> do together, with control frames in between. Text is checked
  piece by piece through the contract \<open>resumable_validator\<close>, which \<open>utf8\<close> instantiates.
\<close>

subsection \<open>A message as frames\<close>

fun continuations :: "bytes list \<Rightarrow> (opcode \<times> bytes) list" where
  "continuations [] = []"
| "continuations [p] = [(op_or op_fin op_continuation, p)]"
| "continuations (p # ps) = (op_continuation, p) # continuations ps"

fun message_frames :: "opcode \<Rightarrow> bytes list \<Rightarrow> (opcode \<times> bytes) list" where
  "message_frames op [] = []"
| "message_frames op [p] = [(op_or op_fin op, p)]"
| "message_frames op (p # ps) = (op, p) # continuations ps"

definition ping_pong :: "opcode \<times> bytes \<Rightarrow> bool" where
  "ping_pong f \<longleftrightarrow> (fst f = op_or op_fin op_ping \<or> fst f = op_or op_fin op_pong) \<and> length (snd f) \<le> 125"

fun is_message :: "event \<Rightarrow> bool" where
  "is_message (On_message _ _) = True"
| "is_message _ = False"

definition messages :: "'z ws \<Rightarrow> event list" where
  "messages s = filter is_message (events s)"

subsection \<open>Opcodes of the frames involved\<close>

lemma frame_ops [simp]:
  "op_continuation \<noteq> op_close" "op_continuation \<noteq> op_ping" "op_continuation \<noteq> op_pong"
  "op_text \<noteq> op_close" "op_text \<noteq> op_ping" "op_text \<noteq> op_pong" "op_text \<noteq> op_continuation" "op_text \<noteq> op_binary"
  "op_binary \<noteq> op_close" "op_binary \<noteq> op_ping" "op_binary \<noteq> op_pong" "op_binary \<noteq> op_continuation" "op_binary \<noteq> op_text"
  "op_ping \<noteq> op_close" "op_ping \<noteq> op_pong" "op_pong \<noteq> op_ping"
  "op_ping \<noteq> op_continuation" "op_ping \<noteq> op_binary" "op_ping \<noteq> op_text" "op_pong \<noteq> op_continuation"
  by (simp_all add: opcode_defs)

lemma op_parts [simp]:
  "clean_op op_continuation = op_continuation" "clean_op op_text = op_text" "clean_op op_binary = op_binary"
  "clean_op (op_or op_fin op_continuation) = op_continuation" "clean_op (op_or op_fin op_text) = op_text"
  "clean_op (op_or op_fin op_binary) = op_binary" "clean_op (op_or op_fin op_ping) = op_ping"
  "op_continuation AND 0x30 = 0" "op_text AND 0x30 = 0" "op_binary AND 0x30 = 0"
  "op_continuation AND 0x70 = 0" "op_text AND 0x70 = 0" "op_binary AND 0x70 = 0"
  "op_or op_fin op_continuation AND 0x30 = 0" "op_or op_fin op_text AND 0x30 = 0" "op_or op_fin op_binary AND 0x30 = 0"
  "op_or op_fin op_continuation AND 0x70 = 0" "op_or op_fin op_text AND 0x70 = 0" "op_or op_fin op_binary AND 0x70 = 0"
  "op_or op_fin op_ping AND 0x70 = 0" "op_or op_fin op_pong AND 0x70 = 0"
  "op_not (op_and op_continuation op_fin)" "op_not (op_and op_text op_fin)" "op_not (op_and op_binary op_fin)"
  "\<not> op_not (op_and (op_or op_fin op_continuation) op_fin)" "\<not> op_not (op_and (op_or op_fin op_text) op_fin)"
  "\<not> op_not (op_and (op_or op_fin op_binary) op_fin)" "\<not> op_not (op_and (op_or op_fin op_ping) op_fin)"
  "\<not> op_not (op_and (op_or op_fin op_pong) op_fin)"
  by (simp_all add: clean_op_def op_or_def op_and_def op_not_def opcode_defs)

lemma dispatch_data:
  assumes "con_state s \<noteq> Closed" "con_state s \<noteq> Server_close" "\<not> pmce_enabled s"
  shows "handle_frame env op_text p s = handle_text_frame env op_text p s"
    "handle_frame env (op_or op_fin op_text) p s = handle_text_frame env (op_or op_fin op_text) p s"
    "handle_frame env op_binary p s = handle_binary_frame env op_binary p s"
    "handle_frame env (op_or op_fin op_binary) p s = handle_binary_frame env (op_or op_fin op_binary) p s"
    "handle_frame env op_continuation p s = handle_continuation_frame env op_continuation p s"
    "handle_frame env (op_or op_fin op_continuation) p s = handle_continuation_frame env (op_or op_fin op_continuation) p s"
  using assms by (simp_all add: handle_frame_def Let_def handle_data_frame_def)

subsection \<open>Control frames in between\<close>

text \<open>What a message in progress depends on.\<close>

definition progress :: "'z ws \<Rightarrow> (cs \<times> opcode \<times> bytes \<times> nat) \<times> mode \<times> bool \<times> bool \<times> event list" where
  "progress s = ((con_state s, fragment_code s, fragment_payload s, fragment_validate_offset s),
     utf8_mode s, pmce_enabled s, on_message s, messages s)"

lemma progress_emit: "\<not> is_message e \<Longrightarrow> progress (emit e s) = progress s"
  by (simp add: progress_def emit_def messages_def)

lemma progress_enqueue: "progress (enqueue_frame env op buf cb s) = progress s"
  by (simp add: progress_def enqueue_frame_def emit_def messages_def)

lemma ping_pong_step:
  assumes "ping_pong f" "con_state s \<noteq> Closed" "con_state s \<noteq> Server_close" "\<not> pmce_enabled s"
  shows "\<exists>s'. handle_frame env (fst f) (snd f) s = Ret s' \<and> progress s' = progress s"
  using assms
  by (auto simp: ping_pong_def handle_frame_def Let_def handle_ping_frame_def handle_pong_frame_def send_frame_def
      progress_emit progress_enqueue)

subsection \<open>In the middle of a message\<close>

definition mid :: "bool \<Rightarrow> bytes \<Rightarrow> 'z ws \<Rightarrow> bool" where
  "mid binary buf s \<longleftrightarrow> con_state s \<noteq> Closed \<and> con_state s \<noteq> Server_close \<and> \<not> pmce_enabled s \<and>
     fragment_code s = (if binary then op_binary else op_text) \<and> fragment_payload s = buf \<and>
     (\<not> binary \<longrightarrow> in_step (validate (utf8_mode s)) buf (fragment_validate_offset s))"

definition same_end :: "'z ws \<Rightarrow> 'z ws \<Rightarrow> bool" where
  "same_end s s' \<longleftrightarrow> con_state s' = con_state s \<and> utf8_mode s' = utf8_mode s \<and> on_message s' = on_message s \<and>
     pmce_enabled s' = pmce_enabled s"

lemma progress_same:
  assumes "progress s' = progress s"
  shows "mid binary buf s' = mid binary buf s" "same_end s s'" "messages s' = messages s" "fragment_code s' = fragment_code s"
    "fragment_validate_offset s' = fragment_validate_offset s" "fragment_payload s' = fragment_payload s"
  using assms by (simp_all add: progress_def mid_def same_end_def)

lemma same_end_trans: "same_end s s' \<Longrightarrow> same_end s' s'' \<Longrightarrow> same_end s s''"
  by (simp add: same_end_def)

lemma continuation_more:
  assumes "mid binary buf s" "\<not> binary \<Longrightarrow> fst (validate (utf8_mode s) (buf @ p)) \<noteq> Invalid"
  shows "\<exists>s'. handle_frame env op_continuation p s = Ret s' \<and> mid binary (buf @ p) s' \<and> same_end s s' \<and> messages s' = messages s"
proof (cases binary)
  case True
  then show ?thesis
    using assms(1) by (auto simp: mid_def dispatch_data handle_continuation_frame_def Let_def same_end_def messages_def)
next
  case False
  let ?check = "validate (utf8_mode s)" and ?tail = "drop (fragment_validate_offset s) (buf @ p)"
  from False assms(1) have step: "in_step ?check buf (fragment_validate_offset s)" by (simp add: mid_def)
  have ok: "fst (?check ?tail) \<noteq> Invalid"
    using utf8.in_step_result [OF step, of p] assms(2) False by simp
  have "in_step ?check (buf @ p) (fragment_validate_offset s + snd (?check ?tail))"
    by (rule utf8.in_step_feed [OF step ok])
  with ok False assms(1) show ?thesis
    by (auto simp: mid_def dispatch_data handle_continuation_frame_def Let_def same_end_def messages_def split: prod.splits)
qed

lemma messages_call: "messages (call_on_message p b s) = messages s @ (if on_message s then [On_message p b] else [])"
  by (simp add: call_on_message_def emit_def messages_def)

lemma call_on_message_frame [frame_simps]:
  "con_state (call_on_message p b s) = con_state s" "utf8_mode (call_on_message p b s) = utf8_mode s"
  "on_message (call_on_message p b s) = on_message s" "fragment_code (call_on_message p b s) = fragment_code s"
  by (simp_all add: call_on_message_def emit_def)

definition delivered :: "bytes \<Rightarrow> bool \<Rightarrow> 'z ws \<Rightarrow> 'z ws \<Rightarrow> bool" where
  "delivered payload binary s s' \<longleftrightarrow> same_end s s' \<and> fragment_code s' = op_continuation \<and>
     messages s' = messages s @ (if on_message s then [On_message payload binary] else [])"

lemma continuation_last:
  assumes "mid binary buf s" "\<not> binary \<Longrightarrow> fst (validate (utf8_mode s) (buf @ p)) = Valid"
  shows "\<exists>s'. handle_frame env (op_or op_fin op_continuation) p s = Ret s' \<and> delivered (buf @ p) binary s s'"
proof -
  have "\<not> binary \<Longrightarrow> fst (validate (utf8_mode s) (drop (fragment_validate_offset s) (buf @ p))) = Valid"
    using utf8.in_step_result [of "utf8_mode s" buf "fragment_validate_offset s" p] assms by (simp add: mid_def)
  then show ?thesis
    using assms(1)
    by (auto simp: mid_def dispatch_data handle_continuation_frame_def Let_def delivered_def same_end_def messages_call
        frame_simps) (auto simp: messages_def call_on_message_def emit_def)
qed

lemma first_frame:
  assumes "con_state s \<noteq> Closed" "con_state s \<noteq> Server_close" "\<not> pmce_enabled s" "fragment_code s = op_continuation"
    and "\<not> binary \<Longrightarrow> fst (validate (utf8_mode s) p) \<noteq> Invalid"
  shows "\<exists>s'. handle_frame env (if binary then op_binary else op_text) p s = Ret s' \<and> mid binary p s' \<and> same_end s s' \<and>
    messages s' = messages s"
  using assms
  by (cases binary) (auto simp: dispatch_data handle_text_frame_def handle_binary_frame_def Let_def mid_def same_end_def
      messages_def in_step_def split: prod.splits)

lemma only_frame:
  assumes "con_state s \<noteq> Closed" "con_state s \<noteq> Server_close" "\<not> pmce_enabled s" "fragment_code s = op_continuation"
    and "\<not> binary \<Longrightarrow> fst (validate (utf8_mode s) p) = Valid"
  shows "\<exists>s'. handle_frame env (op_or op_fin (if binary then op_binary else op_text)) p s = Ret s' \<and> delivered p binary s s'"
  using assms
  by (cases binary) (auto simp: dispatch_data handle_text_frame_def handle_binary_frame_def Let_def delivered_def same_end_def
      messages_call frame_simps)

subsection \<open>Delivery\<close>

lemma delivered_end: "same_end s s1 \<Longrightarrow> messages s1 = messages s \<Longrightarrow> delivered p b s1 s' \<Longrightarrow> delivered p b s s'"
  by (simp add: delivered_def same_end_def)

lemma pings_only:
  assumes "list_all ping_pong gs" "con_state s \<noteq> Closed" "con_state s \<noteq> Server_close" "\<not> pmce_enabled s"
  shows "\<exists>s'. handle_frames env gs s = Ret s' \<and> progress s' = progress s"
  using assms
proof (induction gs arbitrary: s)
  case (Cons g gs)
  then obtain s1 where 1: "handle_frame env (fst g) (snd g) s = Ret s1" "progress s1 = progress s"
    using ping_pong_step [of g s env] by auto
  then have "con_state s1 \<noteq> Closed" "con_state s1 \<noteq> Server_close" "\<not> pmce_enabled s1"
    using Cons.prems by (auto simp: progress_def)
  with Cons.IH [of s1] Cons.prems(1) 1 show ?case by auto
qed simp

lemma filter_Cons_split:
  assumes "filter (\<lambda>f. \<not> P f) gs = x # xs"
  shows "\<exists>hs ks. gs = hs @ x # ks \<and> list_all P hs \<and> filter (\<lambda>f. \<not> P f) ks = xs"
proof -
  from assms obtain hs ks where "gs = hs @ x # ks" "\<forall>u\<in>set hs. \<not> \<not> P u" "xs = filter (\<lambda>f. \<not> P f) ks"
    by (auto simp: filter_eq_Cons_iff)
  then show ?thesis by (auto simp: list_all_iff)
qed

lemma same_end_mid: "mid b buf s \<Longrightarrow> con_state s \<noteq> Closed \<and> con_state s \<noteq> Server_close \<and> \<not> pmce_enabled s"
  by (simp add: mid_def)

lemma delivered_progress: "delivered p b s s1 \<Longrightarrow> progress s' = progress s1 \<Longrightarrow> delivered p b s s'"
  by (auto simp: delivered_def same_end_def progress_def)

lemma rest_delivered:
  assumes "ps \<noteq> []" "filter (\<lambda>f. \<not> ping_pong f) gs = continuations ps" "mid binary buf s"
    and "\<not> binary \<Longrightarrow> fst (validate (utf8_mode s) (buf @ concat ps)) = Valid"
  shows "\<exists>s'. handle_frames env gs s = Ret s' \<and> delivered (buf @ concat ps) binary s s'"
  using assms
proof (induction ps arbitrary: gs buf s rule: continuations.induct)
  case (2 p)
  from 2(2) obtain hs ks where g: "gs = hs @ (op_or op_fin op_continuation, p) # ks" "list_all ping_pong hs"
    "filter (\<lambda>f. \<not> ping_pong f) ks = []" using filter_Cons_split by fastforce
  have k: "list_all ping_pong ks" using g(3) by (auto simp: list_all_iff filter_empty_conv)
  obtain s1 where 1: "handle_frames env hs s = Ret s1" "progress s1 = progress s"
    using pings_only [OF g(2)] same_end_mid [OF 2(3)] by blast
  note p1 = progress_same [OF 1(2)]
  have v: "\<not> binary \<Longrightarrow> fst (validate (utf8_mode s1) (buf @ p)) = Valid" using 2(4) p1(2) by (simp add: same_end_def)
  obtain s2 where s2: "handle_frame env (op_or op_fin op_continuation) p s1 = Ret s2" "delivered (buf @ p) binary s1 s2"
    using continuation_last [of binary buf s1 p env, OF _ v] p1(1) 2(3) by blast
  have "con_state s2 \<noteq> Closed \<and> con_state s2 \<noteq> Server_close \<and> \<not> pmce_enabled s2"
    using same_end_mid [OF 2(3)] s2(2) p1(2) by (simp add: delivered_def same_end_def)
  then obtain s3 where s3: "handle_frames env ks s2 = Ret s3" "progress s3 = progress s2"
    using pings_only [OF k] by blast
  have "delivered (buf @ p) binary s s3"
    using delivered_end [OF p1(2,3)] delivered_progress [OF s2(2) s3(2)] by blast
  with g 1 s2 s3 show ?case by (simp add: handle_frames_append)
next
  case (3 p q ps)
  from 3(3) obtain hs ks where g: "gs = hs @ (op_continuation, p) # ks" "list_all ping_pong hs"
    "filter (\<lambda>f. \<not> ping_pong f) ks = continuations (q # ps)" using filter_Cons_split by fastforce
  obtain s1 where 1: "handle_frames env hs s = Ret s1" "progress s1 = progress s"
    using pings_only [OF g(2)] same_end_mid [OF 3(4)] by blast
  note p1 = progress_same [OF 1(2)]
  have v: "\<not> binary \<Longrightarrow> fst (validate (utf8_mode s1) (buf @ p)) \<noteq> Invalid"
    using 3(5) p1(2) utf8.check_fail_fast [of "utf8_mode s" "buf @ p" "concat (q # ps)"] by (auto simp: same_end_def)
  obtain s2 where s2: "handle_frame env op_continuation p s1 = Ret s2" "mid binary (buf @ p) s2" "same_end s1 s2"
    "messages s2 = messages s1"
    using continuation_more [of binary buf s1 p env, OF _ v] p1(1) 3(4) by blast
  have "\<exists>s'. handle_frames env ks s2 = Ret s' \<and> delivered ((buf @ p) @ concat (q # ps)) binary s2 s'"
    using 3(5) p1(2) s2(3) by (intro 3(1) g(3) s2(2)) (simp_all add: same_end_def)
  then obtain s' where s': "handle_frames env ks s2 = Ret s'" "delivered ((buf @ p) @ concat (q # ps)) binary s2 s'" by blast
  have "delivered ((buf @ p) @ concat (q # ps)) binary s s'"
    by (rule delivered_end [OF same_end_trans [OF p1(2) s2(3)] _ s'(2)]) (simp add: s2(4) p1(3))
  with g 1 s2(1) s'(1) show ?case by (simp add: handle_frames_append)
qed simp

lemma whole_delivered:
  assumes gs: "filter (\<lambda>f. \<not> ping_pong f) gs = message_frames (if binary then op_binary else op_text) ps" "ps \<noteq> []"
    and s: "con_state s \<noteq> Closed" "con_state s \<noteq> Server_close" "\<not> pmce_enabled s" "fragment_code s = op_continuation"
    and v: "\<not> binary \<Longrightarrow> fst (validate (utf8_mode s) (concat ps)) = Valid"
  shows "\<exists>s'. handle_frames env gs s = Ret s' \<and> delivered (concat ps) binary s s'"
proof -
  obtain f fs where f: "message_frames (if binary then op_binary else op_text) ps = f # fs"
    using gs(2) by (cases ps rule: continuations.cases) auto
  obtain hs ks where g: "gs = hs @ f # ks" "list_all ping_pong hs" "filter (\<lambda>f. \<not> ping_pong f) ks = fs"
    using filter_Cons_split [of ping_pong gs f fs] gs(1) f by auto
  obtain s1 where 1: "handle_frames env hs s = Ret s1" "progress s1 = progress s" using pings_only [OF g(2) s(1-3)] by blast
  note p1 = progress_same [OF 1(2)]
  have s1: "con_state s1 \<noteq> Closed" "con_state s1 \<noteq> Server_close" "\<not> pmce_enabled s1" "fragment_code s1 = op_continuation"
    using s p1(2,4) by (simp_all add: same_end_def)
  show ?thesis
  proof (cases ps rule: continuations.cases)
    case 1
    with gs(2) show ?thesis by simp
  next
    case (2 p)
    with f have f': "f = (op_or op_fin (if binary then op_binary else op_text), p)" "fs = []" by simp_all
    have "\<not> binary \<Longrightarrow> fst (validate (utf8_mode s1) p) = Valid" using v 2 p1(2) by (simp add: same_end_def)
    then obtain s2 where s2: "handle_frame env (fst f) (snd f) s1 = Ret s2" "delivered p binary s1 s2"
      using only_frame [OF s1, of binary p env] f' by auto
    have "list_all ping_pong ks" using g(3) f'(2) by (auto simp: list_all_iff filter_empty_conv)
    moreover have "con_state s2 \<noteq> Closed" "con_state s2 \<noteq> Server_close" "\<not> pmce_enabled s2"
      using s1 s2(2) by (auto simp: delivered_def same_end_def)
    ultimately obtain s3 where s3: "handle_frames env ks s2 = Ret s3" "progress s3 = progress s2" using pings_only by blast
    have "delivered p binary s s3" using delivered_end [OF p1(2,3)] delivered_progress [OF s2(2) s3(2)] by blast
    with g \<open>handle_frames env hs s = Ret s1\<close> s2(1) s3(1) 2 show ?thesis by (simp add: handle_frames_append)
  next
    case (3 p q rs)
    with f have f': "f = (if binary then op_binary else op_text, p)" "fs = continuations (q # rs)" by simp_all
    have "\<not> binary \<Longrightarrow> fst (validate (utf8_mode s1) p) \<noteq> Invalid"
      using v 3 p1(2) utf8.check_fail_fast [of "utf8_mode s" p "concat (q # rs)"] by (auto simp: same_end_def)
    then obtain s2 where s2: "handle_frame env (fst f) (snd f) s1 = Ret s2" "mid binary p s2" "same_end s1 s2"
      "messages s2 = messages s1" using first_frame [OF s1, of binary p env] f' by auto
    have "\<not> binary \<Longrightarrow> fst (validate (utf8_mode s2) (p @ concat (q # rs))) = Valid"
      using v 3 p1(2) s2(3) by (simp add: same_end_def)
    then obtain s' where s': "handle_frames env ks s2 = Ret s'" "delivered (p @ concat (q # rs)) binary s2 s'"
      using rest_delivered [of "q # rs" ks binary p s2 env] g(3) f'(2) s2(2) by blast
    have "delivered (p @ concat (q # rs)) binary s s'"
      by (rule delivered_end [OF same_end_trans [OF p1(2) s2(3)] _ s'(2)]) (simp add: s2(4) p1(3))
    with g \<open>handle_frames env hs s = Ret s1\<close> s2(1) s'(1) 3 show ?thesis by (simp add: handle_frames_append)
  qed
qed

text \<open>
  C10: Reassembly. A message sent in any number of fragments, with pings and pongs anywhere
  between them, reaches \<open>on_message\<close> exactly once with the concatenation of the fragments,
  and the client is ready for the next message; for text the condition is that the whole
  message is valid in the chosen mode, although the client only ever checks the part behind
  the last complete code point.
\<close>

theorem fragmented_message_delivered:
  assumes "filter (\<lambda>f. \<not> ping_pong f) gs = message_frames (if binary then op_binary else op_text) ps" "ps \<noteq> []"
    and "con_state s = Open" "\<not> pmce_enabled s" "fragment_code s = op_continuation" "on_message s"
    and "\<not> binary \<Longrightarrow> fst (validate (utf8_mode s) (concat ps)) = Valid"
  shows "\<exists>s'. handle_frames env gs s = Ret s' \<and> con_state s' = Open \<and> fragment_code s' = op_continuation \<and>
    filter is_message (events s') = filter is_message (events s) @ [On_message (concat ps) binary]"
  using whole_delivered [OF assms(1,2), of s env] assms(3-7)
  by (auto simp: delivered_def same_end_def messages_def)

text \<open>The state of an open connection with all callbacks but \<open>on_ping\<close> installed.\<close>

definition example_state :: "unit ws" where
  "example_state = (initial_state ())\<lparr>con_state := Open, on_open := True, on_close := True, on_message := True, on_pong := True\<rparr>"

theorem fragmented_message_delivered_witness:
  "\<exists>s'. handle_frames plain_env
      [(op_text, [0xCE]), (op_or op_fin op_ping, [1]), (op_or op_fin op_continuation, [0xBA])] example_state = Ret s' \<and>
    con_state s' = Open \<and> fragment_code s' = op_continuation \<and>
    filter is_message (events s') = filter is_message (events example_state) @ [On_message [0xCE, 0xBA] False]"
proof -
  have v: "fst (validate Mode_pedantic [0xCE, 0xBA]) = Valid" by code_simp
  show ?thesis
    using fragmented_message_delivered [of "[(op_text, [0xCE]), (op_or op_fin op_ping, [1]), (op_or op_fin op_continuation, [0xBA])]"
        False "[[0xCE], [0xBA]]" example_state plain_env] v
    by (simp add: ping_pong_def example_state_def initial_state_def op_or_def opcode_defs)
qed

subsection \<open>Refusal\<close>

text \<open>After a refusal the client is in the closing handshake; no message may come out any more.\<close>

definition refused :: "'z ws \<Rightarrow> 'z ws \<Rightarrow> bool" where
  "refused s s' \<longleftrightarrow> con_state s' = Client_close \<and> messages s' = messages s \<and> utf8_mode s' = utf8_mode s \<and> \<not> pmce_enabled s' \<and>
     Queued (op_or op_fin op_close) (close_payload 1007 invalid_utf8) \<in> set (events s')"

lemma close_open:
  "con_state s = Open \<Longrightarrow> \<not> pmce_enabled s \<Longrightarrow> \<exists>s'. close_impl env 1007 invalid_utf8 s = Ret s' \<and> refused s s' \<and>
     fragment_code s' = fragment_code s \<and> fragment_payload s' = fragment_payload s \<and>
     fragment_validate_offset s' = fragment_validate_offset s"
  by (auto simp: close_impl_def send_close_frame refused_def frame_simps enqueue_frame_def emit_def state_transition_def
      messages_def)

lemma close_closing: "con_state s = Client_close \<Longrightarrow> close_impl env code reason s = Ret s"
  by (simp add: close_impl_def)

definition doomed :: "'z ws \<Rightarrow> 'z ws \<Rightarrow> bool" where
  "doomed s0 s \<longleftrightarrow> refused s0 s \<and> fragment_code s = op_text \<and>
     fst (validate (utf8_mode s) (drop (fragment_validate_offset s) (fragment_payload s))) = Invalid"

lemma invalid_append:
  assumes "fst (validate m (drop off buf)) = Invalid"
  shows "fst (validate m (drop off (buf @ p))) = Invalid"
proof -
  have "off \<le> length buf" using assms utf8.check_Nil [of m] by (cases "off \<le> length buf") auto
  then show ?thesis using utf8.check_fail_fast [OF assms, of p] by simp
qed

lemma refused_frag: "refused s0 (s\<lparr>fragment_payload := p\<rparr>) = refused s0 s"
  "refused s0 (s\<lparr>fragment_code := c\<rparr>) = refused s0 s"
  by (simp_all add: refused_def messages_def)

lemma doomed_rest:
  assumes "doomed s0 s" "ps \<noteq> []"
  shows "\<exists>s'. handle_frames env (continuations ps) s = Ret s' \<and> refused s0 s'"
  using assms
proof (induction ps arbitrary: s rule: continuations.induct)
  case (2 p)
  then have "fst (validate (utf8_mode s) (drop (fragment_validate_offset s) (fragment_payload s @ p))) = Invalid"
    by (simp add: doomed_def invalid_append del: drop_append)
  then show ?case
    using 2(1) by (simp add: doomed_def dispatch_data refused_def handle_continuation_frame_def Let_def close_closing messages_def del: drop_append)
next
  case (3 p q ps)
  let ?s = "s\<lparr>fragment_payload := fragment_payload s @ p\<rparr>"
  have inv: "fst (validate (utf8_mode s) (drop (fragment_validate_offset s) (fragment_payload s @ p))) = Invalid"
    using 3(2) by (simp add: doomed_def invalid_append del: drop_append)
  then have "handle_frame env op_continuation p s = Ret ?s"
    using 3(2) by (auto simp: doomed_def dispatch_data refused_def handle_continuation_frame_def Let_def close_closing split: prod.splits)
  moreover have "doomed s0 ?s" using 3(2) inv by (simp add: doomed_def refused_frag)
  ultimately show ?case using 3(1) [of ?s] by simp
qed simp

lemma rest_refused:
  assumes "mid False buf s" "con_state s = Open" "ps \<noteq> []" "fst (validate (utf8_mode s) (buf @ concat ps)) \<noteq> Valid"
  shows "\<exists>s'. handle_frames env (continuations ps) s = Ret s' \<and> refused s s'"
  using assms
proof (induction ps arbitrary: buf s rule: continuations.induct)
  case (2 p)
  let ?s = "s\<lparr>fragment_code := op_continuation, fragment_payload := []\<rparr>"
  have "fst (validate (utf8_mode s) (drop (fragment_validate_offset s) (buf @ p))) \<noteq> Valid"
    using utf8.in_step_result [of "utf8_mode s" buf "fragment_validate_offset s" p] 2 by (simp add: mid_def)
  then have "handle_frame env (op_or op_fin op_continuation) p s = close_impl env 1007 invalid_utf8 ?s"
    using 2(1) by (simp add: mid_def dispatch_data handle_continuation_frame_def Let_def)
  moreover obtain s' where "close_impl env 1007 invalid_utf8 ?s = Ret s'" "refused ?s s'"
    using close_open [of ?s env] 2(1,2) by (auto simp: mid_def)
  ultimately show ?case by (auto simp: refused_def messages_def)
next
  case (3 p q ps)
  show ?case
  proof (cases "fst (validate (utf8_mode s) (buf @ p)) = Invalid")
    case False
    then obtain s1 where s1: "handle_frame env op_continuation p s = Ret s1" "mid False (buf @ p) s1" "same_end s s1"
      "messages s1 = messages s" using continuation_more [OF 3(2), of p env] by blast
    then have "\<exists>s'. handle_frames env (continuations (q # ps)) s1 = Ret s' \<and> refused s1 s'"
      using 3(3,5) by (intro 3(1) [of "buf @ p" s1]) (simp_all add: same_end_def)
    with s1 show ?thesis by (auto simp: refused_def same_end_def)
  next
    case True
    let ?s = "s\<lparr>fragment_payload := buf @ p\<rparr>"
    have inv: "fst (validate (utf8_mode s) (drop (fragment_validate_offset s) (buf @ p))) = Invalid"
      using utf8.in_step_result [of "utf8_mode s" buf "fragment_validate_offset s" p] 3(2) True by (simp add: mid_def)
    obtain s1 where s1: "close_impl env 1007 invalid_utf8 ?s = Ret s1" "refused ?s s1" "fragment_code s1 = fragment_code s"
      "fragment_payload s1 = buf @ p" "fragment_validate_offset s1 = fragment_validate_offset s"
      using close_open [of ?s env] 3(2,3) by (auto simp: mid_def)
    have "handle_frame env op_continuation p s = Ret s1"
      using 3(2) inv s1(1) by (auto simp: mid_def dispatch_data handle_continuation_frame_def Let_def split: prod.splits)
    moreover have "refused s s1" using s1(2) by (simp add: refused_def messages_def)
    moreover have "doomed s s1"
      using \<open>refused s s1\<close> inv s1(3-5) 3(2) by (simp add: doomed_def refused_def mid_def)
    ultimately show ?thesis using doomed_rest [of s s1 "q # ps" env] by auto
  qed
qed simp

text \<open>
  C38: A text message that is not valid as a whole, in any fragmentation, is never handed to
  \<open>on_message\<close>: the client starts the closing handshake with code 1007 and ignores the rest of
  it. (The client has to start with a clear offset, see the next theorem.)
\<close>

theorem invalid_text_refused:
  assumes "con_state s = Open" "\<not> pmce_enabled s" "fragment_code s = op_continuation" "fragment_validate_offset s = 0"
    and "ps \<noteq> []" "fst (validate (utf8_mode s) (concat ps)) \<noteq> Valid"
  shows "\<exists>s'. handle_frames env (message_frames op_text ps) s = Ret s' \<and> con_state s' = Client_close \<and>
    filter is_message (events s') = filter is_message (events s) \<and>
    Queued (op_or op_fin op_close) (close_payload 1007 invalid_utf8) \<in> set (events s')"
proof -
  have live: "con_state s \<noteq> Closed" "con_state s \<noteq> Server_close" using assms(1) by simp_all
  have "\<exists>s'. handle_frames env (message_frames op_text ps) s = Ret s' \<and> refused s s'"
  proof (cases ps rule: continuations.cases)
    case 1
    with assms(5) show ?thesis by simp
  next
    case (2 p)
    then show ?thesis
      using close_open [OF assms(1,2), of env] assms
      by (auto simp: dispatch_data live handle_text_frame_def)
  next
    case (3 p q rs)
    show ?thesis
    proof (cases "fst (validate (utf8_mode s) p) = Invalid")
      case False
      then obtain s1 where s1: "handle_frame env op_text p s = Ret s1" "mid False p s1" "same_end s s1" "messages s1 = messages s"
        using first_frame [OF live assms(2,3), of False p env] by auto
      have "\<exists>s'. handle_frames env (continuations (q # rs)) s1 = Ret s' \<and> refused s1 s'"
        by (rule rest_refused [OF s1(2)]) (use assms(1,6) s1(3) 3 in \<open>simp_all add: same_end_def\<close>)
      with s1 3 show ?thesis by (auto simp: refused_def same_end_def)
    next
      case True
      let ?s = "s\<lparr>fragment_code := op_text, fragment_was_compressed := is_compressed_op op_text, fragment_payload := p\<rparr>"
      obtain s1 where s1: "close_impl env 1007 invalid_utf8 ?s = Ret s1" "refused ?s s1" "fragment_code s1 = op_text"
        "fragment_payload s1 = p" "fragment_validate_offset s1 = 0"
        using close_open [of ?s env] assms(1,2,4) by auto
      have "handle_frame env op_text p s = Ret s1"
        using True s1(1) assms(2,3) by (auto simp: dispatch_data live handle_text_frame_def Let_def split: prod.splits)
      moreover have "refused s s1" using s1(2) by (simp add: refused_def messages_def)
      moreover have "doomed s s1" using \<open>refused s s1\<close> True s1(3-5) by (simp add: doomed_def refused_def)
      ultimately show ?thesis using doomed_rest [of s s1 "q # rs" env] 3 by auto
    qed
  qed
  then show ?thesis unfolding refused_def messages_def by blast
qed

theorem invalid_text_refused_witness:
  "\<exists>s'. handle_frames plain_env [(op_text, [0xCE]), (op_continuation, [0x41]), (op_or op_fin op_continuation, [0x42])] example_state = Ret s' \<and>
    con_state s' = Client_close \<and> filter is_message (events s') = filter is_message (events example_state) \<and>
    Queued (op_or op_fin op_close) (close_payload 1007 invalid_utf8) \<in> set (events s')"
proof -
  have v: "fst (validate Mode_pedantic [0xCE, 0x41, 0x42]) = Invalid" by code_simp
  show ?thesis
    using invalid_text_refused [of example_state "[[0xCE], [0x41], [0x42]]" plain_env] v
    by (simp add: example_state_def initial_state_def)
qed

text \<open>
  The offset of the last fragmented message is not reset, and a first fragment that is
  refused does not set it. Here a valid two-octet message is followed by one whose first
  fragment is not UTF-8: the client queues its close frame with code 1007 and then hands the
  invalid text to \<open>on_message\<close> all the same.
\<close>

definition stale_offset_frames :: "(opcode \<times> bytes) list" where
  "stale_offset_frames =
     [(op_text, [0x61, 0x62]), (op_or op_fin op_continuation, []),
      (op_text, [0xFF, 0xFF]), (op_or op_fin op_continuation, [0x63])]"

theorem invalid_text_delivered:
  "map_option (map_sum id events) (handle_frames plain_env stale_offset_frames example_state) =
     Ret [On_message [0x61, 0x62] False,
          Queued (op_or op_fin op_close) (close_payload 1007 invalid_utf8),
          On_message [0xFF, 0xFF, 0x63] False]"
proof -
  have v: "validate Mode_pedantic [] = (Valid, 0)" "validate Mode_pedantic [0x61, 0x62] = (Valid, 2)"
    "validate Mode_pedantic [0xFF, 0xFF] = (Invalid, 0)" "validate Mode_pedantic [0x63] = (Valid, 1)"
    by (code_simp, code_simp, code_simp, code_simp)
  show ?thesis
    by (simp add: stale_offset_frames_def example_state_def initial_state_def dispatch_data handle_text_frame_def Let_def v
        handle_continuation_frame_def call_on_message_def emit_def close_impl_def send_close_frame state_transition_def
        enqueue_frame_def)
qed

end
