(* ===== verification/Ws_Lifecycle.thy ===== *)
theory Ws_Lifecycle
  imports Ws_Parser
begin

text \<open>
  The life of an open connection: a specification as a small machine over the connection
  state, the events and the callbacks that still wait in the queue; the proof that every
  operation of \<open>Ws_State\<close> refines it; and the invariants of the closing handshake, proved on
  the machine by rule induction and carried over.
\<close>

subsection \<open>The specification\<close>

type_synonym conn = "cs \<times> event list \<times> send_cb list"

definition conn_of :: "'z ws \<Rightarrow> conn" where
  "conn_of s = (con_state s, events s, map snd (send_queue s))"

fun incoming :: "event \<Rightarrow> bool" where
  "incoming (On_message _ _) = True"
| "incoming (On_ping _) = True"
| "incoming (On_pong _) = True"
| "incoming _ = False"

fun users :: "send_cb \<Rightarrow> bool" where
  "users (Report_close _ _ _) = False"
| "users _ = True"

fun cb_events :: "send_cb \<Rightarrow> bool \<Rightarrow> event list" where
  "cb_events (Report_close has_cb code reason) ok = (if has_cb then [On_close code reason] else [])"
| "cb_events (User_cb i) ok = [Sent i ok]"
| "cb_events _ ok = []"

inductive conn_step :: "conn \<Rightarrow> conn \<Rightarrow> bool" where
  deliver: "c \<in> {Open, Client_close} \<Longrightarrow> incoming e \<Longrightarrow> conn_step (c, ev, q) (c, ev @ [e], q)"
| answer: "c \<in> {Open, Client_close} \<Longrightarrow> clean_op op = op_pong \<Longrightarrow>
     conn_step (c, ev, q) (c, ev @ [Queued op p], q @ [Keep_state])"
| transmit: "clean_op op \<noteq> op_close \<Longrightarrow> users cb \<Longrightarrow> conn_step (Open, ev, q) (Open, ev @ [Queued op p], q @ [cb])"
| rejected: "users cb \<Longrightarrow> conn_step (c, ev, q) (c, ev @ cb_events cb False, q)"
| start_close: "clean_op op = op_close \<Longrightarrow>
     conn_step (Open, ev, q) (Client_close, ev @ [Queued op p], q @ [Keep_state])"
| peer_reply: "e = [On_close code reason] \<or> e = [] \<Longrightarrow> conn_step (Client_close, ev, q) (Closed, ev @ e, q)"
| peer_close: "clean_op op = op_close \<Longrightarrow>
     conn_step (Open, ev, q) (Closed, ev @ [Queued op p], q @ [Report_close b code reason])"
| lost: "c \<in> {Open, Client_close} \<Longrightarrow> e = [On_close 1006 reason] \<or> e = [] \<Longrightarrow> conn_step (c, ev, q) (Closed, ev @ e, q)"
| sent: "conn_step (c, ev, cb # q) (c, ev @ cb_events cb ok, q)"

abbreviation conn_run :: "conn \<Rightarrow> conn \<Rightarrow> bool" where
  "conn_run \<equiv> conn_step\<^sup>*\<^sup>*"

definition live :: "'z ws \<Rightarrow> bool" where
  "live s \<longleftrightarrow> con_state s \<in> {Open, Client_close, Closed}"

subsection \<open>Operations on the parts that the specification sees\<close>

lemma conn_of_emit: "conn_of (emit e s) = (con_state s, events s @ [e], map snd (send_queue s))"
  by (simp add: conn_of_def emit_def)

lemma conn_of_enqueue:
  "conn_of (enqueue_frame env op buf cb s) = (con_state s, events s @ [Queued op buf], map snd (send_queue s) @ [cb])"
  by (simp add: conn_of_def enqueue_frame_def emit_def)

lemma conn_of_transition: "conn_of (state_transition c s) = (c, events s, map snd (send_queue s))"
  by (simp add: conn_of_def state_transition_def)

lemma conn_of_fields [simp]:
  "conn_of (s\<lparr>fragment_code := a\<rparr>) = conn_of s" "conn_of (s\<lparr>fragment_was_compressed := b\<rparr>) = conn_of s"
  "conn_of (s\<lparr>fragment_payload := p\<rparr>) = conn_of s" "conn_of (s\<lparr>fragment_validate_offset := n\<rparr>) = conn_of s"
  "conn_of (s\<lparr>parser_wanted_size := w\<rparr>) = conn_of s" "conn_of (s\<lparr>parser_data := d\<rparr>) = conn_of s"
  "conn_of (s\<lparr>pmce_inflate := z\<rparr>) = conn_of s" "conn_of (s\<lparr>pmce_deflate := z\<rparr>) = conn_of s"
  "conn_of (s\<lparr>send_event := e\<rparr>) = conn_of s" "conn_of (s\<lparr>on_open := b\<rparr>) = conn_of s" "conn_of (s\<lparr>on_close := b\<rparr>) = conn_of s"
  "conn_of (s\<lparr>on_message := b\<rparr>) = conn_of s" "conn_of (s\<lparr>on_ping := b\<rparr>) = conn_of s" "conn_of (s\<lparr>on_pong := b\<rparr>) = conn_of s"
  "conn_of (s\<lparr>utf8_mode := m\<rparr>) = conn_of s"
  by (simp_all add: conn_of_def)

lemma state_transition_sel [simp]: "on_close (state_transition c s) = on_close s" "utf8_mode (state_transition c s) = utf8_mode s" "con_state (state_transition c s) = c"
  "events (state_transition c s) = events s" "drawn (state_transition c s) = drawn s" "send_queue (state_transition c s) = send_queue s"
  by (simp_all add: state_transition_def)

lemma emit_sel [simp]: "con_state (emit e s) = con_state s" "events (emit e s) = events s @ [e]"
  "send_queue (emit e s) = send_queue s"
  by (simp_all add: emit_def)

lemma run_step: "conn_step a b \<Longrightarrow> conn_run a b"
  by (rule r_into_rtranclp)

lemma close_run:
  assumes "close_impl env code reason s1 = Ret s'" "live s" "conn_of s1 = conn_of s"
  shows "conn_run (conn_of s) (conn_of s')"
proof -
  have c: "con_state s1 = con_state s" "events s1 = events s" "map snd (send_queue s1) = map snd (send_queue s)"
    using assms(3) by (simp_all add: conn_of_def)
  show ?thesis
  proof (cases "con_state s = Open")
    case True
    then have "conn_of s' = (Client_close, events s @ [Queued (op_or op_fin op_close) (close_payload code reason)],
        map snd (send_queue s) @ [Keep_state])"
      using assms(1) c by (auto simp: close_impl_def send_close_frame conn_of_enqueue)
    then show ?thesis using True by (simp add: conn_of_def run_step start_close)
  next
    case False
    then show ?thesis using assms c by (auto simp: close_impl_def live_def)
  qed
qed

lemma server_close_run:
  assumes "con_state s = Open" "close_impl env code reason (state_transition Server_close s) = Ret s'"
  shows "conn_run (conn_of s) (conn_of s')"
  using assms by (auto simp: close_impl_def send_close_frame conn_of_enqueue conn_of_def[of s] intro!: run_step peer_close)

lemma deliver_run:
  assumes "con_state s \<in> {Open, Client_close}" "incoming e" "conn_of s1 = conn_of s"
  shows "conn_run (conn_of s) (conn_of (if b then emit e s1 else s1))"
  using assms by (auto simp: conn_of_emit) (auto simp: conn_of_def intro!: run_step deliver)

lemma message_run:
  assumes "con_state s \<in> {Open, Client_close}" "conn_of s1 = conn_of s"
  shows "conn_run (conn_of s) (conn_of (call_on_message p b s1))"
  using deliver_run [OF assms(1) _ assms(2), of "On_message p b" "on_message s1"] by (simp add: call_on_message_def)

subsection \<open>The handlers\<close>

lemma handle_close_run:
  assumes "con_state s \<in> {Open, Client_close}" "handle_close_frame env op p s = Ret s'"
  shows "conn_run (conn_of s) (conn_of s')"
proof (cases "con_state s = Client_close")
  case True
  then have "s' = state_transition Closed (if on_close s then emit (On_close (if length p \<ge> 2 then get_be16 p else 1000)
      (if length p \<ge> 2 then drop 2 p else p)) s else s)"
    using assms(2) by (simp add: handle_close_frame_def Let_def)
  then show ?thesis
    using True by (auto simp: conn_of_transition conn_of_def [of s] emit_def intro!: run_step peer_reply [of "[]", simplified]
        peer_reply [of "[On_close _ _]"])
next
  case False
  then have o: "con_state s = Open" using assms(1) by simp
  then show ?thesis
    using assms(2) server_close_run [OF o]
    by (auto simp: handle_close_frame_def Let_def split: if_splits)
qed

lemma live_of: "con_state s \<in> {Open, Client_close} \<Longrightarrow> live s"
  by (auto simp: live_def)

lemma handle_ping_run:
  assumes "con_state s \<in> {Open, Client_close}" "handle_ping_frame env op p s = Ret s'"
  shows "conn_run (conn_of s) (conn_of s')"
proof -
  have "send_frame env (op_or op_fin op_pong) p Keep_state s = Ret (enqueue_frame env (op_or op_fin op_pong) p Keep_state s)"
    by (simp add: send_frame_def)
  moreover have "conn_run (conn_of s) (conn_of (enqueue_frame env (op_or op_fin op_pong) p Keep_state s))"
    unfolding conn_of_enqueue using assms(1) by (auto simp: conn_of_def intro!: run_step answer)
  ultimately show ?thesis
    using assms(2) close_run [OF _ live_of [OF assms(1)] refl] deliver_run [OF assms(1), of "On_ping p" s True]
    by (auto simp: handle_ping_frame_def split: if_splits)
qed

lemma handle_pong_run:
  assumes "con_state s \<in> {Open, Client_close}" "handle_pong_frame env op p s = Ret s'"
  shows "conn_run (conn_of s) (conn_of s')"
  using assms(2) close_run [OF _ live_of [OF assms(1)] refl] deliver_run [OF assms(1), of "On_pong p" s True]
  by (auto simp: handle_pong_frame_def split: if_splits)

lemma handle_text_run:
  assumes "handle_text_frame env op p s1 = Ret s'" "con_state s \<in> {Open, Client_close}" "conn_of s1 = conn_of s"
  shows "conn_run (conn_of s) (conn_of s')"
  using assms message_run [OF assms(2,3)]
  by (auto simp: handle_text_frame_def Let_def live_of split: if_splits prod.splits elim!: close_run)

lemma handle_binary_run:
  assumes "handle_binary_frame env op p s1 = Ret s'" "con_state s \<in> {Open, Client_close}" "conn_of s1 = conn_of s"
  shows "conn_run (conn_of s) (conn_of s')"
  using assms message_run [OF assms(2,3)]
  by (auto simp: handle_binary_frame_def live_of split: if_splits elim!: close_run)

lemma handle_continuation_run:
  assumes "handle_continuation_frame env op p s1 = Ret s'" "con_state s \<in> {Open, Client_close}" "conn_of s1 = conn_of s"
  shows "conn_run (conn_of s) (conn_of s')"
  using assms
  by (auto simp: handle_continuation_frame_def Let_def live_of split: if_splits prod.splits elim!: close_run
      intro!: message_run)

lemma handle_data_run:
  assumes "handle_data_frame env op p s1 = Ret s'" "con_state s \<in> {Open, Client_close}" "conn_of s1 = conn_of s"
  shows "conn_run (conn_of s) (conn_of s')"
  using assms by (auto simp: handle_data_frame_def split: if_splits
      elim!: handle_text_run handle_binary_run handle_continuation_run)

lemma inflate_conn: "inflate_some env inp out s = Ret (ok, res, s') \<Longrightarrow> conn_of s' = conn_of s"
  by (auto simp: inflate_some_def andthen_Ret)

lemma deflate_conn: "deflate_some env inp out s = Ret (ok, res, s') \<Longrightarrow> conn_of s' = conn_of s"
  by (auto simp: deflate_some_def andthen_Ret)

lemma decompress_conn:
  assumes "decompress env op p s = Ret r"
  shows "case r of Inl s' \<Rightarrow> conn_of s' = conn_of s | Inr (_, s') \<Rightarrow> conn_of s' = conn_of s"
  using assms by (auto simp: decompress_def andthen_Ret split: if_splits dest!: inflate_conn)

lemma handle_frame_run:
  assumes "live s" "handle_frame env op p s = Ret s'"
  shows "conn_run (conn_of s) (conn_of s')"
proof (cases "con_state s = Closed")
  case True
  with assms(2) show ?thesis by (simp add: handle_frame_def)
next
  case False
  then have c: "con_state s \<in> {Open, Client_close}" using assms(1) by (auto simp: live_def)
  have d: "conn_run (conn_of s) (conn_of s')" if "handle_data_frame env op q s1 = Ret s'" "conn_of s1 = conn_of s" for q s1
    by (rule handle_data_run [OF that(1) c that(2)])
  have k: "conn_run (conn_of s) (conn_of s')" if "close_impl env code reason s1 = Ret s'" "conn_of s1 = conn_of s" for code reason s1
    by (rule close_run [OF that(1) assms(1) that(2)])
  show ?thesis
    using assms(2) c False handle_close_run [OF c] handle_ping_run [OF c] handle_pong_run [OF c]
    by (auto simp: handle_frame_def Let_def andthen_Ret split: if_splits sum.splits dest!: decompress_conn intro: d k)
qed

subsection \<open>The parser and the sending task\<close>

lemma conn_step_live: "conn_step a b \<Longrightarrow> fst a \<in> {Open, Client_close, Closed} \<Longrightarrow> fst b \<in> {Open, Client_close, Closed}"
  by (induction rule: conn_step.induct) auto

lemma conn_run_live: "conn_run a b \<Longrightarrow> fst a \<in> {Open, Client_close, Closed} \<Longrightarrow> fst b \<in> {Open, Client_close, Closed}"
  by (induction rule: rtranclp_induct) (auto dest: conn_step_live)

lemma live_iff: "live s \<longleftrightarrow> fst (conn_of s) \<in> {Open, Client_close, Closed}"
  by (simp add: live_def conn_of_def)

lemma parse_loop_run:
  assumes "parse_loop env s = Ret s'" "live s"
  shows "conn_run (conn_of s) (conn_of s')"
  by (rule parse_loop_rule [where I = live and R = "\<lambda>s t. conn_run (conn_of s) (conn_of t)", OF assms])
    (auto simp: live_iff dest: conn_run_live intro: close_run [OF _ _ refl] handle_frame_run rtranclp_trans)

lemma disconnect_run: "live s \<Longrightarrow> conn_run (conn_of s) (conn_of (raw_on_disconnect s))"
  by (auto simp: live_def raw_on_disconnect_def Let_def conn_of_emit conn_of_def 
      intro!: run_step lost [of _ "[]", simplified] lost)

lemma data_run:
  assumes "raw_on_data_available env cancelled res s = Ret (c, s')" "live s"
  shows "conn_run (conn_of s) (conn_of s')"
proof -
  have d: "conn_run (conn_of s) (conn_of (raw_on_disconnect (s\<lparr>parser_data := d\<rparr>)))" for d
    using disconnect_run [of "s\<lparr>parser_data := d\<rparr>"] assms(2) by (simp add: live_iff)
  have p: "conn_run (conn_of s) (conn_of s')" if "parse_loop env (s\<lparr>parser_data := d\<rparr>) = Ret s'" for d
    using parse_loop_run [OF that] assms(2) by (simp add: live_iff)
  show ?thesis
    using assms disconnect_run [OF assms(2)] d p parse_loop_run
    by (cases res) (auto simp: raw_on_data_available_def andthen_Ret split: if_splits)
qed

lemma conn_of_run_cb:
  "conn_of (run_cb cb ok s) = (con_state s, events s @ cb_events cb ok, map snd (send_queue s))"
  by (cases cb) (auto simp: run_cb_def conn_of_emit conn_of_def)

lemma send_step_run: "conn_run (conn_of s) (conn_of (send_step n s))"
proof (cases "send_queue s")
  case (Cons x q)
  obtain data cb where x: "x = (data, cb)" by (cases x)
  show ?thesis
    using Cons by (simp add: send_step_def x conn_of_run_cb) (auto simp: conn_of_def x intro!: run_step sent)
qed (simp add: send_step_def)

lemma drain_run: "conn_run (conn_of s) (conn_of (drain_queue s))"
proof -
  have "conn_run (c, ev, map snd q) (conn_of (fold (\<lambda>(_, cb). run_cb cb False) q t))"
    if "con_state t = c" "events t = ev" "send_queue t = []" for c ev q and t :: "'a ws"
    using that
  proof (induction q arbitrary: ev t)
    case Nil
    then show ?case by (simp add: conn_of_def)
  next
    case (Cons x q)
    obtain data cb where x: "x = (data, cb)" by (cases x)
    have t: "conn_of (run_cb cb False t) = (c, ev @ cb_events cb False, [])" using Cons.prems by (simp add: conn_of_run_cb)
    then have "conn_run (c, ev @ cb_events cb False, map snd q) (conn_of (fold (\<lambda>(_, cb). run_cb cb False) q (run_cb cb False t)))"
      by (intro Cons.IH) (simp_all add: conn_of_def)
    moreover have "conn_step (c, ev, cb # map snd q) (c, ev @ cb_events cb False, map snd q)" by (rule sent)
    ultimately show ?case by (simp add: x converse_rtranclp_into_rtranclp)
  qed
  from this [of "s\<lparr>send_queue := []\<rparr>" "con_state s" "events s" "send_queue s"]
  show ?thesis by (simp add: drain_queue_def conn_of_def)
qed

subsection \<open>The interface\<close>

lemma clean_op_compressed: "clean_op (op_or op op_compressed) = clean_op op"
proof -
  have "(0x0f :: u8) = mask 4" "(0x40 :: u8) = push_bit 6 1" by (simp_all add: mask_eq_exp_minus_1 push_bit_eq_mult)
  then have "bit ((op OR 0x40) AND 0x0f) n = bit (op AND 0x0f) n" if "n < 8" for n
    using bit_exp_iff [of 6 n, where 'a = u8] that by (auto simp: bit_and_iff bit_or_iff bit_mask_iff)
  then have "(op OR 0x40) AND 0x0f = op AND 0x0f" by (intro bit_word_eqI) simp
  then show ?thesis by (simp add: clean_op_def op_or_def op_compressed_def)
qed

lemma send_run:
  assumes "ws_send_frame env op data cb s = Ret s'" "clean_op op \<noteq> op_close" "users cb"
  shows "conn_run (conn_of s) (conn_of s')"
proof (cases "con_state s = Open")
  case False
  with assms(1,3) have "s' = run_cb cb False s" by (simp add: ws_send_frame_def)
  with assms(3) show ?thesis by (simp add: conn_of_run_cb) (simp add: conn_of_def run_step rejected)
next
  case True
  obtain op' buf s1 where "s' = enqueue_frame env op' buf cb s1" "clean_op op' = clean_op op" "conn_of s1 = conn_of s"
    using assms(1,2) True
    by (auto simp: ws_send_frame_def send_frame_def andthen_Ret clean_op_compressed Let_def split: if_splits dest!: deflate_conn)
  then show ?thesis
    using True assms(2,3) by (simp add: conn_of_enqueue) (auto simp: conn_of_def intro!: run_step transmit)
qed

lemma clean_sends: "clean_op (op_or op_fin (if b then op_binary else op_text)) \<noteq> op_close"
  "clean_op (op_or op_fin op_ping) \<noteq> op_close" "clean_op (op_or op_fin op_pong) \<noteq> op_close"
  by (cases b; simp add: clean_op_def op_or_def opcode_defs)+

lemma user_close_run:
  assumes "ws_close env code reason s = Ret s'" "live s"
  shows "conn_run (conn_of s) (conn_of s')"
  using assms by (auto simp: ws_close_def split: if_splits elim!: close_run)

subsection \<open>Steps of a connection\<close>

text \<open>
  Everything that can happen to an open connection, each as one call into the model: what the
  user calls (with callbacks of the user), what the socket reports, and rounds of the sending
  task.
\<close>

inductive ws_step :: "'z env \<Rightarrow> 'z ws \<Rightarrow> 'z ws \<Rightarrow> bool" for env where
  user_closes: "ws_close env code reason s = Ret s' \<Longrightarrow> ws_step env s s'"
| user_sends: "users cb \<Longrightarrow> ws_send env data binary cb s = Ret s' \<Longrightarrow> ws_step env s s'"
| user_pings: "users cb \<Longrightarrow> ws_send_ping env data cb s = Ret s' \<Longrightarrow> ws_step env s s'"
| user_pongs: "users cb \<Longrightarrow> ws_send_pong env data cb s = Ret s' \<Longrightarrow> ws_step env s s'"
| user_sets: "s' \<in> {set_on_open b s, set_on_close b s, set_on_message b s, set_on_ping b s, set_on_pong b s,
     set_utf8_validation_mode m s} \<Longrightarrow> ws_step env s s'"
| socket: "raw_on_data_available env cancelled res s = Ret (c, s') \<Longrightarrow> ws_step env s s'"
| task: "ws_step env s (send_step n s)"
| task_ends: "ws_step env s (drain_queue s)"

inductive_cases ws_stepE: "ws_step env s s'"

lemma ws_step_run:
  assumes "ws_step env s s'" "live s"
  shows "conn_run (conn_of s) (conn_of s')"
  using assms
proof cases
  case (user_sets b m)
  then show ?thesis
    by (auto simp: set_on_open_def set_on_close_def set_on_message_def set_on_ping_def set_on_pong_def
        set_utf8_validation_mode_def)
qed (auto simp: ws_send_def ws_send_ping_def ws_send_pong_def intro: user_close_run data_run send_step_run drain_run
      send_run [OF _ clean_sends(1)] send_run [OF _ clean_sends(2)] send_run [OF _ clean_sends(3)])

definition fresh :: "'z ws \<Rightarrow> bool" where
  "fresh s \<longleftrightarrow> con_state s = Open \<and> events s = [] \<and> send_queue s = []"

abbreviation ws_run :: "'z env \<Rightarrow> 'z ws \<Rightarrow> 'z ws \<Rightarrow> bool" where
  "ws_run env \<equiv> (ws_step env)\<^sup>*\<^sup>*"

lemma ws_run_conn:
  assumes "ws_run env s s'" "live s"
  shows "live s' \<and> conn_run (conn_of s) (conn_of s')"
  using assms
proof (induction rule: rtranclp_induct)
  case (step t u)
  then have "live t" "conn_run (conn_of s) (conn_of t)" by simp_all
  with ws_step_run [OF step.hyps(2)] have "conn_run (conn_of s) (conn_of u)" by (blast intro: rtranclp_trans)
  with conn_run_live [OF this] step.prems show ?case by (simp add: live_iff)
qed simp

subsection \<open>Invariants of the specification\<close>

fun is_on_close :: "event \<Rightarrow> bool" where
  "is_on_close (On_close _ _) = True"
| "is_on_close _ = False"

fun is_close_frame :: "event \<Rightarrow> bool" where
  "is_close_frame (Queued op _) = (clean_op op = op_close)"
| "is_close_frame _ = False"

fun is_other_frame :: "event \<Rightarrow> bool" where
  "is_other_frame (Queued op _) = (clean_op op \<noteq> op_pong)"
| "is_other_frame _ = False"

fun reports :: "send_cb \<Rightarrow> bool" where
  "reports (Report_close b _ _) = b"
| "reports _ = False"

text \<open>No event of the second kind after one of the first.\<close>

fun never_after :: "('e \<Rightarrow> bool) \<Rightarrow> ('e \<Rightarrow> bool) \<Rightarrow> 'e list \<Rightarrow> bool" where
  "never_after p q [] = True"
| "never_after p q (e # es) = ((p e \<longrightarrow> list_all (\<lambda>x. \<not> q x) es) \<and> never_after p q es)"

lemma never_after_append [simp]:
  "never_after p q (es @ fs) \<longleftrightarrow>
     never_after p q es \<and> never_after p q fs \<and> (list_ex p es \<longrightarrow> list_all (\<lambda>x. \<not> q x) fs)"
  by (induction es) auto

lemma no_incoming [simp]: "list_all (\<lambda>x. \<not> incoming x) (cb_events cb ok)" "never_after p incoming (cb_events cb ok)"
    "\<not> list_ex is_close_frame (cb_events cb ok)" "list_all (\<lambda>x. \<not> is_other_frame x) (cb_events cb ok)"
    "never_after p is_other_frame (cb_events cb ok)" "filter is_close_frame (cb_events cb ok) = []"
    "length (filter is_on_close (cb_events cb ok)) = (if reports cb then 1 else 0)"
    "list_ex is_on_close (cb_events cb ok) = reports cb"
  by (cases cb; simp)+

lemma incoming_simps [simp]:
  "incoming e \<Longrightarrow> \<not> is_on_close e" "incoming e \<Longrightarrow> \<not> is_close_frame e" "incoming e \<Longrightarrow> \<not> is_other_frame e"
  "users cb \<Longrightarrow> \<not> reports cb"
  by (cases e; simp)+ (cases cb; simp)

definition close_reports :: "conn \<Rightarrow> nat" where
  "close_reports x = (case x of (_, ev, q) \<Rightarrow> length (filter is_on_close ev) + length (filter reports q))"

definition one_report :: "conn \<Rightarrow> bool" where
  "one_report x \<longleftrightarrow> close_reports x \<le> (if fst x = Closed then 1 else 0)"

lemma one_report_step: "conn_step x y \<Longrightarrow> one_report x \<Longrightarrow> one_report y"
  by (induction rule: conn_step.induct) (auto simp: one_report_def close_reports_def split: if_splits)

definition one_close_frame :: "conn \<Rightarrow> bool" where
  "one_close_frame x \<longleftrightarrow> (case x of (c, ev, _) \<Rightarrow>
     length (filter is_close_frame ev) \<le> (if c = Open then 0 else 1) \<and> never_after is_close_frame is_other_frame ev)"

lemma no_close_frame: "filter is_close_frame ev = [] \<Longrightarrow> \<not> list_ex is_close_frame ev"
  by (auto simp: filter_empty_conv list_ex_iff)

lemma one_close_frame_step: "conn_step x y \<Longrightarrow> one_close_frame x \<Longrightarrow> one_close_frame y"
  by (induction rule: conn_step.induct)
    (auto simp: one_close_frame_def opcode_defs dest: no_close_frame split: if_splits)

definition quiet_end :: "conn \<Rightarrow> bool" where
  "quiet_end x \<longleftrightarrow> (case x of (c, ev, q) \<Rightarrow> never_after is_on_close incoming ev)"

lemma no_report: "one_report (c, ev, q) \<Longrightarrow> c \<noteq> Closed \<Longrightarrow> \<not> list_ex is_on_close ev"
  by (auto simp: one_report_def close_reports_def list_ex_iff filter_empty_conv)

lemma quiet_end_step: "conn_step x y \<Longrightarrow> one_report x \<Longrightarrow> quiet_end x \<Longrightarrow> quiet_end y"
  by (induction rule: conn_step.induct) (auto simp: quiet_end_def dest: no_report)

lemma conn_invariant_from:
  assumes "conn_run x y" "one_report x" "one_close_frame x" "quiet_end x"
  shows "one_report y \<and> one_close_frame y \<and> quiet_end y"
  using assms(1)
proof (induction rule: rtranclp_induct)
  case (step y z)
  then show ?case using one_report_step one_close_frame_step quiet_end_step by blast
qed (use assms in blast)

lemma conn_start: "one_close_frame (Open, [], q)" "quiet_end (Open, [], q)" "one_report (Open, [], q) \<longleftrightarrow> filter reports q = []"
  by (simp_all add: one_close_frame_def quiet_end_def one_report_def close_reports_def)

lemma conn_invariant:
  assumes "conn_run x y" "x = (Open, [], [])"
  shows "one_report y \<and> one_close_frame y \<and> quiet_end y"
  using conn_invariant_from [OF assms(1)] conn_start assms(2) by simp

text \<open>What has happened before does not matter to a step.\<close>

lemma conn_step_after:
  assumes "conn_step (c, pre @ ev, q) y"
  shows "\<exists>d. fst (snd y) = pre @ d \<and> conn_step (c, ev, q) (fst y, d, snd (snd y))"
  using assms by cases (auto intro: conn_step.intros)

lemma conn_run_after:
  assumes "conn_run x y" "x = (c, pre @ ev, q)"
  shows "\<exists>d. fst (snd y) = pre @ d \<and> conn_run (c, ev, q) (fst y, d, snd (snd y))"
  using assms(1)
proof (induction rule: rtranclp_induct)
  case base
  then show ?case using assms(2) by simp
next
  case (step y z)
  then obtain d where d: "y = (fst y, pre @ d, snd (snd y))" "conn_run (c, ev, q) (fst y, d, snd (snd y))" by (metis prod.collapse)
  with conn_step_after [of "fst y" pre d "snd (snd y)" z] step.hyps(2) obtain d' where
    "fst (snd z) = pre @ d'" "conn_step (fst y, d, snd (snd y)) (fst z, d', snd (snd z))" by metis
  with d(2) show ?case by (blast intro: rtranclp.rtrancl_into_rtrancl)
qed

lemma ws_invariant:
  assumes "fresh s" "ws_run env s s'"
  shows "one_report (conn_of s') \<and> one_close_frame (conn_of s') \<and> quiet_end (conn_of s')"
proof -
  have "live s" "conn_of s = (Open, [], [])" using assms(1) by (simp_all add: fresh_def live_def conn_of_def)
  with ws_run_conn [OF assms(2)] conn_invariant show ?thesis by blast
qed

subsection \<open>Properties\<close>

definition fresh_example :: "unit ws" where
  "fresh_example = (initial_state ())\<lparr>con_state := Open, on_close := True\<rparr>"

lemma example_validate: "validate m [] = (Valid, 0)"
  by (cases m) (simp_all add: validate_def)

lemma example_close: "ws_close plain_env 1000 [] fresh_example =
   Ret (enqueue_frame plain_env (op_or op_fin op_close) (close_payload 1000 []) Keep_state (state_transition Client_close fresh_example))"
  by (simp add: ws_close_def example_validate close_impl_def send_close_frame fresh_example_def)

text \<open>
  C7: Whatever happens to a connection (a call of the user, bytes or the end of the stream on the
  socket, a round of the sending task), its state, events and pending callbacks change only by
  steps of the connection machine.
\<close>

theorem ws_step_refines:
  assumes "ws_step env s s'" "live s"
  shows "conn_step\<^sup>*\<^sup>* (conn_of s) (conn_of s') \<and> live s'"
  using ws_run_conn [OF r_into_rtranclp [of "ws_step env", OF assms(1)] assms(2)] by simp

theorem ws_step_refines_witness:
  "\<exists>s' :: unit ws. con_state s' = Client_close \<and> conn_step\<^sup>*\<^sup>* (conn_of fresh_example) (conn_of s') \<and> live s'"
proof -
  have "live fresh_example" by (simp add: live_def fresh_example_def)
  from ws_step_refines [OF user_closes [OF example_close] this] show ?thesis
    by (intro exI [where x = "enqueue_frame plain_env (op_or op_fin op_close) (close_payload 1000 []) Keep_state
      (state_transition Client_close fresh_example)"]) (auto simp: enqueue_frame_def)
qed

text \<open>
  The user is told at most once that a connection has ended: the calls of \<open>on_close\<close> made and
  those waiting in the send queue are together at most one, and there is none while the
  connection is open or the user's own close is pending.
\<close>

theorem on_close_called_once:
  assumes "fresh s" "(ws_step env)\<^sup>*\<^sup>* s s'"
  shows "length (filter is_on_close (events s')) + length (filter (\<lambda>(_, cb). reports cb) (send_queue s'))
    \<le> (if con_state s' = Closed then 1 else 0)"
  using ws_invariant [OF assms]
  by (simp add: one_report_def close_reports_def conn_of_def filter_map comp_def case_prod_unfold)

theorem on_close_called_once_witness:
  "\<exists>s'. (ws_step plain_env)\<^sup>*\<^sup>* fresh_example s' \<and> con_state s' = Closed \<and> is_on_close (last (events s')) \<and>
    length (filter is_on_close (events s')) + length (filter (\<lambda>(_, cb). reports cb) (send_queue s')) \<le> 1"
proof -
  let ?s = "raw_on_disconnect fresh_example"
  have "raw_on_data_available plain_env True Try_again fresh_example = Ret (Cb_clear, ?s)"
    by (simp add: raw_on_data_available_def)
  then have r: "(ws_step plain_env)\<^sup>*\<^sup>* fresh_example ?s" by (intro r_into_rtranclp) (rule socket)
  have f: "fresh fresh_example" by (simp add: fresh_def fresh_example_def initial_state_def)
  have "con_state ?s = Closed" "is_on_close (last (events ?s))"
    by (simp_all add: raw_on_disconnect_def Let_def fresh_example_def)
  with on_close_called_once [OF f r] r show ?thesis by (intro exI [of _ ?s]) simp
qed

text \<open>
  At most one close frame is ever queued, none while the connection is open, and after it
  only the pongs that answer pings: no text, binary or ping frame.
\<close>

theorem nothing_sent_after_close:
  assumes "fresh s" "(ws_step env)\<^sup>*\<^sup>* s s'"
  shows "length (filter is_close_frame (events s')) \<le> (if con_state s' = Open then 0 else 1) \<and>
    never_after is_close_frame is_other_frame (events s')"
  using ws_invariant [OF assms] by (simp add: one_close_frame_def conn_of_def)

theorem nothing_sent_after_close_witness:
  "\<exists>s'. (ws_step plain_env)\<^sup>*\<^sup>* fresh_example s' \<and> con_state s' = Client_close \<and> length (events s') = 1 \<and>
    length (filter is_close_frame (events s')) \<le> 1 \<and> never_after is_close_frame is_other_frame (events s')"
proof -
  let ?s = "enqueue_frame plain_env (op_or op_fin op_close) (close_payload 1000 []) Keep_state (state_transition Client_close fresh_example)"
  have r: "(ws_step plain_env)\<^sup>*\<^sup>* fresh_example ?s" by (intro r_into_rtranclp) (rule user_closes [OF example_close])
  have f: "fresh fresh_example" by (simp add: fresh_def fresh_example_def initial_state_def)
  have "con_state ?s = Client_close" "length (events ?s) = 1"
    by (simp_all add: enqueue_frame_def fresh_example_def initial_state_def)
  with nothing_sent_after_close [OF f r] r show ?thesis by (intro exI [of _ ?s]) simp
qed

text \<open>
  Once the user has been told that the connection has ended, no message, ping or pong is
  delivered.
\<close>

theorem nothing_delivered_after_on_close:
  assumes "fresh s" "(ws_step env)\<^sup>*\<^sup>* s s'"
  shows "never_after is_on_close incoming (events s')"
  using ws_invariant [OF assms] by (simp add: quiet_end_def conn_of_def)

theorem nothing_delivered_after_on_close_witness:
  "\<exists>s'. (ws_step plain_env)\<^sup>*\<^sup>* fresh_example s' \<and> is_on_close (hd (events s')) \<and> length (events s') = 2 \<and>
    never_after is_on_close incoming (events s')"
proof -
  let ?s = "raw_on_disconnect fresh_example"
  let ?t = "run_cb (User_cb 3) False ?s"
  have "raw_on_data_available plain_env True Try_again fresh_example = Ret (Cb_clear, ?s)"
    by (simp add: raw_on_data_available_def)
  then have "ws_step plain_env fresh_example ?s" by (rule socket)
  moreover have "ws_send_ping plain_env [] (User_cb 3) ?s = Ret ?t"
    by (simp add: ws_send_ping_def ws_send_frame_def raw_on_disconnect_def Let_def)
  then have "ws_step plain_env ?s ?t" by (rule user_pings [rotated]) simp
  ultimately have r: "(ws_step plain_env)\<^sup>*\<^sup>* fresh_example ?t" by (auto intro: converse_rtranclp_into_rtranclp)
  have f: "fresh fresh_example" by (simp add: fresh_def fresh_example_def initial_state_def)
  have "is_on_close (hd (events ?t))" "length (events ?t) = 2"
    by (simp_all add: raw_on_disconnect_def Let_def fresh_example_def run_cb_def initial_state_def)
  with nothing_delivered_after_on_close [OF f r] r show ?thesis by (intro exI [of _ ?t]) simp
qed

lemma run_cb_queue: "send_queue (run_cb cb ok s) = send_queue s"
  by (cases cb) (simp_all add: run_cb_def)

lemma drained: "send_queue (fold (\<lambda>(_, cb). run_cb cb ok) q s) = send_queue s"
  by (induction q arbitrary: s) (auto simp: run_cb_queue)

text \<open>The calls of \<open>on_close\<close> made, followed by those that wait in the queue.\<close>

definition close_calls :: "conn \<Rightarrow> event list" where
  "close_calls x = (case x of (_, ev, q) \<Rightarrow> filter is_on_close (ev @ concat (map (\<lambda>cb. cb_events cb True) q)))"

lemma is_on_close_cb: "filter is_on_close (cb_events cb ok) = filter is_on_close (cb_events cb True)"
  "users cb \<Longrightarrow> filter is_on_close (cb_events cb ok) = []" "\<not> reports cb \<Longrightarrow> filter is_on_close (cb_events cb ok) = []"
  by (cases cb; simp)+

lemma close_calls_step: "conn_step x y \<Longrightarrow> fst x = Closed \<Longrightarrow> fst y = Closed \<and> close_calls y = close_calls x"
  by (induction rule: conn_step.induct) (auto simp: close_calls_def is_on_close_cb(2) intro: is_on_close_cb(1))

lemma close_calls_run: "conn_run x y \<Longrightarrow> fst x = Closed \<Longrightarrow> fst y = Closed \<and> close_calls y = close_calls x"
  by (induction rule: rtranclp_induct) (auto dest: close_calls_step)

lemma send_steps_queue: "send_queue (fold send_step ns s) = drop (length ns) (send_queue s)"
  by (induction ns arbitrary: s) (simp_all add: send_step_def run_cb_queue drop_Suc split: list.splits prod.splits)

lemma no_reports_waiting: "list_all (\<lambda>(_, cb). \<not> reports cb) q \<Longrightarrow> filter is_on_close (concat (map (\<lambda>cb. cb_events cb True) (map snd q))) = []"
  by (induction q) (auto simp: is_on_close_cb(3))

lemma handle_peer_close:
  assumes "con_state s = Open" "\<not> close_code_refused code" "length reason \<le> 123" "fst (validate (utf8_mode s) reason) = Valid"
    "payload = set_be16 code @ reason \<or> payload = [] \<and> code = 1000 \<and> reason = []"
  shows "handle_frame env 0x88 payload s =
    Ret (enqueue_frame env 0x88 (set_be16 code @ reason) (Report_close (on_close s) code reason) (state_transition Closed (state_transition Server_close s)))"
proof -
  have op: "op_or op_fin op_close = 0x88" by (simp add: op_or_def opcode_defs)
  show ?thesis
    using assms by (auto simp: handle_frame_def clean_op_def opcode_defs handle_close_frame_def Let_def op_not_def op_and_def close_impl_def
      send_frame_def op [unfolded opcode_defs] close_payload_def close_code_refused_def)
qed

text \<open>
  C33: A valid close frame of the peer on an open connection (or one without a payload, which stands for
  the code 1000) is echoed, with the same code and reason, at the end of the send queue, and the connection
  is closed. Whatever happens from then on (calls, frames, rounds of the sending task with any result),
  \<open>on_close\<close> has been called once more than before, with the peer's code and reason, as soon as
  the queue is worked off: by as many rounds as it has frames, or by the task that ends and drops it.
\<close>

theorem peer_close_echoed_and_reported:
  assumes "con_state s = Open" "on_close s" "list_all (\<lambda>(_, cb). \<not> reports cb) (send_queue s)" "\<not> close_code_refused code"
    "length reason \<le> 123" "fst (validate (utf8_mode s) reason) = Valid"
    "payload = set_be16 code @ reason \<or> payload = [] \<and> code = 1000 \<and> reason = []"
  shows "\<exists>s'. handle_frame env 0x88 payload s = Ret s' \<and> con_state s' = Closed \<and>
    send_queue s' = send_queue s @ [(encode_frame 0x88 (random_key env s) (set_be16 code @ reason), Report_close True code reason)] \<and>
    (\<forall>t. (ws_step env)\<^sup>*\<^sup>* s' t \<longrightarrow>
       (send_queue t = [] \<longrightarrow> filter is_on_close (events t) = filter is_on_close (events s) @ [On_close code reason]) \<and>
       filter is_on_close (events (drain_queue t)) = filter is_on_close (events s) @ [On_close code reason]) \<and>
    (\<forall>ns. length (send_queue s) < length ns \<longrightarrow>
       filter is_on_close (events (fold send_step ns s')) = filter is_on_close (events s) @ [On_close code reason])"
proof -
  define s' where "s' = enqueue_frame env 0x88 (set_be16 code @ reason) (Report_close True code reason) (state_transition Closed (state_transition Server_close s))"
  have h: "handle_frame env 0x88 payload s = Ret s'" using handle_peer_close [OF assms(1,4-7)] assms(2) by (simp add: s'_def)
  have c: "con_state s' = Closed" and q: "send_queue s' = send_queue s @
      [(encode_frame 0x88 (random_key env s) (set_be16 code @ reason), Report_close True code reason)]"
    by (simp_all add: s'_def enqueue_frame_def random_key_def state_transition_def emit_def)
  have calls: "close_calls (conn_of s') = filter is_on_close (events s) @ [On_close code reason]"
    using no_reports_waiting [OF assms(3)] by (simp add: s'_def conn_of_enqueue close_calls_def)
  have run: "close_calls (conn_of t) = close_calls (conn_of s')" if "ws_run env s' t" for t
    using ws_run_conn [OF that] close_calls_run [of "conn_of s'" "conn_of t"] c by (auto simp: live_def conn_of_def)
  have final: "filter is_on_close (events t) = filter is_on_close (events s) @ [On_close code reason]" if "ws_run env s' t" "send_queue t = []" for t
    using run [OF that(1)] calls that(2) by (simp add: close_calls_def conn_of_def)
  have "ws_run env s' (drain_queue t)" if "ws_run env s' t" for t using that ws_step.task_ends by (rule rtranclp.rtrancl_into_rtrancl)
  moreover have "send_queue (drain_queue t) = []" for t :: "'a ws" by (simp add: drain_queue_def drained)
  moreover have "ws_run env s (fold send_step ns s)" for ns and s :: "'a ws"
    by (induction ns arbitrary: s) (auto intro: converse_rtranclp_into_rtranclp ws_step.task)
  moreover have "send_queue (fold send_step ns s') = []" if "length (send_queue s) < length ns" for ns
    using that by (simp add: send_steps_queue q)
  ultimately show ?thesis using h c q final by (intro exI [of _ s']) simp
qed

theorem peer_close_echoed_and_reported_witness:
  "\<exists>s'. handle_frame plain_env 0x88 (set_be16 1001 @ [0x62, 0x79, 0x65]) fresh_example = Ret s' \<and> con_state s' = Closed \<and>
    filter is_on_close (events (drain_queue s')) = [On_close 1001 [0x62, 0x79, 0x65]] \<and>
    filter is_on_close (events (fold send_step [11] s')) = [On_close 1001 [0x62, 0x79, 0x65]]"
proof -
  have "\<not> close_code_refused 1001" by (simp add: close_code_refused_def)
  moreover have "fst (validate (utf8_mode fresh_example) [0x62, 0x79, 0x65]) = Valid"
    by (simp add: fresh_example_def initial_state_def) code_simp
  moreover have "con_state fresh_example = Open" "on_close fresh_example" "send_queue fresh_example = []" "events fresh_example = []"
    by (simp_all add: fresh_example_def initial_state_def)
  ultimately show ?thesis
    using peer_close_echoed_and_reported [of fresh_example 1001 "[0x62, 0x79, 0x65]" "set_be16 1001 @ [0x62, 0x79, 0x65]" plain_env]
    by (auto dest: spec [of _ "[11]"])
qed

end
