(* ===== verification/Ws_Handshake.thy ===== *)
theory Ws_Handshake
  imports Ws_Lifecycle Sha1_Props Base64 Header_Map
begin

text \<open>
  \<open>src/curl/websocket.cpp\<close>: the constructor of \<open>websocket\<close>, \<open>connect\<close>, the opening handshake
  and the destructor. What the peer sends arrives as the results of \<open>tcp_client::recv\<close>, a list
  of pieces; an empty piece or the end of the list is a closed connection. The separators that
  \<open>string_split\<close> gets here are not empty, so it returns.
\<close>

subsection \<open>Construction and connecting\<close>

definition ws_magic_string :: string where
  "ws_magic_string = ''258EAFA5-E914-47DA-95CA-C5AB0DC85B11''"

definition default_headers :: "string \<Rightarrow> string \<Rightarrow> header_map" where
  "default_headers version nonce =
     foldl (\<lambda>m (k, v). header_emplace k v m) []
       [(''User-Agent'', ''asyncpp-curl, libcurl '' @ version),
        (''Connection'', ''Upgrade''),
        (''Upgrade'', ''websocket''),
        (''Sec-WebSocket-Version'', ''13''),
        (''Sec-WebSocket-Extensions'', ''permessage-deflate; client_max_window_bits''),
        (''Sec-WebSocket-Key'', nonce)]"

definition random_nonce :: "'z env \<Rightarrow> bytes" where
  "random_nonce env = map (rng env) [0..<16]"

definition websocket_ctor :: "bool \<Rightarrow> string \<Rightarrow> 'z env \<Rightarrow> 'z \<Rightarrow> 'z ws outcome" where
  "websocket_ctor le version env z =
     (case base64_encode (random_nonce env) of
        Inl e \<Rightarrow> Throw e
      | Inr nonce \<Rightarrow>
          (case sha1_hash le (bytes_of_string (nonce @ ws_magic_string)) of
             None \<Rightarrow> None
           | Some hash \<Rightarrow>
               (case base64_encode hash of
                  Inl e \<Rightarrow> Throw e
                | Inr accept \<Rightarrow>
                    Ret ((initial_state z)\<lparr>request_headers := default_headers version nonce,
                           handshake_nonce := accept, drawn := 16\<rparr>))))"

text \<open>\<open>connect\<close>, with the arguments it passes to \<open>tcp_client::connect\<close>; the port becomes a \<open>uint16_t\<close>.\<close>

definition ws_connect :: "uri \<Rightarrow> 'z ws \<Rightarrow> 'z ws \<times> string \<times> u16 \<times> bool" where
  "ws_connect url s =
     (s\<lparr>con_state := Connect, last_url := url\<rparr>, m_host url, word_of_int (m_port url), m_scheme url = ''wss'')"

definition call_on_open :: "int \<Rightarrow> 'z ws \<Rightarrow> 'z ws" where
  "call_on_open code s = (if on_open s then emit (On_open code) s else s)"

text \<open>\<open>raw_on_connect\<close>; the first component says whether it starts the handshake and the sending task.\<close>

definition raw_on_connect :: "int \<Rightarrow> 'z ws \<Rightarrow> bool \<times> 'z ws" where
  "raw_on_connect code s =
     (let s = state_transition Handshake s in
      if code \<noteq> 0 then (False, call_on_open code s) else (True, s\<lparr>send_should_exit := False\<rparr>))"

definition crlf :: string where
  "crlf = [CHR 0x0D, CHR 0x0A]"

definition request_text :: "'z ws \<Rightarrow> string" where
  "request_text s =
     ''GET '' @ path_query (last_url s) @ '' HTTP/1.1'' @ crlf @
     ''Host: '' @ m_host (last_url s) @
       (if m_port (last_url s) > 0 then '':'' @ int_to_string (m_port (last_url s)) else []) @ crlf @
     foldl (\<lambda>request e. request @ fst e @ '': '' @ snd e @ crlf) [] (request_headers s) @ crlf"

subsection \<open>Reading the answer\<close>

fun read_until :: "'a list \<Rightarrow> 'a list list \<Rightarrow> 'a list \<Rightarrow> ('a list \<times> 'a list) option" where
  "read_until delim [] result = None"
| "read_until delim (c # cs) result =
     (if c = [] then None
      else let result = result @ c in
        case find_sub delim result of
          Some pos \<Rightarrow> Some (take pos result, drop (pos + length delim) result)
        | None \<Rightarrow> read_until delim cs result)"

definition split_on :: "string \<Rightarrow> string \<Rightarrow> string list" where
  "split_on s delim = (case string_split s delim of Some parts \<Rightarrow> parts | None \<Rightarrow> [])"

text \<open>The curl codes that the handshake throws.\<close>

definition recv_error :: cpp_error where "recv_error = Curl_exception 56 False"
definition weird_server_reply :: cpp_error where "weird_server_reply = Curl_exception 8 False"
definition http_returned_error :: cpp_error where "http_returned_error = Curl_exception 22 False"
definition out_of_memory :: cpp_error where "out_of_memory = Curl_exception 27 False"

text \<open>
  The status line: version, blanks, code, blank, reason. The last \<open>substr\<close> gets \<open>npos\<close> when
  nothing follows the code but blanks, and throws.
\<close>

definition parse_status :: "string \<Rightarrow> cpp_error + nat" where
  "parse_status line =
     (case find_if ((=) (CHR '' '')) line of
        None \<Rightarrow> Inl weird_server_reply
      | Some pos \<Rightarrow>
          (case find_if ((\<noteq>) (CHR '' '')) (drop pos line) of
             None \<Rightarrow> Inl Out_of_range
           | Some i \<Rightarrow>
               let line = drop (pos + i) line in
               (case find_if ((=) (CHR '' '')) line of
                  None \<Rightarrow> Inl weird_server_reply
                | Some pos \<Rightarrow>
                    (case stoull (take pos line) of
                       Inl e \<Rightarrow> Inl e
                     | Inr code \<Rightarrow>
                         if code < 100 \<or> code > 600 then Inl weird_server_reply
                         else if find_if ((\<noteq>) (CHR '' '')) (drop pos line) = None then Inl Out_of_range
                         else Inr code))))"

definition collect_header :: "header_map \<Rightarrow> string \<Rightarrow> header_map" where
  "collect_header m e =
     (case split_on e '':'' of
        [k, v] \<Rightarrow> header_emplace (string_trim k) (string_trim v) m
      | _ \<Rightarrow> m)"

text \<open>The surroundings of one handshake: what the peer sends and what zlib answers.\<close>

record 'z net =
  recv_chunks :: "bytes list"
  first_read :: received
  inflate_init :: "int \<times> 'z"
  deflate_init :: "int \<Rightarrow> int \<times> 'z"

text \<open>One element of the list of extensions.\<close>

definition deflate_window :: "string \<Rightarrow> cpp_error + int" where
  "deflate_window e =
     (case find_sub ''client_max_window_bits='' e of
        None \<Rightarrow> Inr 15
      | Some pos \<Rightarrow> (case stoi (drop (pos + 23) e) of Inl err \<Rightarrow> Inl err | Inr w \<Rightarrow> Inr (max (min w 15) 8)))"

definition accept_extension :: "'z net \<Rightarrow> string \<Rightarrow> 'z ws \<Rightarrow> cpp_error option \<times> 'z ws" where
  "accept_extension net e s =
     (if take 18 e \<noteq> ''permessage-deflate'' then (None, s)
      else case deflate_window e of
        Inl err \<Rightarrow> (Some err, s)
      | Inr window \<Rightarrow>
          let s = (if find_sub ''client_no_context_takeover'' e \<noteq> None
                   then s\<lparr>pmce_client_no_context_takeover := True\<rparr> else s)
          in case inflate_init net of (res, z) \<Rightarrow>
             let s = s\<lparr>pmce_inflate := (pmce_inflate s)\<lparr>internal := z\<rparr>\<rparr> in
             if res \<noteq> 0 then (Some out_of_memory, s)
             else case deflate_init net window of (res, z) \<Rightarrow>
               let s = s\<lparr>pmce_deflate := (pmce_deflate s)\<lparr>internal := z\<rparr>\<rparr> in
               if res \<noteq> 0 then (Some out_of_memory, s) else (None, s\<lparr>pmce_enabled := True\<rparr>))"

fun accept_extensions :: "'z net \<Rightarrow> string list \<Rightarrow> 'z ws \<Rightarrow> cpp_error option \<times> 'z ws" where
  "accept_extensions net [] s = (None, s)"
| "accept_extensions net (e # es) s =
     (case accept_extension net e s of
        (None, s) \<Rightarrow> accept_extensions net es s
      | (Some err, s) \<Rightarrow> (Some err, s))"

text \<open>The body of the \<open>try\<close> block: the exception, if any, what was read beyond the header, the state.\<close>

definition handshake_body :: "'z net \<Rightarrow> 'z ws \<Rightarrow> cpp_error option \<times> bytes \<times> 'z ws" where
  "handshake_body net s =
     (case read_until (bytes_of_string (crlf @ crlf)) (recv_chunks net) [] of
        None \<Rightarrow> (Some recv_error, [], s)
      | Some (header, buffer) \<Rightarrow>
          (case split_on (string_of_bytes header) crlf of
             [] \<Rightarrow> (Some weird_server_reply, buffer, s)
           | status_line # lines \<Rightarrow>
               (case parse_status status_line of
                  Inl e \<Rightarrow> (Some e, buffer, s)
                | Inr status_code \<Rightarrow>
                    let s = s\<lparr>response_headers := foldl collect_header (response_headers s) lines\<rparr> in
                    if status_code \<noteq> 101 \<or> header_find ''sec-websocket-accept'' (response_headers s) \<noteq> Some (handshake_nonce s)
                    then (Some http_returned_error, buffer, s)
                    else case header_find ''Sec-WebSocket-Extensions'' (response_headers s) of
                        None \<Rightarrow> (None, buffer, s)
                      | Some v \<Rightarrow> (case accept_extensions net (split_on v '','') s of (e, s) \<Rightarrow> (e, buffer, s)))))"

fun open_code :: "cpp_error \<Rightarrow> int" where
  "open_code (Curl_exception code _) = code"
| "open_code _ = 41"

definition handshake_task :: "'z env \<Rightarrow> 'z net \<Rightarrow> 'z ws \<Rightarrow> 'z ws outcome" where
  "handshake_task env net s =
     (case handshake_body net s of
        (Some e, _, s) \<Rightarrow> Ret (call_on_open (open_code e) s)
      | (None, buffer, s) \<Rightarrow>
          let s = (state_transition Open (call_on_open 0 s))\<lparr>parser_data := buffer\<rparr> in
          andthen (raw_on_data_available env False (first_read net) s) (\<lambda>(_, s). Ret s))"

text \<open>The task that the destructor launches; \<open>connected\<close> is \<open>client.is_connected()\<close>.\<close>

definition websocket_dtor :: "'z env \<Rightarrow> bool \<Rightarrow> 'z ws \<Rightarrow> 'z ws outcome" where
  "websocket_dtor env connected s =
     andthen (if connected \<and> con_state s \<noteq> Closed then close_impl env 1002 (bytes_of_string ''Going away'') s else Ret s)
       (\<lambda>s. Ret (s\<lparr>send_should_exit := True, send_event := True\<rparr>))"

subsection \<open>Reading up to a delimiter\<close>

lemma read_until_found:
  assumes "[] \<notin> set cs" "find_sub d acc = None" "find_sub d (acc @ concat cs) = Some pos"
  shows "\<exists>n. n \<le> length cs \<and> pos + length d \<le> length (acc @ concat (take n cs)) \<and>
    read_until d cs acc = Some (take pos (acc @ concat cs), drop (pos + length d) (acc @ concat (take n cs)))"
  using assms
proof (induction cs arbitrary: acc)
  case (Cons c cs)
  show ?case
  proof (cases "find_sub d (acc @ c)")
    case None
    from Cons.prems have "[] \<notin> set cs" "c \<noteq> []" "find_sub d ((acc @ c) @ concat cs) = Some pos" by auto
    with Cons.IH [OF _ None] obtain n where "n \<le> length cs" "pos + length d \<le> length ((acc @ c) @ concat (take n cs))"
      "read_until d cs (acc @ c) = Some (take pos ((acc @ c) @ concat cs), drop (pos + length d) ((acc @ c) @ concat (take n cs)))"
      by blast
    with None \<open>c \<noteq> []\<close> show ?thesis by (intro exI [of _ "Suc n"]) simp
  next
    case (Some i)
    from find_sub_append [OF Some, of "concat cs"] Cons.prems(3) have i: "i = pos" by simp
    have "pos + length d \<le> length (acc @ c)" using find_sub_Some [OF Some] i by simp
    with Some i Cons.prems(1) show ?thesis by (intro exI [of _ 1]) auto
  qed
qed simp

lemma read_until_cut:
  assumes "[] \<notin> set chunks" "delim \<noteq> []" "find_sub delim (concat chunks) = Some pos"
  shows "\<exists>n extra. read_until delim chunks [] = Some (take pos (concat chunks), extra) \<and>
    extra @ concat (drop n chunks) = drop (pos + length delim) (concat chunks)"
proof -
  have "find_sub delim [] = None" using assms(2) by simp
  from read_until_found [OF assms(1) this] assms(3) obtain n where
    n: "pos + length delim \<le> length (concat (take n chunks))"
    "read_until delim chunks [] = Some (take pos (concat chunks), drop (pos + length delim) (concat (take n chunks)))"
    by auto
  have "concat chunks = concat (take n chunks) @ concat (drop n chunks)"
    by (metis append_take_drop_id concat_append)
  with n(1) have "drop (pos + length delim) (concat (take n chunks)) @ concat (drop n chunks) =
      drop (pos + length delim) (concat chunks)" by simp
  with n(2) show ?thesis by blast
qed

text \<open>
  \<open>read_until\<close> does not depend on how the stream is cut into pieces: when the delimiter
  occurs in the stream, the result is what precedes its first occurrence, and what was read
  beyond it together with the pieces not yet read is what follows it.
\<close>

theorem read_until_stream:
  assumes "[] \<notin> set chunks" "delim \<noteq> []" "find_sub delim (concat chunks) = Some pos"
  shows "\<exists>n extra. read_until delim chunks [] = Some (take pos (concat chunks), extra) \<and>
    extra @ concat (drop n chunks) = drop (pos + length delim) (concat chunks)"
  using assms by (rule read_until_cut)

theorem read_until_stream_witness:
  "\<exists>n extra. read_until ''--'' [''ab-'', ''-cd'', ''ef''] [] = Some (''ab'', extra) \<and>
    extra @ concat (drop n [''ab-'', ''-cd'', ''ef'']) = ''cdef''"
proof -
  have "find_sub ''--'' (concat [''ab-'', ''-cd'', ''ef'']) = Some 2" by code_simp
  from read_until_stream [OF _ _ this] show ?thesis by simp
qed

subsection \<open>The answer of a server\<close>

text \<open>
  A header line is split at every colon, and one that does not have exactly two parts is dropped: a
  header whose value has a colon (a date, a url) is not stored. The others are stored without outer blanks.
\<close>

definition header_line :: "string \<times> string \<Rightarrow> string" where
  "header_line kv = fst kv @ '':'' @ snd kv"

definition answer_lines :: "string \<Rightarrow> (string \<times> string) list \<Rightarrow> string list" where
  "answer_lines reason kvs = (''HTTP/1.1 101 '' @ reason) # map header_line kvs"

definition answer_text :: "string \<Rightarrow> (string \<times> string) list \<Rightarrow> string" where
  "answer_text reason kvs = join crlf (answer_lines reason kvs) @ crlf @ crlf"

definition some_header :: "string \<times> string \<Rightarrow> bool" where
  "some_header kv \<longleftrightarrow> CHR '':'' \<notin> set (fst kv) \<and> CHR 0x0D \<notin> set (fst kv) \<union> set (snd kv)"

definition some_reason :: "string \<Rightarrow> bool" where
  "some_reason reason \<longleftrightarrow> (\<exists>c \<in> set reason. c \<noteq> CHR '' '') \<and> CHR 0x0D \<notin> set reason"

definition stored_headers :: "(string \<times> string) list \<Rightarrow> (string \<times> string) list" where
  "stored_headers kvs = map (map_prod string_trim string_trim) (filter (\<lambda>(k, v). CHR '':'' \<notin> set v) kvs)"

lemma crlf_simps: "crlf \<noteq> []" "hd crlf = CHR 0x0D" "length crlf = 2"
  by (simp_all add: crlf_def)

lemma find_blank_line:
  assumes "\<forall>l \<in> set (l # ls). l \<noteq> [] \<and> CHR 0x0D \<notin> set l"
  shows "find_sub (crlf @ crlf) (join crlf (l # ls) @ crlf @ crlf @ r) = Some (length (join crlf (l # ls)))"
  using assms
proof (induction ls arbitrary: l)
  case Nil
  have "find_sub (crlf @ crlf) ((crlf @ crlf) @ r) = Some 0" by (rule find_sub_here) (simp add: crlf_def)
  with Nil show ?case by (simp add: find_sub_skip crlf_simps)
next
  case (Cons m ls)
  then obtain c m' where m: "m = c # m'" "c \<noteq> CHR 0x0D" by (cases m) auto
  let ?J = "join crlf (m # ls) @ crlf @ crlf @ r"
  from m obtain t where j: "?J = c # t" by (cases ls) auto
  have skip: "find_sub (crlf @ crlf) (crlf @ s) = map_option ((+) 2) (find_sub (crlf @ crlf) s)" if "s = c # t" for s t
    using m(2) that by (cases "find_sub (crlf @ crlf) s") (auto simp: crlf_def)
  have "find_sub (crlf @ crlf) ?J = Some (length (join crlf (m # ls)))"
    using Cons.prems by (intro Cons.IH) simp
  with skip [OF j] have "find_sub (crlf @ crlf) (crlf @ ?J) = Some (2 + length (join crlf (m # ls)))" by simp
  moreover have "join crlf (l # m # ls) @ crlf @ crlf @ r = l @ crlf @ ?J" by simp
  ultimately show ?case using Cons.prems by (simp only: find_sub_skip crlf_simps) (simp add: find_sub_skip crlf_simps)
qed

lemma split_on_join: "d \<noteq> [] \<Longrightarrow> ps \<noteq> [] \<Longrightarrow> \<forall>p \<in> set ps. hd d \<notin> set p \<Longrightarrow> split_on (join d ps) d = ps"
  by (simp add: split_on_def string_split_join)

lemma colon_parts:
  "\<exists>ps. ps \<noteq> [] \<and> join '':'' ps = v \<and> (\<forall>p \<in> set ps. CHR '':'' \<notin> set p) \<and> (length ps = 1 \<longleftrightarrow> CHR '':'' \<notin> set v)"
proof (induction v)
  case Nil
  show ?case by (intro exI [of _ "[[]]"]) simp
next
  case (Cons c v)
  then obtain qs where q: "qs \<noteq> []" "join '':'' qs = v" "\<forall>p \<in> set qs. CHR '':'' \<notin> set p" "length qs = 1 \<longleftrightarrow> CHR '':'' \<notin> set v"
    by blast
  then obtain p ps where p: "join '':'' (p # ps) = v" "\<forall>q \<in> set (p # ps). CHR '':'' \<notin> set q" "ps = [] \<longleftrightarrow> CHR '':'' \<notin> set v"
    by (cases qs) auto
  show ?case
  proof (cases "c = CHR '':''")
    case True
    with p show ?thesis by (intro exI [of _ "[] # p # ps"]) simp
  next
    case False
    have "join '':'' ((c # p) # ps) = c # join '':'' (p # ps)" by (cases ps) simp_all
    with False p show ?thesis by (intro exI [of _ "(c # p) # ps"]) simp
  qed
qed

lemma collect_header_line:
  assumes "some_header kv"
  shows "collect_header m (header_line kv) = foldl (\<lambda>m (k, v). header_emplace k v m) m (stored_headers [kv])"
proof -
  obtain ps where ps: "ps \<noteq> []" "join '':'' ps = snd kv" "\<forall>p \<in> set ps. CHR '':'' \<notin> set p" "length ps = 1 \<longleftrightarrow> CHR '':'' \<notin> set (snd kv)"
    using colon_parts by blast
  have "split_on (join '':'' (fst kv # ps)) '':'' = fst kv # ps"
    using assms ps by (intro split_on_join) (auto simp: some_header_def)
  then have "split_on (header_line kv) '':'' = fst kv # ps" using ps(1,2) by (simp add: join_Cons header_line_def)
  then show ?thesis using ps
    by (cases ps; cases "tl ps"; cases kv) (auto simp: collect_header_def stored_headers_def)
qed

lemma parse_status_101:
  assumes "some_reason reason"
  shows "parse_status (''HTTP/1.1 101 '' @ reason) = Inr 101"
proof -
  obtain j where j: "find_if ((\<noteq>) (CHR '' '')) reason = Some j"
    using assms by (cases "find_if ((\<noteq>) (CHR '' '')) reason") (auto simp: some_reason_def)
  show ?thesis
    by (simp add: parse_status_def stoull_def scan_number_def is_space_def is_digit_def read_digits_def digit_value_def j del: find_if_None_iff)
qed

lemma stored_headers_Cons: "stored_headers (kv # kvs) = stored_headers [kv] @ stored_headers kvs"
  by (simp add: stored_headers_def)

lemma collect_headers:
  "list_all some_header kvs \<Longrightarrow>
   foldl collect_header m (map header_line kvs) = foldl (\<lambda>m (k, v). header_emplace k v m) m (stored_headers kvs)"
proof (induction kvs arbitrary: m)
  case (Cons kv kvs)
  then show ?case by (subst stored_headers_Cons) (simp add: collect_header_line)
qed (simp add: stored_headers_def)

lemma answer_lines_clean:
  assumes "some_reason reason" "list_all some_header kvs" "l \<in> set (answer_lines reason kvs)"
  shows "l \<noteq> [] \<and> CHR 0x0D \<notin> set l"
  using assms by (auto simp: answer_lines_def some_reason_def header_line_def list_all_iff some_header_def)

lemma inj_u8_of_char: "inj u8_of_char"
  by (rule inj_on_inverseI [of _ char_of_u8]) simp

lemma read_answer:
  assumes "some_reason reason" "list_all some_header kvs" "[] \<notin> set chunks"
    "concat chunks = bytes_of_string (answer_text reason kvs) @ stream"
  shows "\<exists>n buf. buf @ concat (drop n chunks) = stream \<and>
    read_until (bytes_of_string (crlf @ crlf)) chunks [] = Some (bytes_of_string (join crlf (answer_lines reason kvs)), buf)"
proof -
  let ?t = "join crlf (answer_lines reason kvs)"
  have "concat chunks = bytes_of_string (?t @ crlf @ crlf @ string_of_bytes stream)"
    using assms(4) by (simp add: answer_text_def del: map_map)
  moreover have "find_sub (crlf @ crlf) (?t @ crlf @ crlf @ string_of_bytes stream) = Some (length ?t)"
    using answer_lines_clean [OF assms(1,2)] find_blank_line unfolding answer_lines_def by blast
  ultimately have f: "find_sub (bytes_of_string (crlf @ crlf)) (concat chunks) = Some (length ?t)"
    by (simp only: find_sub_map [OF inj_u8_of_char])
  have "bytes_of_string (crlf @ crlf) \<noteq> []" by (simp add: crlf_def)
  from read_until_cut [OF assms(3) this f] assms(4) show ?thesis
    by (auto simp: answer_text_def)
qed

text \<open>What the handshake makes of the extensions in the stored headers.\<close>

definition negotiated :: "'z net \<Rightarrow> header_map \<Rightarrow> 'z ws \<Rightarrow> cpp_error option \<times> 'z ws" where
  "negotiated net m s = (case header_find ''Sec-WebSocket-Extensions'' m of
     None \<Rightarrow> (None, s) | Some v \<Rightarrow> accept_extensions net (split_on v '','') s)"

definition offers_deflate :: "header_map \<Rightarrow> bool" where
  "offers_deflate m \<longleftrightarrow> (case header_find ''Sec-WebSocket-Extensions'' m of
     None \<Rightarrow> False | Some v \<Rightarrow> \<exists>e \<in> set (split_on v '',''). take 18 e = ''permessage-deflate'')"

lemma accept_extensions_enable:
  "accept_extensions net es s = (None, t) \<Longrightarrow> pmce_enabled t \<longleftrightarrow> pmce_enabled s \<or> (\<exists>e \<in> set es. take 18 e = ''permessage-deflate'')"
proof (induction es arbitrary: s)
  case (Cons e es)
  then obtain u where u: "accept_extension net e s = (None, u)" "accept_extensions net es u = (None, t)"
    by (auto split: prod.splits option.splits)
  have "pmce_enabled u \<longleftrightarrow> pmce_enabled s \<or> take 18 e = ''permessage-deflate''"
    using u(1) by (auto simp: accept_extension_def Let_def split: if_splits sum.splits prod.splits)
  with Cons.IH [OF u(2)] show ?case by auto
qed simp

lemma negotiated_enable: "negotiated net m s = (None, t) \<Longrightarrow> pmce_enabled t \<longleftrightarrow> pmce_enabled s \<or> offers_deflate m"
  by (auto simp: negotiated_def offers_deflate_def accept_extensions_enable split: option.splits)

lemma body_of_answer:
  assumes "some_reason reason" "list_all some_header kvs" "[] \<notin> set (recv_chunks net)"
    "concat (recv_chunks net) = bytes_of_string (answer_text reason kvs) @ stream"
    "response_headers s = []" "m = foldl (\<lambda>m (k, v). header_emplace k v m) [] (stored_headers kvs)"
    "map_option snd (List.find (\<lambda>(k, v). map tolower k = map tolower ''sec-websocket-accept'') (stored_headers kvs)) = Some (handshake_nonce s)"
  shows "\<exists>n buf. buf @ concat (drop n (recv_chunks net)) = stream \<and>
    handshake_body net s = (case negotiated net m (s\<lparr>response_headers := m\<rparr>) of (r, s) \<Rightarrow> (r, buf, s))"
proof -
  from read_answer [OF assms(1-4)] obtain n buf where
    r: "buf @ concat (drop n (recv_chunks net)) = stream"
      "read_until (bytes_of_string (crlf @ crlf)) (recv_chunks net) [] =
         Some (bytes_of_string (join crlf (answer_lines reason kvs)), buf)" by blast
  have "split_on (join crlf (answer_lines reason kvs)) crlf = answer_lines reason kvs"
    using answer_lines_clean [OF assms(1,2)] by (intro split_on_join) (auto simp: crlf_simps answer_lines_def)
  then have s: "split_on (string_of_bytes (bytes_of_string (join crlf (answer_lines reason kvs)))) crlf =
      (''HTTP/1.1 101 '' @ reason) # map header_line kvs"
    by (simp only: string_of_bytes_of_string) (simp only: answer_lines_def)
  have a: "header_find ''sec-websocket-accept'' m = Some (handshake_nonce s)"
    using assms(7) by (simp add: assms(6) header_find_built)
  show ?thesis
    using r(1) a assms(5)
    by (intro exI [of _ n] exI [of _ buf])
      (simp only: handshake_body_def r(2) s option.case prod.case list.case parse_status_101 [OF assms(1)] sum.case
        Let_def collect_headers [OF assms(2)] assms(5) assms(6) [symmetric], simp add: negotiated_def split: option.split prod.split)
qed

lemma if_error: "(if c then Inl Out_of_range else Inr v) = Inl e \<Longrightarrow> open_code e = 41"
  by (cases c) auto

lemma stoull_error: "stoull s = Inl e \<Longrightarrow> open_code e = 41"
  by (cases "scan_number s") (auto simp: stoull_def simp del: if_splits dest!: if_error)

lemma stoi_error: "stoi s = Inl e \<Longrightarrow> open_code e = 41"
  unfolding stoi_def Let_def
  by (cases "scan_number s") (auto simp only: option.case sum.inject prod.case open_code.simps split: prod.splits dest!: if_error)

lemma parse_status_error: "parse_status l = Inl e \<Longrightarrow> open_code e \<in> {8, 41}"
  unfolding parse_status_def Let_def weird_server_reply_def
  by (auto simp del: find_if_None_iff split: option.split_asm sum.split_asm if_split_asm dest: stoull_error)

definition same_connection :: "'z ws \<Rightarrow> 'z ws \<Rightarrow> bool" where
  "same_connection s t \<longleftrightarrow> events t = events s \<and> con_state t = con_state s \<and> on_open t = on_open s \<and>
     response_headers t = response_headers s \<and> handshake_nonce t = handshake_nonce s"

lemma accept_extension_frame:
  "accept_extension net e s = (r, t) \<Longrightarrow> same_connection s t \<and> (\<forall>x. r = Some x \<longrightarrow> open_code x \<in> {27, 41})"
  by (auto simp: accept_extension_def deflate_window_def same_connection_def out_of_memory_def Let_def
      split: if_splits sum.splits option.splits prod.splits dest!: stoi_error)

lemma accept_extensions_frame:
  "accept_extensions net es s = (r, t) \<Longrightarrow> same_connection s t \<and> (\<forall>x. r = Some x \<longrightarrow> open_code x \<in> {27, 41})"
proof (induction es arbitrary: s)
  case (Cons e es)
  obtain r1 s1 where 1: "accept_extension net e s = (r1, s1)" by fastforce
  from accept_extension_frame [OF 1] Cons 1 show ?case
    by (cases r1) (fastforce simp: same_connection_def)+
qed (simp add: same_connection_def)

lemma handshake_body_result:
  assumes "handshake_body net s = (r, buf, t)"
  shows "events t = events s \<and> con_state t = con_state s \<and> on_open t = on_open s \<and> handshake_nonce t = handshake_nonce s \<and>
    (case r of None \<Rightarrow> header_find ''sec-websocket-accept'' (response_headers t) = Some (handshake_nonce s)
     | Some e \<Rightarrow> open_code e \<in> {8, 22, 27, 41, 56})"
proof -
  show ?thesis
    using assms
    by (auto simp: handshake_body_def Let_def recv_error_def weird_server_reply_def http_returned_error_def same_connection_def
        split: option.splits prod.splits list.splits sum.splits if_splits
        dest!: accept_extensions_frame parse_status_error)
qed

fun is_on_open :: "event \<Rightarrow> bool" where
  "is_on_open (On_open _) = True"
| "is_on_open _ = False"

lemma not_on_open [simp]: "filter is_on_open (cb_events cb ok) = []" "incoming e \<Longrightarrow> \<not> is_on_open e"
  by (cases cb; simp) (cases e; simp)

lemma conn_step_on_open: "conn_step a b \<Longrightarrow> filter is_on_open (fst (snd b)) = filter is_on_open (fst (snd a))"
  by (induction rule: conn_step.induct) auto

lemma conn_run_on_open: "conn_run a b \<Longrightarrow> filter is_on_open (fst (snd b)) = filter is_on_open (fst (snd a))"
  by (induction rule: rtranclp_induct) (auto simp: conn_step_on_open)

subsection \<open>Properties\<close>

text \<open>
  C9: The handshake against a server that answers with status 101, a reason that is not blank, any header
  lines (name, colon, anything) among which the first stored accept key is the expected one, and extensions
  that the client can set up, in pieces cut anywhere: \<open>on_open\<close> gets 0, the connection is open, the
  headers whose value has no colon are stored in order, without outer blanks, compression is on exactly if
  the extensions name \<open>permessage-deflate\<close> (or it was), and the parser starts on exactly the bytes that were
  read beyond the blank line.
\<close>

theorem handshake_completes:
  assumes "response_headers s = []" "some_reason reason" "list_all some_header kvs"
    "[] \<notin> set (recv_chunks net)" "concat (recv_chunks net) = bytes_of_string (answer_text reason kvs) @ stream"
    "map_option snd (List.find (\<lambda>(k, v). map tolower k = map tolower ''sec-websocket-accept'') (stored_headers kvs)) = Some (handshake_nonce s)"
    "m = foldl (\<lambda>m (k, v). header_emplace k v m) [] (stored_headers kvs)" "negotiated net m (s\<lparr>response_headers := m\<rparr>) = (None, s1)"
  shows "(\<exists>n buf. buf @ concat (drop n (recv_chunks net)) = stream \<and>
    handshake_task env net s =
      andthen (raw_on_data_available env False (first_read net)
          (s1\<lparr>events := events s @ (if on_open s then [On_open 0] else []), con_state := Open, parser_data := buf\<rparr>))
        (\<lambda>(_, s). Ret s)) \<and>
    response_headers s1 = m \<and> (pmce_enabled s1 \<longleftrightarrow> pmce_enabled s \<or> offers_deflate m) \<and>
    (header_find ''Sec-WebSocket-Extensions'' m = None \<longrightarrow> s1 = s\<lparr>response_headers := m\<rparr>)"
proof -
  have c: "same_connection (s\<lparr>response_headers := m\<rparr>) s1"
    using assms(8) by (cases "header_find ''Sec-WebSocket-Extensions'' m")
      (auto simp: negotiated_def same_connection_def [of s' s' for s'] dest: accept_extensions_frame)
  obtain n buf where b: "buf @ concat (drop n (recv_chunks net)) = stream" "handshake_body net s = (None, buf, s1)"
    using body_of_answer [OF assms(2-5,1,7,6)] assms(8) by auto
  have "(state_transition Open (call_on_open 0 s1))\<lparr>parser_data := buf\<rparr> =
      s1\<lparr>events := events s @ (if on_open s then [On_open 0] else []), con_state := Open, parser_data := buf\<rparr>"
    using c by (simp add: call_on_open_def emit_def state_transition_def same_connection_def)
  then have "handshake_task env net s = andthen (raw_on_data_available env False (first_read net)
          (s1\<lparr>events := events s @ (if on_open s then [On_open 0] else []), con_state := Open, parser_data := buf\<rparr>))
        (\<lambda>(_, s). Ret s)"
    by (simp add: handshake_task_def b(2))
  moreover have "pmce_enabled s1 \<longleftrightarrow> pmce_enabled s \<or> offers_deflate m" using negotiated_enable [OF assms(8)] by simp
  moreover have "header_find ''Sec-WebSocket-Extensions'' m = None \<longrightarrow> s1 = s\<lparr>response_headers := m\<rparr>"
    using assms(8) by (auto simp: negotiated_def split: option.splits)
  ultimately show ?thesis using b(1) c by (auto simp: same_connection_def)
qed

definition handshake_example :: "unit ws" where
  "handshake_example = (initial_state ())\<lparr>con_state := Handshake, on_open := True, handshake_nonce := ''s3pPLMBiTxaQ9kYGzzhZRbK+xOo=''\<rparr>"

text \<open>An answer with a date, which is dropped, an empty header and compression.\<close>

definition answer_example :: "(string \<times> string) list" where
  "answer_example = [(''Upgrade'', '' websocket''), (''Date'', '' Mon, 01 Jan 2024 10:00:00 GMT''), (''X-Empty'', []),
     (''SEC-WebSocket-Accept'', '' s3pPLMBiTxaQ9kYGzzhZRbK+xOo=''), (''Sec-WebSocket-Extensions'', '' permessage-deflate'')]"

definition headers_example :: header_map where
  "headers_example = foldl (\<lambda>m (k, v). header_emplace k v m) [] (stored_headers answer_example)"

definition net_example :: "unit net" where
  "net_example =
     \<lparr>recv_chunks = [take 30 (bytes_of_string (answer_text ''Switching Protocols'' answer_example)),
        drop 30 (bytes_of_string (answer_text ''Switching Protocols'' answer_example)) @ [0x82]],
      first_read = Try_again, inflate_init = (0, ()), deflate_init = (\<lambda>_. (0, ()))\<rparr>"

theorem handshake_completes_witness:
  "\<exists>n buf s1. buf @ concat (drop n (recv_chunks net_example)) = [0x82] \<and>
    handshake_task plain_env net_example handshake_example =
      andthen (raw_on_data_available plain_env False Try_again (s1\<lparr>events := [On_open 0], con_state := Open, parser_data := buf\<rparr>))
        (\<lambda>(_, s). Ret s) \<and>
    response_headers s1 = headers_example \<and> pmce_enabled s1 \<and> map fst headers_example = [''SEC-WebSocket-Accept'', ''Sec-WebSocket-Extensions'', ''Upgrade'', ''X-Empty'']"
proof -
  have h: "list_all some_header answer_example" "some_reason ''Switching Protocols''"
    "map_option snd (List.find (\<lambda>(k, v). map tolower k = map tolower ''sec-websocket-accept'') (stored_headers answer_example)) =
       Some ''s3pPLMBiTxaQ9kYGzzhZRbK+xOo=''"
    "map fst headers_example = [''SEC-WebSocket-Accept'', ''Sec-WebSocket-Extensions'', ''Upgrade'', ''X-Empty'']"
    "header_find ''Sec-WebSocket-Extensions'' headers_example = Some ''permessage-deflate''" "deflate_window ''permessage-deflate'' = Inr 15"
    by code_simp+
  have sp: "split_on ''permessage-deflate'' '','' = [''permessage-deflate'']"
    using split_on_join [of "'',''" "[''permessage-deflate'']"] by simp
  have o: "offers_deflate headers_example" by (simp add: offers_deflate_def h(5) sp)
  have c: "[] \<notin> set (recv_chunks net_example)" "length (answer_text ''Switching Protocols'' answer_example) > 30"
    by code_simp+
  have e: "on_open handshake_example" "response_headers handshake_example = []" "events handshake_example = []"
    "handshake_nonce handshake_example = ''s3pPLMBiTxaQ9kYGzzhZRbK+xOo=''"
    by (simp_all add: handshake_example_def initial_state_def)
  have d: "concat (recv_chunks net_example) = bytes_of_string (answer_text ''Switching Protocols'' answer_example) @ [0x82]"
    by (simp add: net_example_def take_map drop_map del: map_map flip: map_append)
  obtain s1 where s1: "negotiated net_example headers_example (handshake_example\<lparr>response_headers := headers_example\<rparr>) = (None, s1)"
    by (simp add: negotiated_def h(5,6) sp accept_extension_def net_example_def Let_def)
  show ?thesis
    using handshake_completes [OF e(2) h(2,1) c(1) d _ headers_example_def s1, of plain_env] h(3,4) o e(1,3,4)
    by (auto simp: net_example_def)
qed

text \<open>
  C34: A handshake that returns has called \<open>on_open\<close> exactly once. The code is 0 exactly if the
  connection is open (or has since been closed again), and then the answer had the accept key
  that belongs to the nonce; otherwise the state is still that of the handshake.
\<close>

theorem handshake_reports_once:
  assumes "on_open s" "con_state s = Handshake" "handshake_task env net s = Ret s'"
  shows "\<exists>code. filter is_on_open (events s') = filter is_on_open (events s) @ [On_open code] \<and>
    (code = 0 \<longleftrightarrow> con_state s' \<in> {Open, Client_close, Closed}) \<and> (code \<noteq> 0 \<longleftrightarrow> con_state s' = Handshake) \<and>
    (code = 0 \<longrightarrow> header_find ''sec-websocket-accept'' (response_headers (snd (snd (handshake_body net s)))) = Some (handshake_nonce s))"
proof -
  obtain r buf t where b: "handshake_body net s = (r, buf, t)" by (cases "handshake_body net s")
  note t = handshake_body_result [OF b]
  show ?thesis
  proof (cases r)
    case (Some e)
    with assms b have "s' = call_on_open (open_code e) t" by (simp add: handshake_task_def)
    moreover have "open_code e \<noteq> 0" using t Some by auto
    ultimately show ?thesis using t assms by (intro exI [of _ "open_code e"]) (simp add: call_on_open_def)
  next
    case None
    define u where "u = (state_transition Open (call_on_open 0 t))\<lparr>parser_data := buf\<rparr>"
    have u: "events u = events s @ [On_open 0]" "con_state u = Open"
      using t assms(1) by (simp_all add: u_def call_on_open_def)
    from None assms(3) b obtain c where c: "raw_on_data_available env False (first_read net) u = Ret (c, s')"
      by (auto simp: handshake_task_def andthen_Ret u_def Let_def)
    have "live u" using u(2) by (simp add: live_def)
    from data_run [OF c this] have run: "conn_run (conn_of u) (conn_of s')" .
    have "live s'" using conn_run_live [OF run] u(2) by (simp add: live_iff conn_of_def)
    moreover have "filter is_on_open (events s') = filter is_on_open (events s) @ [On_open 0]"
      using conn_run_on_open [OF run] u(1) by (simp add: conn_of_def)
    ultimately show ?thesis using t None b by (intro exI [of _ 0]) (auto simp: live_def)
  qed
qed

theorem handshake_reports_once_witness:
  "\<exists>s' code. handshake_task plain_env (net_example\<lparr>recv_chunks := []\<rparr>) handshake_example = Ret s' \<and> code = 56 \<and>
    filter is_on_open (events s') = [On_open code] \<and> (code \<noteq> 0 \<longleftrightarrow> con_state s' = Handshake)"
proof -
  let ?s = "call_on_open 56 handshake_example"
  have r: "handshake_task plain_env (net_example\<lparr>recv_chunks := []\<rparr>) handshake_example = Ret ?s"
    by (simp add: handshake_task_def handshake_body_def recv_error_def)
  have e: "on_open handshake_example" "con_state handshake_example = Handshake" "events handshake_example = []"
    by (simp_all add: handshake_example_def initial_state_def)
  from handshake_reports_once [OF e(1,2) r] r e show ?thesis
    by (auto simp: call_on_open_def)
qed

text \<open>
  The constructor sends the base64 text of its 16 random octets as key, and of all octet
  strings (shorter than 2^62) exactly one, the SHA-1 digest of the key followed by the GUID of
  RFC 6455, has a base64 text that the handshake accepts.
\<close>

theorem accept_key_unique:
  "\<exists>s key. websocket_ctor le version env z = Ret s \<and>
    header_find ''sec-websocket-key'' (request_headers s) = Some key \<and> base64_decode key = Some (random_nonce env) \<and>
    header_find ''UPGRADE'' (request_headers s) = Some ''websocket'' \<and> con_state s = Init \<and>
    (\<forall>d. length d < 2 ^ 62 \<longrightarrow>
      (base64_encode d = Inr (handshake_nonce s) \<longleftrightarrow> d = fips_sha1 (bytes_of_string (key @ ws_magic_string))))"
proof -
  let ?key = "encode_groups (random_nonce env)"
  let ?h = "fips_sha1 (bytes_of_string (?key @ ws_magic_string))"
  have n: "length (random_nonce env) = 16" by (simp add: random_nonce_def)
  have key: "base64_encode (random_nonce env) = Inr ?key" using n by (intro base64_encode_eq) simp
  have "length ?key = 24" using n by (simp add: length_encode_groups)
  then have "length (bytes_of_string (?key @ ws_magic_string)) = 60" by (simp add: ws_magic_string_def)
  then have h: "sha1_hash le (bytes_of_string (?key @ ws_magic_string)) = Some ?h"
    using sha1_hash_fips by simp
  have l: "length ?h = 20" by (rule length_fips_sha1)
  have acc: "base64_encode ?h = Inr (encode_groups ?h)" using l by (intro base64_encode_eq) simp
  define s where "s = (initial_state z)\<lparr>request_headers := default_headers version ?key, handshake_nonce := encode_groups ?h, drawn := 16\<rparr>"
  have "websocket_ctor le version env z = Ret s" unfolding websocket_ctor_def key sum.case h option.case acc s_def ..
  moreover have rh: "request_headers s = default_headers version ?key" by (simp add: s_def)
  moreover have "header_find ''sec-websocket-key'' (request_headers s) = Some ?key"
    "header_find ''UPGRADE'' (request_headers s) = Some ''websocket''"
    unfolding rh default_headers_def header_find_built
    by (simp_all add: tolower_def char_value_def)
  moreover have "base64_decode ?key = Some (random_nonce env)"
    using b64.dec_enc [of "random_nonce env"] key n by auto
  moreover have "base64_encode d = Inr (handshake_nonce s) \<longleftrightarrow> d = ?h" if "length d < 2 ^ 62" for d
    using b64.enc_inj [of d ?h] that l acc by (auto simp: s_def)
  moreover have "con_state s = Init" by (simp add: s_def initial_state_def)
  ultimately show ?thesis by blast
qed

theorem accept_key_unique_witness:
  "\<exists>s key. websocket_ctor True ''8.5.0'' plain_env () = Ret s \<and> base64_decode key = Some (random_nonce plain_env) \<and>
    base64_encode (fips_sha1 (bytes_of_string (key @ ws_magic_string))) = Inr (handshake_nonce s)"
  using accept_key_unique [of True "''8.5.0''" plain_env "()"] by auto

end
