(* ===== verification/Ws_Outgoing.thy ===== *)
theory Ws_Outgoing
  imports Ws_Lifecycle
begin

text \<open>
  What an operation of \<open>Ws_State\<close> may do to the send queue and to the record of frames: append
  frames, each encoded with a key of four octets, and nothing else; only the sending task takes
  frames out. With it, the types of the fields that the parser and the reassembly work on.
\<close>

subsection \<open>Frames on their way\<close>

record outgoing =
  out_op :: opcode
  out_payload :: bytes
  out_key :: bytes
  out_cb :: send_cb

definition out_wire :: "outgoing \<Rightarrow> bytes" where
  "out_wire f = encode_frame (out_op f) (out_key f) (out_payload f)"

definition out_entry :: "outgoing \<Rightarrow> bytes \<times> send_cb" where
  "out_entry f = (out_wire f, out_cb f)"

definition out_frame :: "outgoing \<Rightarrow> opcode \<times> bytes" where
  "out_frame f = (out_op f, out_payload f)"

definition keyed :: "outgoing \<Rightarrow> bool" where
  "keyed f \<longleftrightarrow> length (out_key f) = 4"

text \<open>The frames recorded as queued, and the user's callbacks that were told that their frame is sent.\<close>

definition frames_of :: "event list \<Rightarrow> (opcode \<times> bytes) list" where
  "frames_of ev = concat (map (\<lambda>e. case e of Queued op p \<Rightarrow> [(op, p)] | _ \<Rightarrow> []) ev)"

definition told_sent :: "event list \<Rightarrow> nat list" where
  "told_sent ev = concat (map (\<lambda>e. case e of Sent i True \<Rightarrow> [i] | _ \<Rightarrow> []) ev)"

lemma frames_of_simps [simp]: "frames_of [] = []" "frames_of (ev @ ev') = frames_of ev @ frames_of ev'"
  "frames_of (e # ev) = (case e of Queued op p \<Rightarrow> [(op, p)] | _ \<Rightarrow> []) @ frames_of ev"
  by (simp_all add: frames_of_def)

lemma told_sent_simps [simp]: "told_sent [] = []" "told_sent (ev @ ev') = told_sent ev @ told_sent ev'"
  "told_sent (e # ev) = (case e of Sent i True \<Rightarrow> [i] | _ \<Rightarrow> []) @ told_sent ev"
  by (simp_all add: told_sent_def)

text \<open>
  The types: a message in progress is text or binary, there is no payload without one, and the
  parser waits for at least a whole header.
\<close>

definition ws_typed :: "'z ws \<Rightarrow> bool" where
  "ws_typed s \<longleftrightarrow> fragment_code s \<in> {op_continuation, op_text, op_binary} \<and>
     (fragment_code s = op_continuation \<longrightarrow> fragment_payload s = []) \<and> 2 \<le> parser_wanted_size s"

text \<open>A frame that enters the queue sets the event; no operation resets it, or says that the task is to end.\<close>

definition advances :: "'z ws \<Rightarrow> 'z ws \<Rightarrow> bool" where
  "advances s s' \<longleftrightarrow> (ws_typed s \<longrightarrow> ws_typed s') \<and> (send_event s \<longrightarrow> send_event s') \<and>
     send_should_exit s' = send_should_exit s \<and>
     (\<exists>qs. list_all keyed qs \<and> (qs \<noteq> [] \<longrightarrow> send_event s') \<and> send_queue s' = send_queue s @ map out_entry qs \<and>
        frames_of (events s') = frames_of (events s) @ map out_frame qs \<and> told_sent (events s') = told_sent (events s))"

lemma advances_refl [simp]: "advances s s"
  by (auto simp: advances_def intro: exI [of _ "[]"])

lemma advances_trans: "advances s t \<Longrightarrow> advances t u \<Longrightarrow> advances s u"
proof -
  assume a: "advances s t" and b: "advances t u"
  from a obtain p where p: "list_all keyed p" "p \<noteq> [] \<longrightarrow> send_event t" "send_queue t = send_queue s @ map out_entry p"
    "frames_of (events t) = frames_of (events s) @ map out_frame p" "told_sent (events t) = told_sent (events s)"
    unfolding advances_def by blast
  from b obtain q where q: "list_all keyed q" "q \<noteq> [] \<longrightarrow> send_event u" "send_queue u = send_queue t @ map out_entry q"
    "frames_of (events u) = frames_of (events t) @ map out_frame q" "told_sent (events u) = told_sent (events t)"
    unfolding advances_def by blast
  have "ws_typed s \<longrightarrow> ws_typed u" "send_event s \<longrightarrow> send_event u" "send_event t \<longrightarrow> send_event u"
    "send_should_exit u = send_should_exit s"
    using a b by (auto simp: advances_def)
  with p q show "advances s u" unfolding advances_def by (intro conjI exI [of _ "p @ q"]) auto
qed

text \<open>A step that leaves queue and frames alone.\<close>

lemma advances_local:
  assumes "send_queue s' = send_queue s" "frames_of (events s') = frames_of (events s)" "told_sent (events s') = told_sent (events s)"
    "ws_typed s \<Longrightarrow> ws_typed s'" "send_event s' = send_event s" "send_should_exit s' = send_should_exit s"
  shows "advances s s'"
  using assms by (auto simp: advances_def intro: exI [of _ "[]"])

lemma advances_after: "advances t u \<Longrightarrow> send_queue t = send_queue s \<Longrightarrow> events t = events s \<Longrightarrow> (ws_typed s \<Longrightarrow> ws_typed t) \<Longrightarrow>
    send_event t = send_event s \<Longrightarrow> send_should_exit t = send_should_exit s \<Longrightarrow> advances s u"
  by (rule advances_trans [OF advances_local [of t s]]) simp_all

lemma typed_emit [simp]: "ws_typed (emit e s) = ws_typed s"
  by (simp add: ws_typed_def emit_def)

lemma typed_transition [simp]: "ws_typed (state_transition c s) = ws_typed s"
  by (simp add: ws_typed_def state_transition_def)

lemma typed_fields [simp]: "ws_typed (s\<lparr>fragment_was_compressed := b\<rparr>) = ws_typed s" "ws_typed (s\<lparr>fragment_validate_offset := n\<rparr>) = ws_typed s"
  "ws_typed (s\<lparr>parser_data := d\<rparr>) = ws_typed s" "ws_typed (s\<lparr>pmce_inflate := z\<rparr>) = ws_typed s" "ws_typed (s\<lparr>pmce_deflate := z\<rparr>) = ws_typed s"
  "ws_typed (s\<lparr>send_queue := q\<rparr>) = ws_typed s" "ws_typed (s\<lparr>send_event := e\<rparr>) = ws_typed s" "ws_typed (s\<lparr>drawn := n\<rparr>) = ws_typed s"
  "ws_typed (s\<lparr>send_should_exit := b\<rparr>) = ws_typed s" "ws_typed (s\<lparr>on_open := b\<rparr>) = ws_typed s" "ws_typed (s\<lparr>on_close := b\<rparr>) = ws_typed s"
  "ws_typed (s\<lparr>on_message := b\<rparr>) = ws_typed s" "ws_typed (s\<lparr>on_ping := b\<rparr>) = ws_typed s" "ws_typed (s\<lparr>on_pong := b\<rparr>) = ws_typed s"
  "ws_typed (s\<lparr>utf8_mode := m\<rparr>) = ws_typed s" "ws_typed (s\<lparr>con_state := c\<rparr>) = ws_typed s" "ws_typed (s\<lparr>events := ev\<rparr>) = ws_typed s"
  by (simp_all add: ws_typed_def)

lemma advances_enqueue: "advances s (enqueue_frame env op buf cb s)"
proof -
  let ?f = "\<lparr>out_op = op, out_payload = buf, out_key = random_key env s, out_cb = cb\<rparr>"
  show ?thesis
    unfolding advances_def
    by (intro conjI, simp add: enqueue_frame_def, simp add: enqueue_frame_def emit_def, simp add: enqueue_frame_def emit_def, rule exI [of _ "[?f]"])
      (simp add: enqueue_frame_def emit_def keyed_def out_entry_def out_wire_def out_frame_def)
qed

lemma event_sel [simp]: "send_event (emit e s) = send_event s" "send_event (state_transition c s) = send_event s"
  "send_should_exit (emit e s) = send_should_exit s" "send_should_exit (state_transition c s) = send_should_exit s"
  by (simp_all add: emit_def state_transition_def)

lemma advances_flate:
  "inflate_some env inp out s = Ret (ok, res, s') \<Longrightarrow> advances s s'"
  "deflate_some env inp out s = Ret (ok, res, s') \<Longrightarrow> advances s s'"
  by (auto simp: inflate_some_def deflate_some_def andthen_Ret intro!: advances_local)

lemma advances_send_frame:
  assumes "send_frame env op buf cb s = Ret s'"
  shows "advances s s'"
proof -
  let ?s = "if clean_op op = op_close \<and> con_state s = Open then state_transition Client_close s else s"
  have s: "advances s ?s" by (auto intro: advances_local)
  from assms have "advances ?s s'"
    unfolding send_frame_def Let_def
    by (auto simp: andthen_Ret advances_enqueue split: if_splits elim!: advances_trans [OF advances_flate(2)])
  with s show ?thesis by (rule advances_trans)
qed

lemma advances_transition: "advances (state_transition c s) s' \<Longrightarrow> advances s s'"
  by (erule advances_after) simp_all

lemma advances_close:
  "close_impl env code reason s = Ret s' \<Longrightarrow> advances s s'"
  by (auto simp: close_impl_def split: if_splits intro: advances_send_frame advances_transition)

lemma advances_emit: "frames_of [e] = [] \<Longrightarrow> told_sent [e] = [] \<Longrightarrow> advances s (emit e s)"
  by (rule advances_local) (simp_all add: emit_def)

lemma advances_message [simp]: "advances s (call_on_message p b s)"
  by (simp add: call_on_message_def advances_emit)

lemma advances_handle_close: "handle_close_frame env op p s = Ret s' \<Longrightarrow> advances s s'"
  by (auto simp: handle_close_frame_def Let_def split: if_splits
      intro: advances_transition [OF advances_close] advances_local)

lemma advances_handle_ping: "handle_ping_frame env op p s = Ret s' \<Longrightarrow> advances s s'"
  by (auto simp: handle_ping_frame_def split: if_splits intro: advances_close advances_send_frame advances_emit)

lemma advances_handle_pong: "handle_pong_frame env op p s = Ret s' \<Longrightarrow> advances s s'"
  by (auto simp: handle_pong_frame_def split: if_splits intro: advances_close advances_emit)

lemma advances_handle_text: "handle_text_frame env op p s = Ret s' \<Longrightarrow> advances s s'"
  by (auto simp: handle_text_frame_def Let_def ws_typed_def opcode_defs split: if_splits prod.splits
      intro: advances_close advances_local elim!: advances_after [OF advances_close])

lemma advances_handle_binary: "handle_binary_frame env op p s = Ret s' \<Longrightarrow> advances s s'"
  by (auto simp: handle_binary_frame_def Let_def ws_typed_def opcode_defs split: if_splits
      intro: advances_close advances_local)

lemma advances_handle_continuation: "handle_continuation_frame env op p s = Ret s' \<Longrightarrow> advances s s'"
  by (auto simp: handle_continuation_frame_def Let_def ws_typed_def opcode_defs split: if_splits prod.splits
      intro: advances_close advances_local intro!: advances_after [OF advances_message] elim!: advances_after [OF advances_close])

lemma advances_handle_data: "handle_data_frame env op p s = Ret s' \<Longrightarrow> advances s s'"
  by (auto simp: handle_data_frame_def split: if_splits
      intro: advances_handle_text advances_handle_binary advances_handle_continuation)

lemma advances_decompress: "decompress env op p s = Ret r \<Longrightarrow> advances s (case r of Inl t \<Rightarrow> t | Inr (_, t) \<Rightarrow> t)"
  by (auto simp: decompress_def andthen_Ret split: if_splits dest!: advances_flate(1) intro: advances_trans)

lemma advances_handle_frame: "handle_frame env op p s = Ret s' \<Longrightarrow> advances s s'"
  by (auto simp: handle_frame_def Let_def andthen_Ret split: if_splits sum.splits dest!: advances_decompress
      intro: advances_close advances_handle_close advances_handle_ping advances_handle_pong advances_handle_data
        advances_trans [OF _ advances_close] advances_trans [OF _ advances_handle_data])

subsection \<open>The parser\<close>

lemma advances_next: "advances s (s\<lparr>parser_wanted_size := 2, parser_data := d\<rparr>)"
  by (rule advances_local) (auto simp: ws_typed_def)

lemma advances_wait: "parser_wanted_size s \<le> w \<Longrightarrow> advances s (s\<lparr>parser_wanted_size := w\<rparr>)"
  by (rule advances_local) (auto simp: ws_typed_def)

lemma advances_parse_loop: "parse_loop env s = Ret s' \<Longrightarrow> advances s s'"
  by (erule parse_loop_rule [where I = "\<lambda>_. True" and R = advances])
    (simp_all add: advances_wait advances_next advances_close advances_handle_frame, erule (1) advances_trans)

lemma advances_disconnect: "advances s (raw_on_disconnect s)"
  by (rule advances_local) (auto simp: raw_on_disconnect_def Let_def)

lemma advances_data:
  assumes "raw_on_data_available env cancelled res s = Ret (c, s')"
  shows "advances s s'"
proof -
  have d: "advances s (raw_on_disconnect (s\<lparr>parser_data := d\<rparr>))" for d
    by (rule advances_after [OF advances_disconnect]) simp_all
  have p: "advances s s'" if "parse_loop env (s\<lparr>parser_data := d\<rparr>) = Ret s'" for d
    using advances_parse_loop [OF that] by (auto elim!: advances_after)
  show ?thesis
    using assms advances_disconnect d p advances_parse_loop
    by (cases res) (fastforce simp: raw_on_data_available_def andthen_Ret split: if_splits)+
qed

subsection \<open>The interface\<close>

lemma advances_rejected: "advances s (run_cb cb False s)"
  by (cases cb) (auto simp: run_cb_def intro: advances_emit)

lemma advances_ws_send: "ws_send_frame env op data cb s = Ret s' \<Longrightarrow> advances s s'"
  by (auto simp: ws_send_frame_def split: if_splits intro: advances_rejected advances_send_frame)

lemma advances_ws_close: "ws_close env code reason s = Ret s' \<Longrightarrow> advances s s'"
  by (auto simp: ws_close_def split: if_splits intro: advances_close)

lemma typed_run_cb [simp]: "ws_typed (run_cb cb ok s) = ws_typed s"
  by (cases cb) (simp_all add: run_cb_def)

subsection \<open>Properties\<close>

text \<open>The steps of \<open>Ws_Lifecycle\<close>; the sending task only takes from the queue.\<close>

lemma typed_send_step: "ws_typed s \<Longrightarrow> ws_typed (send_step n s)"
  by (auto simp: send_step_def split: list.splits)

lemma typed_drain: "ws_typed (fold (\<lambda>(_, cb). run_cb cb ok) q s) = ws_typed s"
  by (induction q arbitrary: s) (simp_all add: case_prod_unfold)

lemma advances_typed: "advances s s' \<Longrightarrow> ws_typed s \<Longrightarrow> ws_typed s'"
  by (simp add: advances_def)

lemma ws_step_typed: "ws_step env s s' \<Longrightarrow> ws_typed s \<Longrightarrow> ws_typed s'"
proof (induction rule: ws_step.induct)
  case (user_closes code reason s s')
  from advances_typed [OF advances_ws_close [OF user_closes(1)] user_closes(2)] show ?case .
next
  case (socket cancelled res s c s')
  from advances_typed [OF advances_data [OF socket(1)] socket(2)] show ?case .
next
  case (user_sets s' b s m)
  then show ?case
    by (auto simp: set_on_open_def set_on_close_def set_on_message_def set_on_ping_def set_on_pong_def set_utf8_validation_mode_def)
next
  case (task s n)
  then show ?case by (rule typed_send_step)
next
  case (task_ends s)
  then show ?case by (simp add: drain_queue_def typed_drain)
qed (auto simp: ws_send_def ws_send_ping_def ws_send_pong_def intro: advances_typed [OF advances_ws_send])

text \<open>
  C26: The fields of a connection keep their types whatever the peer sends and the user does: the
  message in progress is none, a text or a binary message, one that is not in progress has no
  payload, and the parser never waits for less than the two octets it reads first.
\<close>

theorem ws_types_kept:
  assumes "(ws_step env)\<^sup>*\<^sup>* s s'" "fragment_code s = op_continuation" "fragment_payload s = []" "parser_wanted_size s = 2"
  shows "fragment_code s' \<in> {op_continuation, op_text, op_binary} \<and>
    (fragment_code s' = op_continuation \<longrightarrow> fragment_payload s' = []) \<and> 2 \<le> parser_wanted_size s'"
proof -
  have "ws_typed s'" using assms(1)
  proof (induction rule: rtranclp_induct)
    case base
    then show ?case using assms(2-4) by (simp add: ws_typed_def)
  qed (rule ws_step_typed)
  then show ?thesis by (simp add: ws_typed_def)
qed

text \<open>The first frame of a fragmented binary message arrives, with the payload 5.\<close>

theorem ws_types_kept_witness:
  "\<exists>s'. (ws_step plain_env)\<^sup>*\<^sup>* fresh_example s' \<and> fragment_payload s' = [5] \<and>
    fragment_code s' \<in> {op_continuation, op_text, op_binary} \<and> 2 \<le> parser_wanted_size s'"
proof -
  let ?s = "fresh_example\<lparr>parser_wanted_size := 2, parser_data := [], fragment_code := op_binary, fragment_was_compressed := False,
    fragment_payload := [5], fragment_validate_offset := 0\<rparr>"
  have "parse_loop plain_env (fresh_example\<lparr>parser_data := [0x02, 1, 5]\<rparr>) = Ret ?s"
  proof -
    let ?i = "fresh_example\<lparr>parser_data := [0x02, 1, 5]\<rparr>"
    have "parser_data ?i = server_frame (0x02, [5]) @ []" "frame_fits (0x02, [5])" "2 \<le> parser_wanted_size ?i"
      "parser_wanted_size ?i \<le> length (server_frame (0x02, [5]))"
      by (simp_all add: server_frame_def length_octets_def frame_fits_def fresh_example_def initial_state_def)
    from parse_loop_frame [OF this, of plain_env] show ?thesis
      by (simp add: handle_frame_def clean_op_def opcode_defs is_compressed_op_def op_and_def op_not_def handle_data_frame_def
          handle_binary_frame_def Let_def) (subst parse_loop.simps, simp add: with_parser_def fresh_example_def initial_state_def opcode_defs)
  qed
  then have "raw_on_data_available plain_env False (Bytes [0x02, 1, 5]) fresh_example = Ret (Cb_none, ?s)"
    by (simp add: raw_on_data_available_def fresh_example_def initial_state_def)
  then have r: "(ws_step plain_env)\<^sup>*\<^sup>* fresh_example ?s" by (intro r_into_rtranclp) (rule socket)
  have "fragment_code fresh_example = op_continuation" "fragment_payload fresh_example = []" "parser_wanted_size fresh_example = 2"
    by (simp_all add: fresh_example_def initial_state_def)
  from ws_types_kept [OF r this] r show ?thesis by (intro exI [of _ ?s]) simp
qed

end
