(* ===== verification/Ws_Client.thy ===== *)
theory Ws_Client
  imports Ws_Outgoing Ws_Handshake Tcp_Client
begin

text \<open>
  An open \<open>websocket\<close> with its \<open>tcp_client\<close>: the two tasks, the executor's queue and the socket.
  \<open>send_task\<close> is cut where it suspends: at \<open>send_event.wait\<close> and at \<open>send_all\<close>. The frame that is
  being sent stays at the head of the queue until \<open>send_all\<close> has returned. The callback of the
  task's \<open>send_all\<close> is 0, that of its \<open>disconnect\<close> 1, and the handler for data 2. An exception in
  the task or in a handler ends the program (both run where the code is \<open>noexcept\<close>), so only
  answers of libcurl without one are steps. Every call of the user is one step, as if no two operations
  overlapped: \<open>close\<close> and the setters lock the mutex, but sending does not, see \<open>late_send\<close>.
\<close>

datatype phase = Popping | Waiting | Sending | Draining | Ended

record 'z wsc =
  wsock :: "'z ws"
  tcpc :: tcp
  phase :: phase

subsection \<open>The sending task\<close>

text \<open>From the top of the inner loop to the next suspension; \<open>res\<close> is libcurl's answer to the first piece.\<close>

definition task_pop :: "lib \<Rightarrow> nat option \<Rightarrow> 'z wsc \<Rightarrow> 'z wsc" where
  "task_pop lib res c =
     (case send_queue (wsock c) of
        [] \<Rightarrow> c\<lparr>phase := Waiting\<rparr>
      | (data, _) # _ \<Rightarrow> c\<lparr>tcpc := snd (tcp_send_all lib (Inr res) 0 data (tcpc c)), phase := Sending\<rparr>)"

text \<open>\<open>send_event\<close> is set: the inner loop ends, and the outer one looks at its condition.\<close>

definition task_wake :: "'z wsc \<Rightarrow> 'z wsc" where
  "task_wake c = c\<lparr>wsock := (wsock c)\<lparr>send_event := False\<rparr>, phase := (if send_should_exit (wsock c) then Draining else Popping)\<rparr>"

text \<open>\<open>send_all\<close> has returned \<open>n\<close>.\<close>

definition task_resume :: "nat \<Rightarrow> 'z wsc \<Rightarrow> 'z wsc" where
  "task_resume n c = c\<lparr>wsock := send_step n (wsock c), phase := Popping\<rparr>"

definition task_end :: "lib \<Rightarrow> 'z wsc \<Rightarrow> 'z wsc" where
  "task_end lib c =
     c\<lparr>wsock := drain_queue (wsock c),
       tcpc := (if m_is_connected (tcpc c) then snd (tcp_disconnect lib (Some 1) (tcpc c)) else tcpc c), phase := Ended\<rparr>"

subsection \<open>The executor's side\<close>

text \<open>An entry of the executor's queue: the cancelled handler for data is called with \<open>true\<close>.\<close>

definition run_entry :: "task \<Rightarrow> 'z wsc \<Rightarrow> 'z wsc" where
  "run_entry t c =
     (case t of
        Send_done cb n \<Rightarrow> if cb = 0 \<and> phase c = Sending then task_resume n c else c
      | Disconnected (Some (On_data cb)) w d \<Rightarrow>
          c\<lparr>tcpc := run_disconnected None w (tcpc c), wsock := raw_on_disconnect (wsock c)\<rparr>
      | Disconnected r w d \<Rightarrow> c\<lparr>tcpc := run_disconnected r w (tcpc c)\<rparr>
      | _ \<Rightarrow> c)"

definition result_bits :: "callback_result \<Rightarrow> u32" where
  "result_bits r = (case r of Cb_none \<Rightarrow> result_none | Cb_clear \<Rightarrow> result_clear)"

text \<open>The socket is readable: the handler reads it itself.\<close>

definition data_ready :: "'z env \<Rightarrow> received \<Rightarrow> 'z wsc \<Rightarrow> 'z wsc outcome" where
  "data_ready env res c =
     andthen (raw_on_data_available env False res (wsock c)) (\<lambda>(r, s).
       Ret (c\<lparr>tcpc := snd (on_readable (Inr None) (result_bits r) (tcpc c)), wsock := s\<rparr>))"

text \<open>The handshake with its last two calls, which a failed one does not reach.\<close>

definition handshake_install :: "lib \<Rightarrow> tcp \<Rightarrow> tcp" where
  "handshake_install lib t = pause_receive lib False (set_on_data_available 2 t)"

definition client_handshake :: "lib \<Rightarrow> 'z env \<Rightarrow> 'z net \<Rightarrow> 'z wsc \<Rightarrow> 'z wsc outcome" where
  "client_handshake lib env net c =
     andthen (handshake_task env net (wsock c)) (\<lambda>s.
       Ret (c\<lparr>tcpc := (if fst (handshake_body net (wsock c)) = None then handshake_install lib (tcpc c) else tcpc c), wsock := s\<rparr>))"

subsection \<open>Everything that happens to a client\<close>

inductive api_step :: "'z env \<Rightarrow> 'z ws \<Rightarrow> 'z ws \<Rightarrow> bool" for env where
  closes: "ws_close env code reason s = Ret s' \<Longrightarrow> api_step env s s'"
| sends: "users cb \<Longrightarrow> ws_send env data binary cb s = Ret s' \<Longrightarrow> api_step env s s'"
| pings: "users cb \<Longrightarrow> ws_send_ping env data cb s = Ret s' \<Longrightarrow> api_step env s s'"
| pongs: "users cb \<Longrightarrow> ws_send_pong env data cb s = Ret s' \<Longrightarrow> api_step env s s'"
| sets: "s' \<in> {set_on_open b s, set_on_close b s, set_on_message b s, set_on_ping b s, set_on_pong b s,
     set_utf8_validation_mode m s} \<Longrightarrow> api_step env s s'"

inductive user_step :: "'z env \<Rightarrow> bool \<Rightarrow> 'z ws \<Rightarrow> 'z ws \<Rightarrow> bool" for env connected where
  calls: "api_step env s s' \<Longrightarrow> user_step env connected s s'"
| destroys: "websocket_dtor env connected s = Ret s' \<Longrightarrow> user_step env connected s s'"

text \<open>
  \<open>ok\<close> says which answers libcurl gives to a \<open>send\<close> of these bytes. \<open>opens\<close> is a handshake that
  succeeds, with calls that the user makes in \<open>on_open\<close>, where the state is still that of the handshake.
\<close>

inductive client_step :: "lib \<Rightarrow> 'z env \<Rightarrow> (nat option \<Rightarrow> bytes \<Rightarrow> bool) \<Rightarrow> 'z wsc \<Rightarrow> 'z wsc \<Rightarrow> bool" for lib env ok where
  user: "user_step env (m_is_connected (tcpc c)) (wsock c) s' \<Longrightarrow> client_step lib env ok c (c\<lparr>wsock := s'\<rparr>)"
| pop: "phase c = Popping \<Longrightarrow> ok res (fst (hd (send_queue (wsock c)))) \<Longrightarrow> client_step lib env ok c (task_pop lib res c)"
| handshake: "con_state (wsock c) = Handshake \<Longrightarrow> client_handshake lib env net c = Ret c' \<Longrightarrow> client_step lib env ok c c'"
| opens: "con_state (wsock c) = Handshake \<Longrightarrow> handshake_body net (wsock c) = (None, buf, s) \<Longrightarrow> (api_step env)\<^sup>*\<^sup>* (call_on_open 0 s) t \<Longrightarrow>
    raw_on_data_available env False (first_read net) ((state_transition Open t)\<lparr>parser_data := buf\<rparr>) = Ret (r, s') \<Longrightarrow>
    client_step lib env ok c (c\<lparr>tcpc := handshake_install lib (tcpc c), wsock := s'\<rparr>)"
| wake: "phase c = Waiting \<Longrightarrow> send_event (wsock c) \<Longrightarrow> client_step lib env ok c (task_wake c)"
| ends: "phase c = Draining \<Longrightarrow> client_step lib env ok c (task_end lib c)"
| entry: "queue (tcpc c) = t # post \<Longrightarrow> client_step lib env ok c (run_entry t (c\<lparr>tcpc := (tcpc c)\<lparr>queue := post\<rparr>\<rparr>))"
| writable: "(case m_send_handler (tcpc c) of Some (Send_all _ data sent) \<Rightarrow> ok res (drop sent data) | _ \<Rightarrow> True) \<Longrightarrow>
    client_step lib env ok c (c\<lparr>tcpc := snd (on_writable (Inr res) (tcpc c))\<rparr>)"
| readable: "m_recv_handler (tcpc c) = Some (On_data cb) \<Longrightarrow> data_ready env r c = Ret c' \<Longrightarrow> client_step lib env ok c c'"
| paused: "client_step lib env ok c (c\<lparr>tcpc := (tcpc c)\<lparr>m_handle := pause lib d (m_handle (tcpc c))\<rparr>\<rparr>)"

inductive_cases client_stepE: "client_step lib env ok c c'"

abbreviation client_run :: "lib \<Rightarrow> 'z env \<Rightarrow> (nat option \<Rightarrow> bytes \<Rightarrow> bool) \<Rightarrow> 'z wsc \<Rightarrow> 'z wsc \<Rightarrow> bool" where
  "client_run lib env ok \<equiv> (client_step lib env ok)\<^sup>*\<^sup>*"

subsection \<open>The closing handshake of a client\<close>

lemma dtor_run:
  assumes "websocket_dtor env connected s = Ret s'" "live s"
  shows "conn_run (conn_of s) (conn_of s')"
proof -
  have f: "conn_of (t\<lparr>send_should_exit := b\<rparr>) = conn_of t" for t :: "'a ws" and b by (simp add: conn_of_def)
  show ?thesis using assms by (auto simp: websocket_dtor_def andthen_Ret f split: if_splits elim: close_run [OF _ _ refl])
qed

lemma api_step_run: "api_step env s s' \<Longrightarrow> live s \<Longrightarrow> conn_run (conn_of s) (conn_of s')"
proof (induction rule: api_step.induct)
  case (closes code reason s s')
  then show ?case by (rule user_close_run)
next
  case (sets s' b s m)
  then show ?case by (auto simp: set_on_open_def set_on_close_def set_on_message_def set_on_ping_def set_on_pong_def set_utf8_validation_mode_def)
qed (auto simp: ws_send_def ws_send_ping_def ws_send_pong_def
      intro: send_run [OF _ clean_sends(1)] send_run [OF _ clean_sends(2)] send_run [OF _ clean_sends(3)])

lemma user_step_run: "user_step env connected s s' \<Longrightarrow> live s \<Longrightarrow> conn_run (conn_of s) (conn_of s')"
  by (induction rule: user_step.induct) (rule api_step_run, assumption+, rule dtor_run)

lemma conn_of_event [simp]: "conn_of (s\<lparr>send_event := b\<rparr>) = conn_of s"
  by (simp add: conn_of_def)

lemma entry_conn:
  assumes "live (wsock c)"
  shows "conn_run (conn_of (wsock c)) (conn_of (wsock (run_entry t c)))"
  using assms disconnect_run [OF assms] send_step_run [of "wsock c"]
  by (auto simp: run_entry_def task_resume_def split: task.splits option.splits recv_op.splits)

lemma client_step_conn:
  assumes "client_step lib env ok c c'" "live (wsock c)"
  shows "conn_run (conn_of (wsock c)) (conn_of (wsock c'))"
  using assms
proof (induction rule: client_step.induct)
  case (user c s')
  then show ?case by (auto intro: user_step_run)
next
  case (pop c res)
  then show ?case by (auto simp: task_pop_def split: list.splits)
next
  case (wake c)
  then show ?case by (simp add: task_wake_def)
next
  case (ends c)
  then show ?case by (simp add: task_end_def drain_run)
next
  case (entry c t post)
  then show ?case using entry_conn [of "c\<lparr>tcpc := (tcpc c)\<lparr>queue := post\<rparr>\<rparr>" t] by simp
next
  case (readable c cb r c')
  then show ?case by (auto simp: data_ready_def andthen_Ret intro: data_run)
next
  case (handshake c net c')
  then show ?case by (simp add: live_def)
next
  case (opens c net buf s t r s')
  then show ?case by (simp add: live_def)
qed simp_all

lemma client_run_conn:
  assumes "client_run lib env ok c c'" "live (wsock c)"
  shows "conn_run (conn_of (wsock c)) (conn_of (wsock c')) \<and> live (wsock c')"
  using assms
proof (induction rule: rtranclp_induct)
  case (step d e)
  then have "live (wsock d)" "conn_run (conn_of (wsock c)) (conn_of (wsock d))" by simp_all
  with client_step_conn [OF step.hyps(2)] have "conn_run (conn_of (wsock c)) (conn_of (wsock e))" by (blast intro: rtranclp_trans)
  with conn_run_live [OF this] step.prems show ?case by (simp add: live_iff)
qed simp

subsection \<open>Frames and the wire\<close>

definition told_to_end :: "'z ws \<Rightarrow> 'z ws" where
  "told_to_end s = s\<lparr>send_should_exit := True, send_event := True\<rparr>"

lemma advances_dtor:
  assumes "websocket_dtor env connected s = Ret s'"
  shows "\<exists>t. advances s t \<and> s' = told_to_end t"
proof -
  from assms obtain t where "t = s \<or> close_impl env 1002 (bytes_of_string ''Going away'') s = Ret t" "s' = told_to_end t"
    by (auto simp: websocket_dtor_def andthen_Ret told_to_end_def split: if_splits)
  then show ?thesis using advances_close advances_refl by blast
qed

lemma advances_api: "api_step env s s' \<Longrightarrow> advances s s'"
proof (induction rule: api_step.induct)
  case (sets s' b s m)
  then show ?case
    by (auto simp: set_on_open_def set_on_close_def set_on_message_def set_on_ping_def set_on_pong_def set_utf8_validation_mode_def
        intro!: advances_local)
qed (auto simp: ws_send_def ws_send_ping_def ws_send_pong_def intro: advances_ws_send advances_ws_close)

lemma advances_user: "user_step env connected s s' \<Longrightarrow> \<exists>t. advances s t \<and> s' \<in> {t, told_to_end t}"
  by (induction rule: user_step.induct) (use advances_api advances_dtor in blast)+

lemma advances_extensions: "accept_extensions net es s = (r, t) \<Longrightarrow> advances s t"
proof (induction es arbitrary: s)
  case (Cons e es)
  have 1: "accept_extension net e s = (r, t) \<Longrightarrow> advances s t" for s t r
    by (auto simp: accept_extension_def Let_def ws_typed_def split: if_splits sum.splits option.splits prod.splits intro!: advances_local)
  from Cons show ?case by (auto split: prod.splits option.splits dest!: 1 intro: advances_trans)
qed simp

lemma advances_handshake_body:
  assumes "handshake_body net s = (r, buf, t)"
  shows "advances s t"
proof -
  have h: "advances (s\<lparr>response_headers := h\<rparr>) u \<Longrightarrow> advances s u" for h u
    by (erule advances_after) (simp_all add: ws_typed_def)
  have l: "advances s (s\<lparr>response_headers := h\<rparr>)" for h by (rule h [OF advances_refl])
  show ?thesis
    using assms by (auto simp: handshake_body_def Let_def l split: option.splits prod.splits list.splits sum.splits if_splits
        dest!: advances_extensions intro: h)
qed

lemma advances_handshake:
  assumes "handshake_task env net s = Ret s'"
  shows "advances s s'"
proof -
  obtain r buf t where b: "handshake_body net s = (r, buf, t)" by (cases "handshake_body net s")
  have o: "advances u (call_on_open code u)" for code and u :: "'a ws" by (auto simp: call_on_open_def intro: advances_emit)
  have p: "advances u ((state_transition Open (call_on_open code u))\<lparr>parser_data := d\<rparr>)" for code d and u :: "'a ws"
    by (rule advances_trans [OF o [of u code]]) (rule advances_local, simp_all)
  show ?thesis
  proof (cases r)
    case None
    then have "advances ((state_transition Open (call_on_open 0 t))\<lparr>parser_data := buf\<rparr>) s'"
      using assms b by (auto simp: handshake_task_def andthen_Ret Let_def dest!: advances_data)
    then show ?thesis by (rule advances_trans [OF advances_trans [OF advances_handshake_body [OF b] p]])
  qed (use assms b o advances_handshake_body [OF b] in \<open>auto simp: handshake_task_def intro: advances_trans\<close>)
qed

text \<open>
  What is on the wire of the frames whose sending has ended or begun; whose callback was told that
  all of it is sent.
\<close>

definition per_frame :: "(outgoing \<Rightarrow> nat \<Rightarrow> 'a list) \<Rightarrow> outgoing list \<Rightarrow> nat list \<Rightarrow> 'a list" where
  "per_frame g fs ns = concat (map2 g fs ns)"

definition sent_part :: "outgoing \<Rightarrow> nat \<Rightarrow> bytes" where
  "sent_part f n = take n (out_wire f)"

definition told_part :: "outgoing \<Rightarrow> nat \<Rightarrow> nat list" where
  "told_part f n = (case out_cb f of User_cb i \<Rightarrow> if n = length (out_wire f) then [i] else [] | _ \<Rightarrow> [])"

lemma per_frame_append: "length ns \<le> length fs \<Longrightarrow> per_frame g (fs @ qs) ns = per_frame g fs ns"
  by (simp add: per_frame_def zip_append1)

lemma per_frame_snoc:
  assumes "length ns < length fs"
  shows "per_frame g fs (ns @ [n]) = per_frame g fs ns @ g (fs ! length ns) n"
proof -
  have "zip fs (ns @ [n]) = zip fs ns @ [(fs ! length ns, n)]"
    using assms by (intro nth_equalityI) (auto simp: nth_append less_Suc_eq)
  then show ?thesis by (simp add: per_frame_def)
qed

text \<open>Libcurl's answer to a \<open>send\<close> while the connection lives: some of the bytes, or not now.\<close>

definition steady :: "nat option \<Rightarrow> bytes \<Rightarrow> bool" where
  "steady r d \<longleftrightarrow> (case r of None \<Rightarrow> True | Some n \<Rightarrow> 0 < n \<and> n \<le> length d)"

text \<open>What libcurl answers in any case: it takes no more than it is offered.\<close>

definition within :: "nat option \<Rightarrow> bytes \<Rightarrow> bool" where
  "within r d \<longleftrightarrow> (case r of None \<Rightarrow> True | Some n \<Rightarrow> n \<le> length d)"

abbreviation answers_fit :: "bool \<Rightarrow> bool \<Rightarrow> (nat option \<Rightarrow> bytes \<Rightarrow> bool) \<Rightarrow> bool" where
  "answers_fit all fit ok \<equiv> \<forall>r d. ok r d \<longrightarrow> (all \<longrightarrow> steady r d) \<and> (fit \<longrightarrow> within r d)"

text \<open>
  \<open>k\<close> bytes of the frame at the head of the queue have been taken; with \<open>all\<close>, the connection lives,
  with \<open>fit\<close>, libcurl takes no more than it is offered.
\<close>

fun about_send :: "task \<Rightarrow> bool" where
  "about_send (Send_done _ _) = True"
| "about_send (Disconnected _ w _) = (w \<noteq> None)"
| "about_send (Cancel_send _) = True"
| "about_send _ = False"

definition underway :: "bool \<Rightarrow> bool \<Rightarrow> nat \<Rightarrow> bytes \<Rightarrow> tcp \<Rightarrow> bool" where
  "underway all fit k data t \<longleftrightarrow> (fit \<longrightarrow> k \<le> length data) \<and>
    (m_send_handler t = Some (Send_all 0 data k) \<and> filter about_send (queue t) = [] \<and> (all \<longrightarrow> k < length data) \<or>
     m_send_handler t = None \<and> filter about_send (queue t) = [Send_done 0 k] \<and> (all \<longrightarrow> k = length data))"

definition idle :: "tcp \<Rightarrow> bool" where
  "idle t \<longleftrightarrow> m_send_handler t = None \<and> filter about_send (queue t) = []"

definition transmits :: "bool \<Rightarrow> bool \<Rightarrow> bytes \<Rightarrow> outgoing list \<Rightarrow> nat list \<Rightarrow> 'z wsc \<Rightarrow> bool" where
  "transmits all fit w fs ns c \<longleftrightarrow> list_all keyed fs \<and> frames_of (events (wsock c)) = map out_frame fs \<and> length ns \<le> length fs \<and>
     send_queue (wsock c) = map out_entry (drop (length ns) fs) \<and> told_sent (events (wsock c)) = per_frame told_part fs ns \<and>
     (fit \<longrightarrow> list_all2 (\<lambda>n f. n \<le> length (out_wire f)) ns (take (length ns) fs)) \<and>
     (all \<and> phase c \<noteq> Ended \<longrightarrow> m_is_connected (tcpc c) \<and> ns = map (length \<circ> out_wire) (take (length ns) fs)) \<and>
     (if phase c = Sending then
        length ns < length fs \<and> (\<exists>k. underway all fit k (out_wire (fs ! length ns)) (tcpc c) \<and>
          wire (tcpc c) = w @ per_frame sent_part fs ns @ take k (out_wire (fs ! length ns)))
      else idle (tcpc c) \<and> wire (tcpc c) = w @ per_frame sent_part fs ns)"

lemma transmits_advances:
  assumes "transmits all fit w fs ns c" "advances (wsock c) s'"
  shows "\<exists>qs. transmits all fit w (fs @ qs) ns (c\<lparr>wsock := s'\<rparr>)"
proof -
  from assms(2) obtain qs where q: "list_all keyed qs" "send_queue s' = send_queue (wsock c) @ map out_entry qs"
    "frames_of (events s') = frames_of (events (wsock c)) @ map out_frame qs" "told_sent (events s') = told_sent (events (wsock c))"
    unfolding advances_def by blast
  have "transmits all fit w (fs @ qs) ns (c\<lparr>wsock := s'\<rparr>)"
    using assms(1) q by (auto simp: transmits_def per_frame_append nth_append)
  then show ?thesis ..
qed

lemma head_entry: "n < length fs \<Longrightarrow> map out_entry (drop n fs) = out_entry (fs ! n) # map out_entry (drop (Suc n) fs)"
  by (simp add: Cons_nth_drop_Suc [symmetric])

lemma transmits_pop:
  assumes "transmits all fit w fs ns c" "phase c = Popping" "ok res (fst (hd (send_queue (wsock c))))" "answers_fit all fit ok"
  shows "transmits all fit w fs ns (task_pop lib res c)"
proof (cases "length ns < length fs")
  case False
  with assms(1,2) show ?thesis by (simp add: transmits_def task_pop_def)
next
  case True
  let ?d = "out_wire (fs ! length ns)" and ?t = "snd (tcp_send_all lib (Inr res) 0 (out_wire (fs ! length ns)) (tcpc c))"
  have q: "send_queue (wsock c) = out_entry (fs ! length ns) # map out_entry (drop (Suc (length ns)) fs)"
    using assms(1) True by (simp add: transmits_def head_entry)
  then have p: "task_pop lib res c = c\<lparr>tcpc := ?t, phase := Sending\<rparr>" by (simp add: task_pop_def out_entry_def)
  have i: "idle (tcpc c)" using assms(1,2) by (simp add: transmits_def)
  have st: "all \<Longrightarrow> steady res ?d" "fit \<Longrightarrow> within res ?d" using assms(3,4) q by (simp_all add: out_entry_def)
  have co: "all \<Longrightarrow> m_is_connected (tcpc c)" using assms(1,2) by (simp add: transmits_def)
  have d: "0 < length ?d" by (simp add: out_wire_def encode_frame_def Let_def)
  have "\<exists>k. underway all fit k ?d ?t \<and> wire ?t = wire (tcpc c) @ take k ?d \<and> (all \<longrightarrow> m_is_connected ?t)"
    using i st co d
    by (cases res) (auto simp: tcp_send_all_def idle_def underway_def Let_def steady_def within_def wait_send_def)
  then show ?thesis using assms(1,2) True by (auto simp: transmits_def p)
qed

lemma told_run_cb: "told_sent (events (run_cb (out_cb f) (n = length (out_wire f)) s)) = told_sent (events s) @ told_part f n"
  by (simp add: told_part_def run_cb_def emit_def split: send_cb.splits)

lemma run_cb_frames [simp]: "frames_of (events (run_cb cb ok s)) = frames_of (events s)"
  by (cases cb) (simp_all add: run_cb_def emit_def)

lemma transmits_resume:
  assumes "transmits all fit w fs ns c" "phase c = Sending" "queue (tcpc c) = Send_done cb n # post"
  shows "transmits all fit w fs (ns @ [n]) (task_resume n (c\<lparr>tcpc := (tcpc c)\<lparr>queue := post\<rparr>\<rparr>))" "cb = 0"
proof -
  let ?f = "fs ! length ns"
  from assms(1,2) obtain k where k: "length ns < length fs" "underway all fit k (out_wire ?f) (tcpc c)"
    "wire (tcpc c) = w @ per_frame sent_part fs ns @ take k (out_wire ?f)"
    by (auto simp: transmits_def)
  then have n: "cb = 0" "k = n" "m_send_handler (tcpc c) = None" "filter about_send post = []" "all \<longrightarrow> n = length (out_wire ?f)" "fit \<longrightarrow> n \<le> length (out_wire ?f)"
    using assms(3) by (auto simp: underway_def)
  then show "cb = 0" by simp
  have q: "send_queue (wsock c) = out_entry ?f # map out_entry (drop (Suc (length ns)) fs)"
    using assms(1) k(1) by (simp add: transmits_def head_entry)
  let ?s = "run_cb (out_cb ?f) (n = length (out_wire ?f)) ((wsock c)\<lparr>send_queue := map out_entry (drop (Suc (length ns)) fs)\<rparr>)"
  have r: "task_resume n (c\<lparr>tcpc := t\<rparr>) = c\<lparr>wsock := ?s, tcpc := t, phase := Popping\<rparr>" for t
    using q by (simp add: task_resume_def send_step_def out_entry_def)
  have c: "list_all keyed fs" "frames_of (events (wsock c)) = map out_frame fs" "told_sent (events (wsock c)) = per_frame told_part fs ns"
    "all \<longrightarrow> m_is_connected (tcpc c) \<and> ns = map (length \<circ> out_wire) (take (length ns) fs)"
    "fit \<longrightarrow> list_all2 (\<lambda>n f. n \<le> length (out_wire f)) ns (take (length ns) fs)"
    using assms(1,2) by (simp_all add: transmits_def)
  have b: "fit \<longrightarrow> list_all2 (\<lambda>n f. n \<le> length (out_wire f)) (ns @ [n]) (take (Suc (length ns)) fs)"
    using c(5) n(6) k(1) by (simp add: take_Suc_conv_app_nth list_all2_appendI)
  have "all \<longrightarrow> ns @ [n] = map (length \<circ> out_wire) (take (Suc (length ns)) fs)"
    using c(4) n(5) k(1) by (simp add: take_Suc_conv_app_nth)
  then show "transmits all fit w fs (ns @ [n]) (task_resume n (c\<lparr>tcpc := (tcpc c)\<lparr>queue := post\<rparr>\<rparr>))"
    using c k n b unfolding r by (simp add: transmits_def per_frame_snoc told_run_cb run_cb_queue idle_def sent_part_def)
qed

lemma drained_events:
  "frames_of (events (fold (\<lambda>(_, cb). run_cb cb False) q s)) = frames_of (events s) \<and>
   told_sent (events (fold (\<lambda>(_, cb). run_cb cb False) q s)) = told_sent (events s)"
proof (induction q arbitrary: s)
  case (Cons x q)
  have "told_sent (events (run_cb cb False s)) = told_sent (events s)" for cb by (cases cb) (simp_all add: run_cb_def emit_def)
  with Cons show ?case by (cases x) simp
qed simp

lemma per_frame_nothing:
  assumes "\<And>f. g f 0 = []" "length ns \<le> length fs"
  shows "per_frame g fs (ns @ replicate (length fs - length ns) 0) = per_frame g fs ns"
proof -
  have z: "concat (map2 g fs' (replicate n 0)) = []" for fs' n
    using assms(1) by (auto simp: in_set_zip)
  have "zip (take (length ns) fs) ns = zip fs ns" by (rule nth_equalityI) auto
  with z show ?thesis by (simp add: per_frame_def zip_append2 del: concat_eq_Nil_conv)
qed

lemma transmits_end:
  assumes "transmits all fit w fs ns c" "phase c = Draining"
  shows "transmits all fit w fs (ns @ replicate (length fs - length ns) 0) (task_end lib c)"
proof -
  have i: "idle (tcpc c)" using assms by (simp add: transmits_def)
  obtain e t where t: "tcp_disconnect lib (Some 1) (tcpc c) = (e, t)" by (cases "tcp_disconnect lib (Some 1) (tcpc c)")
  have "idle t \<and> wire t = wire (tcpc c)"
    using t i by (auto simp: tcp_disconnect_def idle_def Let_def push_def split: prod.splits option.splits)
  moreover have "sent_part f 0 = []" "told_part f 0 = []" for f
    by (auto simp: sent_part_def told_part_def out_wire_def encode_frame_def Let_def split: send_cb.splits)
  moreover have l: "length ns \<le> length fs" using assms(1) by (simp add: transmits_def)
  moreover have "fit \<longrightarrow> list_all2 (\<lambda>n f. n \<le> length (out_wire f)) (ns @ replicate (length fs - length ns) 0) fs"
  proof
    assume fit
    then have "list_all2 (\<lambda>n f. n \<le> length (out_wire f)) ns (take (length ns) fs)" using assms(1) by (simp add: transmits_def)
    moreover have "list_all2 (\<lambda>n f. n \<le> length (out_wire f)) (replicate (length fs - length ns) 0) (drop (length ns) fs)"
      by (simp add: list_all2_conv_all_nth)
    ultimately show "list_all2 (\<lambda>n f. n \<le> length (out_wire f)) (ns @ replicate (length fs - length ns) 0) fs"
      by (metis append_take_drop_id list_all2_appendI)
  qed
  ultimately show ?thesis
    using assms i t
    by (auto simp: transmits_def task_end_def drain_queue_def drained drained_events per_frame_nothing)
qed

lemma transmits_tcp:
  assumes "transmits all fit w fs ns c" "m_send_handler t = m_send_handler (tcpc c)" "wire t = wire (tcpc c)"
    "filter about_send (queue t) = filter about_send (queue (tcpc c))" "m_is_connected t = m_is_connected (tcpc c)"
  shows "transmits all fit w fs ns (c\<lparr>tcpc := t\<rparr>)"
  using assms by (auto simp: transmits_def underway_def idle_def)

lemma transmits_writable:
  assumes "transmits all fit w fs ns c" "case m_send_handler (tcpc c) of Some (Send_all _ data sent) \<Rightarrow> ok res (drop sent data) | _ \<Rightarrow> True"
    "answers_fit all fit ok"
  shows "transmits all fit w fs ns (c\<lparr>tcpc := snd (on_writable (Inr res) (tcpc c))\<rparr>)"
proof (cases "m_send_handler (tcpc c)")
  case None
  then have "snd (on_writable (Inr res) (tcpc c)) = tcpc c" by (simp add: on_writable_def)
  with assms(1) show ?thesis by simp
next
  case (Some op)
  let ?f = "fs ! length ns" and ?t = "snd (on_writable (Inr res) (tcpc c))"
  from assms(1) Some obtain k where p: "phase c = Sending" "length ns < length fs" "underway all fit k (out_wire ?f) (tcpc c)"
    "wire (tcpc c) = w @ per_frame sent_part fs ns @ take k (out_wire ?f)"
    by (auto simp: transmits_def idle_def split: if_splits)
  then have h: "m_send_handler (tcpc c) = Some (Send_all 0 (out_wire ?f) k)" "filter about_send (queue (tcpc c)) = []"
    "all \<longrightarrow> k < length (out_wire ?f)" "fit \<longrightarrow> k \<le> length (out_wire ?f)" using Some by (auto simp: underway_def)
  have st: "all \<Longrightarrow> steady res (drop k (out_wire ?f))" "fit \<Longrightarrow> within res (drop k (out_wire ?f))" using assms(2,3) h(1) by simp_all
  have "\<exists>k'. underway all fit k' (out_wire ?f) ?t \<and> wire ?t = wire (tcpc c) @ take (k' - k) (drop k (out_wire ?f)) \<and> k \<le> k' \<and>
      m_is_connected ?t = m_is_connected (tcpc c)"
  proof (cases res)
    case (Some n)
    show ?thesis using h st Some by (intro exI [of _ "k + n"]) (auto simp: on_writable_def underway_def Let_def steady_def within_def)
  qed (use h in \<open>auto simp: on_writable_def underway_def\<close>)
  then obtain k' where k': "underway all fit k' (out_wire ?f) ?t" "wire ?t = wire (tcpc c) @ take (k' - k) (drop k (out_wire ?f))" "k \<le> k'"
    "m_is_connected ?t = m_is_connected (tcpc c)" by blast
  have "take k (out_wire ?f) @ take (k' - k) (drop k (out_wire ?f)) = take k' (out_wire ?f)"
    using k'(3) take_add [of k "k' - k" "out_wire ?f"] by simp
  then have "wire ?t = w @ per_frame sent_part fs ns @ take k' (out_wire ?f)" using k'(2) p(4) by simp
  with assms(1) p k' show ?thesis by (auto simp: transmits_def)
qed

lemma on_readable_none: "on_readable (Inr None) bits t = (x, t') \<Longrightarrow> m_send_handler t' = m_send_handler t \<and> wire t' = wire t \<and>
    queue t' = queue t \<and> m_is_connected t' = m_is_connected t"
proof (cases "m_recv_handler t")
  case (Some op)
  then show "on_readable (Inr None) bits t = (x, t') \<Longrightarrow> ?thesis" by (cases op) (auto simp: on_readable_def)
qed (auto simp: on_readable_def)

lemma cancel_recv_keeps: "m_send_handler (cancel_recv op t) = m_send_handler t \<and> wire (cancel_recv op t) = wire t \<and>
    filter about_send (queue (cancel_recv op t)) = filter about_send (queue t) \<and> m_is_connected (cancel_recv op t) = m_is_connected t"
  by (cases op) simp_all

lemma run_disconnected_keeps: "m_send_handler (run_disconnected r None t) = m_send_handler t \<and> wire (run_disconnected r None t) = wire t \<and>
    filter about_send (queue (run_disconnected r None t)) = filter about_send (queue t) \<and>
    m_is_connected (run_disconnected r None t) = m_is_connected t"
  by (cases r) (simp_all add: run_disconnected_def cancel_recv_keeps)

lemma not_sending: "transmits all fit w fs ns c \<Longrightarrow> phase c \<noteq> Sending \<Longrightarrow> filter about_send (queue (tcpc c)) = []"
  by (simp add: transmits_def idle_def)

lemma only_send_done: "transmits all fit w fs ns c \<Longrightarrow> t \<in> set (queue (tcpc c)) \<Longrightarrow> about_send t \<Longrightarrow> phase c = Sending \<and> (\<exists>k. t = Send_done 0 k)"
proof -
  assume t: "transmits all fit w fs ns c" "t \<in> set (queue (tcpc c))" "about_send t"
  then have m: "t \<in> set (filter about_send (queue (tcpc c)))" by simp
  have s: "phase c = Sending" using m not_sending [OF t(1)] by (cases "phase c = Sending") auto
  with t(1) obtain k where "underway all fit k (out_wire (fs ! length ns)) (tcpc c)" by (auto simp: transmits_def)
  with m s show ?thesis unfolding underway_def by (elim disjE conjE) (simp_all del: set_filter)
qed

text \<open>A step that queues frames ends no sending, and the other way round.\<close>

definition grown :: "outgoing list \<Rightarrow> nat list \<Rightarrow> nat list \<Rightarrow> bool" where
  "grown qs ns ns' \<longleftrightarrow> ns' = ns \<or> qs = [] \<and> length ns \<le> length ns'"

lemma grown_simps [simp]: "grown qs ns ns" "grown [] ns (ns @ ms)"
  by (simp_all add: grown_def)

lemma transmits_entry:
  assumes "transmits all fit w fs ns c" "queue (tcpc c) = t # post"
  shows "\<exists>qs ns'. transmits all fit w (fs @ qs) ns' (run_entry t (c\<lparr>tcpc := (tcpc c)\<lparr>queue := post\<rparr>\<rparr>)) \<and> grown qs ns ns'"
proof (cases "about_send t")
  case True
  from only_send_done [OF assms(1) _ True] assms(2) obtain k where k: "phase c = Sending" "t = Send_done 0 k" by auto
  from transmits_resume(1) [OF assms(1) k(1)] assms(2) k show ?thesis
    by (intro exI [of _ "[]"] exI [of _ "ns @ [k]"]) (simp add: run_entry_def)
next
  case False
  let ?c = "c\<lparr>tcpc := (tcpc c)\<lparr>queue := post\<rparr>\<rparr>"
  have c: "transmits all fit w fs ns ?c" using assms False by (intro transmits_tcp) simp_all
  have same: "\<exists>qs ns'. transmits all fit w (fs @ qs) ns' ?c \<and> grown qs ns ns'" using c by (metis append_Nil2 grown_simps(1))
  have t: "transmits all fit w fs ns (?c\<lparr>tcpc := run_disconnected r None (tcpc ?c)\<rparr>)" for r
    using run_disconnected_keeps [of r "tcpc ?c"] by (intro transmits_tcp [OF c]) simp_all
  have u: "\<exists>qs. transmits all fit w (fs @ qs) ns (?c\<lparr>tcpc := run_disconnected None None (tcpc ?c), wsock := raw_on_disconnect (wsock c)\<rparr>)"
    using transmits_advances [OF t [of None], of "raw_on_disconnect (wsock c)"] advances_disconnect [of "wsock c"] by simp
  show ?thesis
  proof (cases t)
    case (Disconnected r v d)
    then have v: "v = None" using False by simp
    show ?thesis
    proof (cases "\<exists>cb. r = Some (On_data cb)")
      case True
      then have "run_entry t ?c = ?c\<lparr>tcpc := run_disconnected None None (tcpc ?c), wsock := raw_on_disconnect (wsock c)\<rparr>"
        using Disconnected v by (auto simp: run_entry_def)
      then show ?thesis using u grown_simps(1) by metis
    next
      case no: False
      then have "run_entry t ?c = ?c\<lparr>tcpc := run_disconnected r None (tcpc ?c)\<rparr>"
        using Disconnected v by (auto simp: run_entry_def split: option.splits recv_op.splits)
      then show ?thesis using t [of r] by (metis append_Nil2 grown_simps(1))
    qed
  qed (use same False in \<open>simp_all add: run_entry_def\<close>)
qed

lemma transmits_ready:
  assumes "transmits all fit w fs ns c" "data_ready env r c = Ret c'"
  shows "\<exists>qs. transmits all fit w (fs @ qs) ns c'"
proof -
  from assms(2) obtain x s where x: "raw_on_data_available env False r (wsock c) = Ret (x, s)"
    "c' = c\<lparr>tcpc := snd (on_readable (Inr None) (result_bits x) (tcpc c)), wsock := s\<rparr>"
    by (auto simp: data_ready_def andthen_Ret)
  let ?t = "snd (on_readable (Inr None) (result_bits x) (tcpc c))"
  have "transmits all fit w fs ns (c\<lparr>tcpc := ?t\<rparr>)"
    using on_readable_none [of "result_bits x" "tcpc c" "fst (on_readable (Inr None) (result_bits x) (tcpc c))" ?t]
    by (intro transmits_tcp [OF assms(1)]) simp_all
  from transmits_advances [OF this, of s] advances_data [OF x(1)] x(2) show ?thesis by simp
qed

lemma transmits_handshake:
  assumes "transmits all fit w fs ns c" "client_handshake lib env net c = Ret c'"
  shows "\<exists>qs. transmits all fit w (fs @ qs) ns c'"
proof -
  let ?t = "if fst (handshake_body net (wsock c)) = None then handshake_install lib (tcpc c) else tcpc c"
  from assms(2) obtain s where s: "handshake_task env net (wsock c) = Ret s" "c' = c\<lparr>tcpc := ?t, wsock := s\<rparr>"
    by (auto simp: client_handshake_def andthen_Ret)
  have "transmits all fit w fs ns (c\<lparr>tcpc := ?t\<rparr>)"
    by (intro transmits_tcp [OF assms(1)]) (simp_all add: handshake_install_def pause_receive_def set_on_data_available_def)
  from transmits_advances [OF this, of s] advances_handshake [OF s(1)] s(2) show ?thesis by simp
qed

lemma advances_calls: "(api_step env)\<^sup>*\<^sup>* s t \<Longrightarrow> advances s t"
  by (induction rule: rtranclp_induct) (auto intro: advances_trans advances_api)

lemma advances_opens:
  assumes "handshake_body net s = (None, buf, t)" "(api_step env)\<^sup>*\<^sup>* (call_on_open 0 t) u"
    "raw_on_data_available env False rd ((state_transition Open u)\<lparr>parser_data := buf\<rparr>) = Ret (r, s')"
  shows "advances s s'"
proof -
  have o: "advances t (call_on_open 0 t)" by (auto simp: call_on_open_def intro: advances_emit)
  have p: "advances u ((state_transition Open u)\<lparr>parser_data := buf\<rparr>)" by (rule advances_local) simp_all
  from advances_handshake_body [OF assms(1)] o advances_calls [OF assms(2)] p advances_data [OF assms(3)]
  show ?thesis by (blast intro: advances_trans)
qed

lemma transmits_opens:
  assumes "transmits all fit w fs ns c" "advances (wsock c) s'"
  shows "\<exists>qs. transmits all fit w (fs @ qs) ns (c\<lparr>tcpc := handshake_install lib (tcpc c), wsock := s'\<rparr>)"
proof -
  have "transmits all fit w fs ns (c\<lparr>tcpc := handshake_install lib (tcpc c)\<rparr>)"
    by (intro transmits_tcp [OF assms(1)]) (simp_all add: handshake_install_def pause_receive_def set_on_data_available_def)
  from transmits_advances [OF this, of s'] assms(2) show ?thesis by simp
qed

lemma client_step_transmits:
  assumes "client_step lib env ok c c'" "transmits all fit w fs ns c" "answers_fit all fit ok"
  shows "\<exists>qs ns'. transmits all fit w (fs @ qs) ns' c' \<and> grown qs ns ns'"
proof -
  have n: "\<exists>qs ns'. transmits all fit w (fs @ qs) ns' d \<and> grown qs ns ns'" if "\<exists>qs. transmits all fit w (fs @ qs) ns d" for d
    using that grown_simps(1) by blast
  have m: "\<exists>qs ns'. transmits all fit w (fs @ qs) ns' d \<and> grown qs ns ns'" if "transmits all fit w fs ns d" for d
    using that by (intro exI [of _ "[]"] exI [of _ ns]) simp
  show ?thesis
    using assms(1,2)
  proof (induction rule: client_step.induct)
    case (user c s')
    from advances_user [OF user(1)] obtain t where t: "advances (wsock c) t" "s' \<in> {t, told_to_end t}" by blast
    have "transmits all fit w fs' ns (c\<lparr>wsock := told_to_end t\<rparr>) = transmits all fit w fs' ns (c\<lparr>wsock := t\<rparr>)" for fs'
      by (simp add: transmits_def told_to_end_def)
    then have "\<exists>qs. transmits all fit w (fs @ qs) ns (c\<lparr>wsock := s'\<rparr>)" using transmits_advances [OF user(2) t(1)] t(2) by auto
    then show ?case by (rule n)
  next
    case (pop c res)
    show ?case by (rule m, rule transmits_pop [where ok = ok, OF pop(3,1) pop(2) assms(3)])
  next
    case (handshake c net c')
    show ?case by (rule n, rule transmits_handshake [OF handshake(3,2)])
  next
    case (opens c net buf s t r s')
    show ?case by (rule n, rule transmits_opens [OF opens(5) advances_opens [OF opens(2-4)]])
  next
    case (wake c)
    show ?case by (rule m) (use wake(1,3) in \<open>simp add: transmits_def task_wake_def\<close>)
  next
    case (ends c)
    from transmits_end [OF ends(2,1)] show ?case
      by (intro exI [of _ "[]"] exI [of _ "ns @ replicate (length fs - length ns) 0"]) simp
  next
    case (entry c t post)
    show ?case by (rule transmits_entry [OF entry(2,1)])
  next
    case (writable c res)
    show ?case by (rule m, rule transmits_writable [where ok = ok, OF writable(2,1) assms(3)])
  next
    case (readable c cb r c')
    show ?case by (rule n, rule transmits_ready [OF readable(3,2)])
  next
    case (paused c d)
    show ?case by (rule m, rule transmits_tcp [OF paused(1)]) simp_all
  qed
qed

lemma client_run_transmits:
  assumes "client_run lib env ok c c'" "transmits all fit w fs ns c" "answers_fit all fit ok"
  shows "\<exists>fs ns. transmits all fit w fs ns c'"
  using assms(1,2)
proof (induction rule: rtranclp_induct)
  case (step d e)
  then obtain fs ns where "transmits all fit w fs ns d" by blast
  from client_step_transmits [OF step.hyps(2) this assms(3)] show ?case by blast
qed blast

text \<open>
  The history of a run: every entry that has come into the send queue, with its bytes and its callback, in
  order. A step that leaves a longer queue has put the new entries at its end.
\<close>

definition added :: "'z wsc \<Rightarrow> 'z wsc \<Rightarrow> (bytes \<times> send_cb) list" where
  "added c c' = drop (length (send_queue (wsock c))) (send_queue (wsock c'))"

inductive client_history :: "lib \<Rightarrow> 'z env \<Rightarrow> (nat option \<Rightarrow> bytes \<Rightarrow> bool) \<Rightarrow> 'z wsc \<Rightarrow> (bytes \<times> send_cb) list \<Rightarrow> 'z wsc \<Rightarrow> bool"
  for lib env ok c where
  start: "client_history lib env ok c [] c"
| more: "client_history lib env ok c hs d \<Longrightarrow> client_step lib env ok d e \<Longrightarrow> client_history lib env ok c (hs @ added d e) e"

lemma added_entries:
  assumes "transmits all fit w fs ns c" "transmits all fit w (fs @ qs) ns' c'" "grown qs ns ns'"
  shows "added c c' = map out_entry qs"
proof -
  have q: "send_queue (wsock c) = map out_entry (drop (length ns) fs)" "send_queue (wsock c') = map out_entry (drop (length ns') (fs @ qs))"
    "length ns \<le> length fs" using assms(1,2) by (simp_all add: transmits_def)
  then have "added c c' = map out_entry (drop (length fs - length ns + length ns') (fs @ qs))"
    by (simp add: added_def drop_map drop_drop del: drop_append)
  with assms(3) q(3) show ?thesis by (auto simp: grown_def)
qed

lemma client_history_transmits:
  assumes "client_history lib env ok c hs c'" "transmits all fit w [] [] c" "answers_fit all fit ok"
  shows "\<exists>fs ns. transmits all fit w fs ns c' \<and> hs = map out_entry fs"
  using assms(1)
proof (induction rule: client_history.induct)
  case start
  show ?case using assms(2) by (intro exI [of _ "[]"]) simp
next
  case (more hs d e)
  then obtain fs ns where f: "transmits all fit w fs ns d" "hs = map out_entry fs" by blast
  from client_step_transmits [OF more.hyps(2) f(1) assms(3)] obtain qs ns' where g: "transmits all fit w (fs @ qs) ns' e" "grown qs ns ns'" by blast
  from added_entries [OF f(1) g] f(2) g(1) show ?case by (intro exI [of _ "fs @ qs"] exI [of _ ns']) simp
qed

subsection \<open>Before the connection is open\<close>

text \<open>
  Until the handshake has succeeded, \<open>on_open\<close> included, no frame is accepted from the user but a close
  frame: \<open>close\<close> and the destructor queue it at once, in whatever state but the last two.
\<close>

fun early_event :: "event \<Rightarrow> bool" where
  "early_event (Queued op _) \<longleftrightarrow> clean_op op = op_close"
| "early_event (Sent _ ok) \<longleftrightarrow> \<not> ok"
| "early_event (On_open _) = True"
| "early_event _ = False"

definition early :: "'z ws \<Rightarrow> bool" where
  "early s \<longleftrightarrow> con_state s \<in> {Init, Connect, Handshake} \<and> list_all early_event (events s) \<and>
     list_all (\<lambda>(_, cb). cb = Keep_state) (send_queue s)"

fun of_data :: "task \<Rightarrow> bool" where
  "of_data (Disconnected (Some (On_data _)) _ _) = True"
| "of_data _ = False"

lemma of_data_iff: "of_data (Disconnected r w d) \<longleftrightarrow> (\<exists>cb. r = Some (On_data cb))"
  by (auto elim: of_data.elims)

definition dataless :: "tcp \<Rightarrow> bool" where
  "dataless t \<longleftrightarrow> (\<forall>cb. m_recv_handler t \<noteq> Some (On_data cb)) \<and> list_all (\<lambda>x. \<not> of_data x) (queue t)"

definition before_open :: "'z wsc \<Rightarrow> bool" where
  "before_open c \<longleftrightarrow> early (wsock c) \<and> dataless (tcpc c)"

text \<open>The connection since it is open; \<open>pre\<close> is what had happened by then, \<open>q\<close> what was queued.\<close>

definition opened :: "event list \<Rightarrow> send_cb list \<Rightarrow> 'z ws \<Rightarrow> bool" where
  "opened pre q s \<longleftrightarrow> list_all early_event pre \<and> list_all (\<lambda>cb. cb = Keep_state) q \<and>
     (\<exists>later. events s = pre @ later \<and> conn_run (Open, [], q) (con_state s, later, map snd (send_queue s)))"

lemma early_quiet: "list_all early_event es \<Longrightarrow> filter is_on_close es = [] \<and> \<not> list_ex is_on_close es \<and> never_after is_on_close incoming es"
  by (induction es) (auto elim: early_event.elims)

lemma early_close: "close_impl env code reason s = Ret s' \<Longrightarrow> early s \<Longrightarrow> early s'"
  by (auto simp: close_impl_def send_close_frame enqueue_frame_def emit_def early_def)

lemma early_api: "api_step env s s' \<Longrightarrow> early s \<Longrightarrow> early s'"
proof (induction rule: api_step.induct)
  case (closes code reason s s')
  then show ?case by (auto simp: ws_close_def early_close split: if_splits)
next
  case (sets s' b s m)
  then show ?case
    by (auto simp: early_def set_on_open_def set_on_close_def set_on_message_def set_on_ping_def set_on_pong_def set_utf8_validation_mode_def)
qed (auto simp: ws_send_def ws_send_ping_def ws_send_pong_def ws_send_frame_def early_def run_cb_def emit_def split: send_cb.splits)

lemma early_calls: "(api_step env)\<^sup>*\<^sup>* s t \<Longrightarrow> early s \<Longrightarrow> early t"
  by (induction rule: rtranclp_induct) (auto dest: early_api)

lemma early_user: "user_step env connected s s' \<Longrightarrow> early s \<Longrightarrow> early s'"
proof (induction rule: user_step.induct)
  case (destroys s s')
  have f: "early (t\<lparr>send_should_exit := True, send_event := True\<rparr>) = early t" for t :: "'a ws" by (simp add: early_def)
  from destroys show ?case by (auto simp: websocket_dtor_def andthen_Ret f early_close split: if_splits)
qed (rule early_api)

lemma early_send_step: "early s \<Longrightarrow> early (send_step n s)"
  by (auto simp: early_def send_step_def run_cb_def split: list.splits)

lemma early_drain: "early s \<Longrightarrow> early (drain_queue s)"
proof -
  assume s: "early s"
  have "fold (\<lambda>(_, cb). run_cb cb False) q t = t" if "list_all (\<lambda>(_, cb). cb = Keep_state) q" for q :: "(bytes \<times> send_cb) list" and t :: "'a ws"
    using that by (induction q) (auto simp: run_cb_def)
  with s show ?thesis by (simp add: early_def drain_queue_def)
qed

lemma early_body:
  assumes "handshake_body net s = (r, buf, t)" "early s"
  shows "early (call_on_open code t)"
proof -
  from handshake_body_result [OF assms(1)] have e: "events t = events s" "con_state t = con_state s" by auto
  with advances_handshake_body [OF assms(1)] have "send_queue t = send_queue s" by (auto simp: advances_def)
  with e assms(2) show ?thesis by (auto simp: early_def call_on_open_def)
qed

lemma opened_first:
  assumes "early t" "raw_on_data_available env False rd ((state_transition Open t)\<lparr>parser_data := buf\<rparr>) = Ret (r, s')"
  shows "\<exists>pre q. opened pre q s'"
proof -
  let ?u = "(state_transition Open t)\<lparr>parser_data := buf\<rparr>"
  have u: "live ?u" "conn_of ?u = (Open, events t, map snd (send_queue t))" by (simp_all add: live_def conn_of_def)
  from conn_run_after [OF data_run [OF assms(2) u(1)], of Open "events t" "[]"] u(2) obtain d where
    "events s' = events t @ d" "conn_run (Open, [], map snd (send_queue t)) (con_state s', d, map snd (send_queue s'))"
    by (auto simp: conn_of_def)
  moreover have "list_all early_event (events t)" "list_all (\<lambda>cb. cb = Keep_state) (map snd (send_queue t))"
    using assms(1) by (simp_all add: early_def list.pred_map comp_def case_prod_unfold)
  ultimately show ?thesis unfolding opened_def by blast
qed

lemma dataless_simps:
  "dataless t \<Longrightarrow> dataless (snd (tcp_send_all lib (Inr res) cb data t))"
  "dataless t \<Longrightarrow> dataless (snd (tcp_disconnect lib d t))"
  "dataless t \<Longrightarrow> dataless (snd (on_writable (Inr res) t))"
  "dataless t \<Longrightarrow> dataless (t\<lparr>m_handle := h\<rparr>)"
  "dataless t \<Longrightarrow> queue t = x # post \<Longrightarrow> dataless (t\<lparr>queue := post\<rparr>) \<and> \<not> of_data x"
  "dataless t \<Longrightarrow> \<not> of_data (Disconnected r w d) \<Longrightarrow> dataless (run_disconnected r w t)"
proof -
  have w: "dataless (wait_send lib op t) = dataless t" "dataless (take_wire d t) = dataless t"
    "dataless (push x t) \<longleftrightarrow> dataless t \<and> \<not> of_data x" for op d x and t :: tcp by (auto simp: dataless_def)
  have s: "dataless (cancel_send op t) = dataless t" for op and t :: tcp by (cases op) (simp_all add: w)
  have r: "dataless (cancel_recv op t) = dataless t" for op and t :: tcp by (cases op) (simp_all add: w)
  have c: "dataless (t\<lparr>m_send_handler := h\<rparr>) = dataless t" for h and t :: tcp by (simp add: dataless_def)
  show "dataless (snd (tcp_send_all lib (Inr res) cb data t))" if "dataless t"
    using that by (simp add: tcp_send_all_def Let_def w split: option.splits)
  show "dataless (snd (tcp_disconnect lib d t))" if "dataless t"
    using that by (auto simp: tcp_disconnect_def Let_def dataless_def of_data_iff split: prod.splits option.splits)
  show "dataless (snd (on_writable (Inr res) t))" if "dataless t"
  proof (cases "m_send_handler t")
    case (Some op)
    have "dataless (snd (snd (call_send op res t)))" using that by (cases op; cases res) (simp_all add: w Let_def)
    with Some show ?thesis by (auto simp: on_writable_def c split: prod.splits)
  qed (use that in \<open>simp add: on_writable_def\<close>)
  show "dataless (t\<lparr>m_handle := h\<rparr>)" if "dataless t" using that by (simp add: dataless_def)
  show "dataless (t\<lparr>queue := post\<rparr>) \<and> \<not> of_data x" if "dataless t" "queue t = x # post" using that by (simp add: dataless_def)
  show "dataless (run_disconnected r w t)" if "dataless t" using that
    by (simp add: run_disconnected_def Let_def r s split: option.splits)
qed

lemma before_entry: "before_open c \<Longrightarrow> \<not> of_data t \<Longrightarrow> before_open (run_entry t c)"
  by (auto simp: before_open_def run_entry_def task_resume_def early_send_step dataless_simps(6) split: task.splits option.splits recv_op.splits)

lemma before_step:
  assumes "client_step lib env ok c c'" "before_open c"
  shows "before_open c' \<or> (\<exists>pre q. opened pre q (wsock c'))"
  using assms
proof (induction rule: client_step.induct)
  case (user c s')
  then show ?case by (auto simp: before_open_def early_user)
next
  case (pop c res)
  then show ?case by (auto simp: before_open_def task_pop_def dataless_simps(1) split: list.splits)
next
  case (handshake c net c')
  obtain r buf t where b: "handshake_body net (wsock c) = (r, buf, t)" by (cases "handshake_body net (wsock c)")
  have e: "early (call_on_open code t)" for code using early_body [OF b] handshake(3) by (simp add: before_open_def)
  show ?case
  proof (cases r)
    case None
    with handshake(2) b have "\<exists>pre q. opened pre q (wsock c')"
      by (auto simp: client_handshake_def handshake_task_def andthen_Ret Let_def intro: opened_first [OF e])
    then show ?thesis ..
  qed (use handshake b e in \<open>auto simp: client_handshake_def handshake_task_def andthen_Ret before_open_def\<close>)
next
  case (opens c net buf s t r s')
  have "early t" using early_calls [OF opens(3) early_body [OF opens(2)]] opens(5) by (simp add: before_open_def)
  from opened_first [OF this opens(4)] show ?case by simp
next
  case (wake c)
  then show ?case by (simp add: before_open_def task_wake_def early_def)
next
  case (ends c)
  then show ?case by (simp add: before_open_def task_end_def early_drain dataless_simps(2))
next
  case (entry c t post)
  then have "before_open (c\<lparr>tcpc := (tcpc c)\<lparr>queue := post\<rparr>\<rparr>)" "\<not> of_data t"
    using dataless_simps(5) [of "tcpc c" t post] by (auto simp: before_open_def)
  then show ?case by (simp add: before_entry)
next
  case (writable c res)
  then show ?case by (simp add: before_open_def dataless_simps(3))
next
  case (readable c cb r c')
  then show ?case by (simp add: before_open_def dataless_def)
next
  case (paused c d)
  then show ?case by (simp add: before_open_def dataless_simps(4))
qed

lemma opened_live: "opened pre q s \<Longrightarrow> live s"
  unfolding opened_def using conn_run_live by (fastforce simp: live_def)

lemma opened_step:
  assumes "client_run lib env ok c c'" "opened pre q (wsock c)"
  shows "opened pre q (wsock c')"
proof -
  from assms(2) obtain l where l: "events (wsock c) = pre @ l" "conn_run (Open, [], q) (con_state (wsock c), l, map snd (send_queue (wsock c)))"
    by (auto simp: opened_def)
  then have "conn_of (wsock c) = (con_state (wsock c), pre @ l, map snd (send_queue (wsock c)))" by (simp add: conn_of_def)
  with client_run_conn [OF assms(1) opened_live [OF assms(2)]] have
    "conn_run (con_state (wsock c), pre @ l, map snd (send_queue (wsock c))) (conn_of (wsock c'))" by simp
  from conn_run_after [OF this refl] obtain d where "events (wsock c') = pre @ d"
    "conn_run (con_state (wsock c), l, map snd (send_queue (wsock c))) (con_state (wsock c'), d, map snd (send_queue (wsock c')))"
    by (auto simp: conn_of_def)
  with l(2) assms(2) show ?thesis by (auto simp: opened_def intro: rtranclp_trans)
qed

lemma before_run:
  assumes "client_run lib env ok c c'" "before_open c"
  shows "before_open c' \<or> (\<exists>pre q. opened pre q (wsock c'))"
  using assms
proof (induction rule: rtranclp_induct)
  case (step d e)
  then consider "before_open d" | pre q where "opened pre q (wsock d)" by blast
  then show ?case
  proof cases
    case 1
    with before_step [OF step.hyps(2)] show ?thesis .
  next
    case 2
    with opened_step [OF r_into_rtranclp [of "client_step lib env ok", OF step.hyps(2)]] show ?thesis by blast
  qed
qed simp

subsection \<open>The task is woken\<close>

definition alert :: "'z wsc \<Rightarrow> bool" where
  "alert c \<longleftrightarrow> (phase c = Waiting \<and> send_queue (wsock c) \<noteq> [] \<longrightarrow> send_event (wsock c)) \<and>
     (send_should_exit (wsock c) \<and> phase c \<notin> {Draining, Ended} \<longrightarrow> send_event (wsock c)) \<and>
     (phase c = Sending \<longrightarrow> send_queue (wsock c) \<noteq> [])"

lemma alert_advances: "alert c \<Longrightarrow> advances (wsock c) (wsock c') \<Longrightarrow> phase c' = phase c \<Longrightarrow> alert c'"
  unfolding alert_def advances_def by auto

lemma run_cb_event [simp]: "send_event (run_cb cb ok s) = send_event s" "send_should_exit (run_cb cb ok s) = send_should_exit s"
  by (cases cb; simp add: run_cb_def)+

lemma alert_entry: "alert c \<Longrightarrow> alert (run_entry t c)"
proof -
  assume a: "alert c"
  have r: "alert (task_resume n c)" if "phase c = Sending" for n
    using a that by (cases "send_queue (wsock c)") (auto simp: alert_def task_resume_def send_step_def)
  have "wsock (run_entry t c) = wsock c \<and> phase (run_entry t c) = phase c \<or>
      wsock (run_entry t c) = raw_on_disconnect (wsock c) \<and> phase (run_entry t c) = phase c \<or>
      (\<exists>n. phase c = Sending \<and> run_entry t c = task_resume n c)"
    by (auto simp: run_entry_def split: task.splits option.splits recv_op.splits)
  then show "alert (run_entry t c)"
    using a r alert_advances [OF a, of "run_entry t c"] advances_disconnect [of "wsock c"] by (elim disjE) auto
qed

lemma client_step_alert: "client_step lib env ok c c' \<Longrightarrow> alert c \<Longrightarrow> alert c'"
proof (induction rule: client_step.induct)
  case (user c s')
  from advances_user [OF user(1)] obtain t where t: "advances (wsock c) t" "s' \<in> {t, told_to_end t}" by blast
  have "alert (c\<lparr>wsock := t\<rparr>)" using alert_advances [OF user(2), of "c\<lparr>wsock := t\<rparr>"] t(1) by simp
  then have "alert (c\<lparr>wsock := told_to_end t\<rparr>)" by (auto simp: alert_def told_to_end_def)
  with \<open>alert (c\<lparr>wsock := t\<rparr>)\<close> t(2) show ?case by blast
next
  case (pop c res)
  then show ?case by (auto simp: alert_def task_pop_def split: list.splits)
next
  case (entry c t post)
  from entry(2) have "alert (c\<lparr>tcpc := (tcpc c)\<lparr>queue := post\<rparr>\<rparr>)" by (simp add: alert_def)
  then show ?case by (rule alert_entry)
next
  case (readable c cb r c')
  then have "advances (wsock c) (wsock c') \<and> phase c' = phase c" by (auto simp: data_ready_def andthen_Ret intro: advances_data)
  with alert_advances [OF readable(3)] show ?case by blast
next
  case (handshake c net c')
  then have "advances (wsock c) (wsock c') \<and> phase c' = phase c" by (auto simp: client_handshake_def andthen_Ret intro: advances_handshake)
  with alert_advances [OF handshake(3)] show ?case by blast
next
  case (opens c net buf s t r s')
  from alert_advances [OF opens(5), of "c\<lparr>tcpc := handshake_install lib (tcpc c), wsock := s'\<rparr>"] advances_opens [OF opens(2-4)] show ?case by simp
qed (auto simp: alert_def task_wake_def task_end_def)

lemma client_run_alert: "client_run lib env ok c c' \<Longrightarrow> alert c \<Longrightarrow> alert c'"
  by (induction rule: rtranclp_induct) (auto dest: client_step_alert)

subsection \<open>Reading the wire back\<close>

text \<open>A stream of frames, as a server reads it with the decoder of RFC 6455.\<close>

fun rfc_reads :: "bytes \<Rightarrow> rfc_frame list \<Rightarrow> bool" where
  "rfc_reads bs [] \<longleftrightarrow> bs = []"
| "rfc_reads bs (f # fs) \<longleftrightarrow> (case rfc_decode bs of None \<Rightarrow> False | Some (g, r) \<Rightarrow> g = f \<and> rfc_reads r fs)"

definition rfc_of :: "opcode \<times> bytes \<Rightarrow> rfc_frame" where
  "rfc_of x = (case x of (op, p) \<Rightarrow> \<lparr>rfc_fin = (unat op \<ge> 128), rfc_rsv = unat op div 16 mod 8, rfc_code = unat op mod 16,
     rfc_masked = True, rfc_payload = p\<rparr>)"

lemma rfc_reads_frames:
  assumes "list_all keyed fs" "list_all (\<lambda>f. length (out_payload f) < 2 ^ 63) fs"
  shows "rfc_reads (concat (map out_wire fs)) (map (rfc_of \<circ> out_frame) fs)"
  using assms
proof (induction fs)
  case (Cons f fs)
  then have "rfc_decode (out_wire f @ concat (map out_wire fs)) = Some (rfc_of (out_frame f), concat (map out_wire fs))"
    using rfc_decode_encode [of "out_key f" "out_payload f" "out_op f" "concat (map out_wire fs)"]
    by (simp add: out_wire_def keyed_def rfc_of_def out_frame_def)
  with Cons show ?case by simp
qed simp

subsection \<open>Properties\<close>

text \<open>After the handshake: the connection is made, nothing is queued, and the sending task waits.\<close>

definition client_start :: "'z wsc \<Rightarrow> bool" where
  "client_start c \<longleftrightarrow> phase c = Waiting \<and> send_queue (wsock c) = [] \<and> frames_of (events (wsock c)) = [] \<and>
     told_sent (events (wsock c)) = [] \<and> \<not> send_should_exit (wsock c) \<and> m_is_connected (tcpc c) \<and> idle (tcpc c)"

lemma start_transmits: "client_start c \<Longrightarrow> transmits all fit (wire (tcpc c)) [] [] c"
  by (simp add: client_start_def transmits_def per_frame_def)

lemma start_alert: "client_start c \<Longrightarrow> alert c"
  by (simp add: client_start_def alert_def)

text \<open>
  C5: Whatever happens to a client (calls of the user, frames of the peer and the answers to them,
  the tasks and the executor in any order, libcurl taking any part of what it is offered): the
  connection carries the frames that were queued, in the order in which they were queued (\<open>hs\<close>, with their
  callbacks), each encoded once with a key of four octets, and of each the octets that libcurl took; the
  queue holds those whose sending has not ended; and the user's callbacks that are told that their frame was
  sent are, in order, those that were queued with the frames that are there in full and whose sending has ended.
\<close>

theorem wire_carries_frames:
  assumes "client_start c" "client_history lib env ok c hs c'" "\<forall>r d. ok r d \<longrightarrow> within r d"
  shows "\<exists>(fs :: outgoing list) ns k. hs = map (\<lambda>f. (encode_frame (out_op f) (out_key f) (out_payload f), out_cb f)) fs \<and>
    frames_of (events (wsock c')) = map (\<lambda>f. (out_op f, out_payload f)) fs \<and> list_all (\<lambda>f. length (out_key f) = 4) fs \<and>
    send_queue (wsock c') = drop (length ns) hs \<and>
    list_all2 (\<lambda>n (data, cb). n \<le> length data) ns (take (length ns) hs) \<and>
    wire (tcpc c') = wire (tcpc c) @ concat (map2 (\<lambda>(data, cb) n. take n data) hs ns) @
      (if phase c' = Sending then take k (fst (hd (send_queue (wsock c')))) else []) \<and>
    told_sent (events (wsock c')) = concat (map2 (\<lambda>(data, cb) n. case cb of User_cb i \<Rightarrow> if n = length data then [i] else [] | _ \<Rightarrow> []) hs ns)"
proof -
  from client_history_transmits [OF assms(2) start_transmits [OF assms(1), of False True]] assms(3) obtain fs ns where
    t: "transmits False True (wire (tcpc c)) fs ns c'" and h: "hs = map out_entry fs" by auto
  have w: "concat (map2 (\<lambda>(data, cb) n. take n data) hs ns) = per_frame sent_part fs ns"
    "concat (map2 (\<lambda>(data, cb) n. case cb of User_cb i \<Rightarrow> if n = length data then [i] else [] | _ \<Rightarrow> []) hs ns) = per_frame told_part fs ns"
    by (simp_all add: h per_frame_def sent_part_def told_part_def zip_map1 comp_def case_prod_unfold out_entry_def cong: send_cb.case_cong)
  have q: "send_queue (wsock c') = drop (length ns) hs" "frames_of (events (wsock c')) = map (\<lambda>f. (out_op f, out_payload f)) fs"
    "list_all (\<lambda>f. length (out_key f) = 4) fs"
    using t unfolding h by (simp_all add: transmits_def drop_map out_frame_def [abs_def] keyed_def [abs_def])
  have "list_all2 (\<lambda>n f. n \<le> length (out_wire f)) ns (take (length ns) fs)" using t by (simp add: transmits_def)
  then have b: "list_all2 (\<lambda>n (data, cb). n \<le> length data) ns (take (length ns) hs)"
    by (simp add: h take_map list_all2_map2 out_entry_def)
  have e: "hs = map (\<lambda>f. (encode_frame (out_op f) (out_key f) (out_payload f), out_cb f)) fs"
    by (simp add: h out_entry_def [abs_def] out_wire_def)
  have "\<exists>k. wire (tcpc c') = wire (tcpc c) @ per_frame sent_part fs ns @
      (if phase c' = Sending then take k (fst (hd (send_queue (wsock c')))) else [])"
  proof (cases "phase c' = Sending")
    case True
    with t have "length ns < length fs" "\<exists>k. wire (tcpc c') = wire (tcpc c) @ per_frame sent_part fs ns @ take k (out_wire (fs ! length ns))"
      by (auto simp: transmits_def)
    with True show ?thesis by (simp add: q(1) h hd_drop_conv_nth out_entry_def)
  qed (use t in \<open>simp add: transmits_def\<close>)
  then obtain k where "wire (tcpc c') = wire (tcpc c) @ per_frame sent_part fs ns @
      (if phase c' = Sending then take k (fst (hd (send_queue (wsock c')))) else [])" by blast
  then have "wire (tcpc c') = wire (tcpc c) @ concat (map2 (\<lambda>(data, cb) n. take n data) hs ns) @
      (if phase c' = Sending then take k (fst (hd (send_queue (wsock c')))) else [])" unfolding w .
  moreover have "told_sent (events (wsock c')) =
      concat (map2 (\<lambda>(data, cb) n. case cb of User_cb i \<Rightarrow> if n = length data then [i] else [] | _ \<Rightarrow> []) hs ns)"
    using t unfolding w by (simp add: transmits_def)
  moreover note e q b
  ultimately show ?thesis by blast
qed

text \<open>
  C2: While the connection lives (libcurl takes some of what it is offered, or nothing for now),
  once the queue is worked off a server that reads the connection with the decoder of RFC 6455 gets
  exactly the frames that were queued, in order, with their payloads.
\<close>

theorem server_reads_frames:
  assumes "client_start c" "(client_step lib env steady)\<^sup>*\<^sup>* c c'" "phase c' \<in> {Popping, Waiting}" "send_queue (wsock c') = []"
    "list_all (\<lambda>(op, p). length p < 2 ^ 63) (frames_of (events (wsock c')))"
  shows "\<exists>stream. wire (tcpc c') = wire (tcpc c) @ stream \<and> rfc_reads stream (map rfc_of (frames_of (events (wsock c'))))"
proof -
  from client_run_transmits [OF assms(2) start_transmits [OF assms(1), of True False]] obtain fs ns where
    t: "transmits True False (wire (tcpc c)) fs ns c'" by blast
  then have f: "length ns = length fs" "ns = map (length \<circ> out_wire) fs" "list_all keyed fs"
    "frames_of (events (wsock c')) = map out_frame fs" "wire (tcpc c') = wire (tcpc c) @ per_frame sent_part fs ns"
    using assms(3,4) by (auto simp: transmits_def)
  have "per_frame sent_part fs (map (length \<circ> out_wire) fs) = concat (map out_wire fs)" for fs
    by (induction fs) (simp_all add: per_frame_def sent_part_def)
  with f have "wire (tcpc c') = wire (tcpc c) @ concat (map out_wire fs)" by simp
  moreover have "list_all (\<lambda>f. length (out_payload f) < 2 ^ 63) fs"
    using assms(5) f(4) by (simp add: list_all_iff out_frame_def)
  ultimately show ?thesis using rfc_reads_frames [of fs] f by auto
qed

text \<open>
  C16: No frame is forgotten: while there is a frame in the queue, or the client is to end, the
  sending task has a step to make, or waits for a \<open>send_all\<close> that is waiting for the socket or whose
  result is in the executor's queue.
\<close>

theorem sending_task_attends:
  assumes "client_start c" "(client_step lib env ok)\<^sup>*\<^sup>* c c'" "send_queue (wsock c') \<noteq> [] \<or> send_should_exit (wsock c')" "phase c' \<noteq> Ended"
  shows "phase c' \<in> {Popping, Draining} \<or> phase c' = Waiting \<and> send_event (wsock c') \<or>
    phase c' = Sending \<and> (\<exists>k. m_send_handler (tcpc c') = Some (Send_all 0 (fst (hd (send_queue (wsock c')))) k) \<or>
      Send_done 0 k \<in> set (queue (tcpc c')))"
proof (cases "phase c' = Sending")
  case True
  from client_run_transmits [OF assms(2) start_transmits [OF assms(1), of False False]] obtain fs ns where
    t: "transmits False False (wire (tcpc c)) fs ns c'" by blast
  with True obtain k where k: "length ns < length fs" "underway False False k (out_wire (fs ! length ns)) (tcpc c')"
    "send_queue (wsock c') = map out_entry (drop (length ns) fs)" by (auto simp: transmits_def)
  then have "fst (hd (send_queue (wsock c'))) = out_wire (fs ! length ns)" by (simp add: head_entry out_entry_def)
  moreover have "Send_done 0 k \<in> set (queue (tcpc c'))" if "filter about_send (queue (tcpc c')) = [Send_done 0 k]"
  proof -
    have "Send_done 0 k \<in> set (filter about_send (queue (tcpc c')))" using that by (simp del: set_filter)
    then show ?thesis by simp
  qed
  ultimately show ?thesis using k(2) True by (auto simp: underway_def)
next
  case False
  with client_run_alert [OF assms(2) start_alert [OF assms(1)]] assms(3,4) show ?thesis
    by (cases "phase c'") (auto simp: alert_def)
qed

text \<open>
  C22: The close frame of the destructor is not sent: it is queued together with the wish to end, so
  the task that waits for the event ends first, drops the queue and disconnects. The peer of an
  open connection sees it go without a close frame.
\<close>

theorem going_away_not_sent:
  assumes "client_start c" "con_state (wsock c) = Open" "websocket_dtor env (m_is_connected (tcpc c)) (wsock c) = Ret s"
    "task_end lib (task_wake (c\<lparr>wsock := s\<rparr>)) = c'"
  shows "client_run lib env ok c c' \<and> frames_of (events (wsock c')) = [(0x88, close_payload 1002 (bytes_of_string ''Going away''))] \<and>
    send_queue (wsock c') = [] \<and> phase c' = Ended \<and> wire (tcpc c') = wire (tcpc c)"
proof -
  let ?t = "enqueue_frame env (op_or op_fin op_close) (close_payload 1002 (bytes_of_string ''Going away'')) Keep_state
    (state_transition Client_close (wsock c))"
  let ?d = "c\<lparr>wsock := s\<rparr>" and ?w = "task_wake (c\<lparr>wsock := s\<rparr>)"
  have st: "phase c = Waiting" "send_queue (wsock c) = []" "frames_of (events (wsock c)) = []" "m_is_connected (tcpc c)" "idle (tcpc c)"
    using assms(1) by (simp_all add: client_start_def)
  have s: "s = ?t\<lparr>send_should_exit := True, send_event := True\<rparr>"
    using assms(2,3) st(4) by (simp add: websocket_dtor_def close_impl_def send_close_frame)
  have "client_step lib env ok c ?d" by (rule client_step.user, rule user_step.destroys, rule assms(3))
  moreover have "client_step lib env ok ?d ?w" by (rule client_step.wake) (simp_all add: st s)
  moreover have "client_step lib env ok ?w c'"
    unfolding assms(4) [symmetric] by (rule client_step.ends) (simp add: task_wake_def s)
  ultimately have r: "client_run lib env ok c c'" by (meson r_into_rtranclp rtranclp_trans)
  have op: "op_or op_fin op_close = 0x88" by (simp add: op_or_def opcode_defs)
  have q: "phase ?w = Draining" "transmits False False (wire (tcpc c)) [] [] c" "tcpc ?w = tcpc c"
    using start_transmits [OF assms(1)] by (simp_all add: task_wake_def s)
  have "frames_of (events (wsock c')) = frames_of (events s)" "send_queue (wsock c') = []" "phase c' = Ended"
    unfolding assms(4) [symmetric] by (simp_all add: task_end_def task_wake_def drain_queue_def drained drained_events)
  moreover have "frames_of (events s) = [(0x88, close_payload 1002 (bytes_of_string ''Going away''))]"
    by (simp add: s enqueue_frame_def st op)
  moreover have "wire (tcpc c') = wire (tcpc c)"
    unfolding assms(4) [symmetric]
    by (auto simp: task_end_def q(3) tcp_disconnect_def Let_def split: prod.splits option.splits)
  ultimately show ?thesis using r by simp
qed

text \<open>
  C8: The composition keeps the protocol of the closing handshake. A client that is not open yet, or just
  is, has first a part (\<open>pre\<close>) in which the user's data is refused and close frames of \<open>close\<close> and of the
  destructor are queued all the same; from there on (\<open>later\<close>), whatever the user, the tasks, the executor and
  the socket do, one operation after the other, the connection makes steps of the connection machine. In all
  of it \<open>on_close\<close> is called or waiting at most once, and nothing is delivered after it; once it is open at
  most one close frame is queued, and no frame after it but pongs.
\<close>

theorem client_keeps_protocol:
  assumes "before_open c \<or> fresh (wsock c)" "(client_step lib env ok)\<^sup>*\<^sup>* c c'"
  shows "\<exists>pre later q. events (wsock c') = pre @ later \<and> list_all early_event pre \<and>
    (con_state (wsock c') \<in> {Init, Connect, Handshake} \<and> later = [] \<or>
     list_all (\<lambda>cb. cb = Keep_state) q \<and> conn_step\<^sup>*\<^sup>* (Open, [], q) (con_state (wsock c'), later, map snd (send_queue (wsock c')))) \<and>
    length (filter is_on_close (events (wsock c'))) + length (filter (\<lambda>(_, cb). reports cb) (send_queue (wsock c'))) \<le> 1 \<and>
    never_after is_on_close incoming (events (wsock c')) \<and>
    length (filter is_close_frame later) \<le> 1 \<and> never_after is_close_frame is_other_frame later \<and>
    (fresh (wsock c) \<longrightarrow> pre = [] \<and> q = [] \<and> con_state (wsock c') \<in> {Open, Client_close, Closed})"
proof -
  have fine: "?thesis" if "opened pre q (wsock c')" "fresh (wsock c) \<longrightarrow> pre = [] \<and> q = []" for pre q
  proof -
    from that(1) obtain later where l: "events (wsock c') = pre @ later" "list_all early_event pre" "list_all (\<lambda>cb. cb = Keep_state) q"
      "conn_run (Open, [], q) (con_state (wsock c'), later, map snd (send_queue (wsock c')))" by (auto simp: opened_def)
    from l(3) have "filter reports q = []" by (auto simp: filter_empty_conv list_all_iff)
    with conn_invariant_from [OF l(4)] conn_start [of q] have
      "one_report (con_state (wsock c'), later, map snd (send_queue (wsock c'))) \<and>
       one_close_frame (con_state (wsock c'), later, map snd (send_queue (wsock c'))) \<and>
       quiet_end (con_state (wsock c'), later, map snd (send_queue (wsock c')))" by blast
    then have "length (filter is_on_close later) + length (filter (\<lambda>(_, cb). reports cb) (send_queue (wsock c'))) \<le> 1"
      "length (filter is_close_frame later) \<le> 1" "never_after is_close_frame is_other_frame later" "never_after is_on_close incoming later"
      by (auto simp: one_report_def one_close_frame_def quiet_end_def close_reports_def filter_map comp_def case_prod_unfold split: if_splits)
    with l that(2) early_quiet [OF l(2)] opened_live [OF that(1), unfolded live_def] show ?thesis by (intro exI [of _ pre] exI [of _ later] exI [of _ q]) simp
  qed
  from assms(1) show ?thesis
  proof (cases "fresh (wsock c)")
    case True
    then have "opened [] [] (wsock c)" by (simp add: opened_def fresh_def)
    with opened_step [OF assms(2)] fine show ?thesis by blast
  next
    case no: False
    with assms before_run [OF assms(2)] consider "before_open c'" | pre q where "opened pre q (wsock c')" by blast
    then show ?thesis
    proof cases
      case 1
      then have e: "con_state (wsock c') \<in> {Init, Connect, Handshake}" "list_all early_event (events (wsock c'))"
        "list_all (\<lambda>(_, cb). cb = Keep_state) (send_queue (wsock c'))" by (simp_all add: before_open_def early_def)
      from e(3) have "filter (\<lambda>(_, cb). reports cb) (send_queue (wsock c')) = []" by (auto simp: filter_empty_conv list_all_iff)
      with e(1,2) early_quiet [OF e(2)] no show ?thesis
        by (intro exI [of _ "events (wsock c')"] exI [of _ "[]"] exI [of _ "[]"]) simp
    next
      case 2
      with fine no show ?thesis by blast
    qed
  qed
qed

text \<open>The user closes in the handshake, or in \<open>on_open\<close>: the frames sent once the connection is open follow the close frame.\<close>

theorem data_after_early_close:
  assumes "con_state s = Handshake" "fst (validate (utf8_mode s) reason) = Valid"
  shows "\<exists>t u. ws_close env code reason s = Ret t \<and> con_state t = Handshake \<and>
    frames_of (events t) = frames_of (events s) @ [(0x88, close_payload code reason)] \<and>
    ws_send_ping env data cb (state_transition Open t) = Ret u \<and> frames_of (events u) = frames_of (events t) @ [(0x89, data)] \<and>
    \<not> never_after is_close_frame is_other_frame (events u)"
  using assms by (auto simp: ws_close_def close_impl_def send_close_frame ws_send_ping_def ws_send_frame_def send_frame_def enqueue_frame_def
      emit_def op_or_def opcode_defs clean_op_def Let_def)

subsection \<open>Two operations at once\<close>

text \<open>
  \<open>websocket::send_frame\<close> looks at the state and queues the frame without the mutex. \<open>late_send\<close> is a call
  that has looked at the state \<open>seen\<close> and goes on in the state \<open>s\<close>; the steps of a client take the case
  that nothing has happened in between.
\<close>

definition late_send :: "'z env \<Rightarrow> opcode \<Rightarrow> bytes \<Rightarrow> send_cb \<Rightarrow> 'z ws \<Rightarrow> 'z ws \<Rightarrow> 'z ws outcome" where
  "late_send env op data cb seen s = (if con_state seen \<noteq> Open then Ret (run_cb cb False s) else send_frame env op data cb s)"

lemma send_undisturbed: "ws_send_frame env op data cb s = late_send env op data cb s s"
  by (simp add: ws_send_frame_def late_send_def)

text \<open>
  A close in between: the frame is queued after the close frame, where a send that looks later is refused.
\<close>

theorem send_overtaken_by_close:
  assumes "con_state s = Open" "\<not> pmce_enabled s" "clean_op op \<notin> {op_close, op_pong}" "ws_close env code reason s = Ret s1"
    "fst (validate (utf8_mode s) reason) = Valid"
  shows "con_state s1 = Client_close \<and> ws_send_frame env op data cb s1 = Ret (run_cb cb False s1) \<and>
    (\<exists>s2. late_send env op data cb s s1 = Ret s2 \<and>
      frames_of (events s2) = frames_of (events s) @ [(0x88, close_payload code reason), (op, data)] \<and>
      \<not> never_after is_close_frame is_other_frame (events s2))"
  using assms by (auto simp: ws_close_def close_impl_def send_close_frame ws_send_frame_def late_send_def send_frame_def enqueue_frame_def
      emit_def Let_def)
    (simp_all add: op_or_def opcode_defs clean_op_def state_transition_def)

subsection \<open>An example\<close>

text \<open>A ping of one octet is sent in two pieces.\<close>

definition client0 :: "unit wsc" where
  "client0 = \<lparr>wsock = fresh_example, tcpc = tcp_example, phase = Waiting\<rparr>"

definition pinged :: "unit ws" where
  "pinged = enqueue_frame plain_env (op_or op_fin op_ping) [1] (User_cb 3) fresh_example"

definition client1 :: "unit wsc" where "client1 = task_pop obliging (Some 4) (task_wake (client0\<lparr>wsock := pinged\<rparr>))"
definition client2 :: "unit wsc" where "client2 = client1\<lparr>tcpc := snd (on_writable (Inr (Some 3)) (tcpc client1))\<rparr>"
definition client3 :: "unit wsc" where "client3 = run_entry (Send_done 0 7) (client2\<lparr>tcpc := (tcpc client2)\<lparr>queue := []\<rparr>\<rparr>)"

definition client_early :: "unit wsc" where
  "client_early = client0\<lparr>wsock := (initial_state ())\<lparr>con_state := Handshake\<rparr>\<rparr>"

lemma client0_start: "client_start client0"
  by (simp add: client_start_def client0_def fresh_example_def initial_state_def tcp_example_def tcp_ctor_def idle_def)

lemma pinged_sel: "send_queue pinged = [([0x89, 0x81, 7, 7, 7, 7, 6], User_cb 3)]" "send_event pinged" "\<not> send_should_exit pinged"
  "events pinged = [Queued 0x89 [1]]"
  by (simp_all add: pinged_def enqueue_frame_def emit_def fresh_example_def initial_state_def encode_frame_def length_octets_def
      apply_mask_def random_key_def plain_env_def op_or_def opcode_defs Let_def upt_rec)

lemma client1_sel: "phase client1 = Sending" "m_send_handler (tcpc client1) = Some (Send_all 0 [0x89, 0x81, 7, 7, 7, 7, 6] 4)"
  "wire (tcpc client1) = [0x89, 0x81, 7, 7]" "queue (tcpc client1) = []"
  "send_queue (wsock client1) = [([0x89, 0x81, 7, 7, 7, 7, 6], User_cb 3)]" "events (wsock client1) = [Queued 0x89 [1]]"
  by (simp_all add: client1_def task_pop_def task_wake_def pinged_sel client0_def tcp_send_all_def tcp_example_def tcp_ctor_def Let_def)

lemma client2_sel: "phase client2 = Sending" "m_send_handler (tcpc client2) = None" "wire (tcpc client2) = [0x89, 0x81, 7, 7, 7, 7, 6]"
  "queue (tcpc client2) = [Send_done 0 7]" "wsock client2 = wsock client1"
  by (simp_all add: client2_def client1_sel on_writable_def Let_def)

lemma client3_sel: "phase client3 = Popping" "wire (tcpc client3) = [0x89, 0x81, 7, 7, 7, 7, 6]" "send_queue (wsock client3) = []"
  "events (wsock client3) = [Queued 0x89 [1], Sent 3 True]"
  by (simp_all add: client3_def run_entry_def client2_sel client1_sel task_resume_def send_step_def run_cb_def emit_def)

lemma client_example_steps:
  "client_step obliging plain_env steady client0 (client0\<lparr>wsock := pinged\<rparr>)"
  "client_step obliging plain_env steady (client0\<lparr>wsock := pinged\<rparr>) (task_wake (client0\<lparr>wsock := pinged\<rparr>))"
  "client_step obliging plain_env steady (task_wake (client0\<lparr>wsock := pinged\<rparr>)) client1"
  "client_step obliging plain_env steady client1 client2" "client_step obliging plain_env steady client2 client3"
proof -
  have "ws_send_ping plain_env [1] (User_cb 3) fresh_example = Ret pinged"
    by (simp add: ws_send_ping_def ws_send_frame_def send_frame_def fresh_example_def pinged_def clean_op_def op_or_def opcode_defs)
  then have "user_step plain_env (m_is_connected (tcpc client0)) (wsock client0) pinged"
    using user_step.calls [OF api_step.pings [of "User_cb 3" plain_env "[1]" fresh_example pinged]] by (simp add: client0_def)
  then show "client_step obliging plain_env steady client0 (client0\<lparr>wsock := pinged\<rparr>)" by (rule client_step.user)
  show "client_step obliging plain_env steady (client0\<lparr>wsock := pinged\<rparr>) (task_wake (client0\<lparr>wsock := pinged\<rparr>))"
    by (rule client_step.wake) (simp_all add: client0_def pinged_sel)
  show "client_step obliging plain_env steady (task_wake (client0\<lparr>wsock := pinged\<rparr>)) client1"
    unfolding client1_def by (rule client_step.pop) (simp_all add: task_wake_def pinged_sel steady_def)
  show "client_step obliging plain_env steady client1 client2"
    unfolding client2_def by (rule client_step.writable) (simp add: client1_sel steady_def)
  show "client_step obliging plain_env steady client2 client3"
    unfolding client3_def by (rule client_step.entry) (simp add: client2_sel)
qed

lemma client_example_runs:
  "client_run obliging plain_env steady client0 client1" "client_run obliging plain_env steady client0 client3"
  using client_example_steps by (meson r_into_rtranclp rtranclp_trans)+

lemma client_example_history:
  "client_history obliging plain_env steady client0 [([0x89, 0x81, 7, 7, 7, 7, 6], User_cb 3)] client3"
proof -
  note s = client_example_steps
  have a: "added client0 (client0\<lparr>wsock := pinged\<rparr>) = [([0x89, 0x81, 7, 7, 7, 7, 6], User_cb 3)]"
    "added (client0\<lparr>wsock := pinged\<rparr>) (task_wake (client0\<lparr>wsock := pinged\<rparr>)) = []"
    "added (task_wake (client0\<lparr>wsock := pinged\<rparr>)) client1 = []" "added client1 client2 = []" "added client2 client3 = []"
    by (simp_all add: added_def pinged_sel client0_def fresh_example_def initial_state_def task_wake_def client1_sel client2_sel client3_sel)
  note m = client_history.more
  from m [OF m [OF m [OF m [OF m [OF client_history.start s(1)] s(2)] s(3)] s(4)] s(5)] show ?thesis by (simp add: a)
qed

theorem wire_carries_frames_witness:
  "client_history obliging plain_env steady client0 [([0x89, 0x81, 7, 7, 7, 7, 6], User_cb 3)] client3 \<and>
   (\<exists>ns. wire (tcpc client3) = concat (map2 (\<lambda>(data, cb) n. take n data) [([0x89, 0x81, 7, 7, 7, 7, 6], User_cb 3)] ns) \<and>
     told_sent (events (wsock client3)) = concat (map2 (\<lambda>(data :: bytes, cb) n. case cb of User_cb i \<Rightarrow> if n = length data then [i] else [] | _ \<Rightarrow> [])
       [([0x89, 0x81, 7, 7, 7, 7, 6], User_cb 3)] ns)) \<and>
   told_sent (events (wsock client3)) = [3]"
proof -
  have "\<forall>r d. steady r d \<longrightarrow> within r d" by (simp add: steady_def within_def split: option.splits)
  from wire_carries_frames [OF client0_start client_example_history this] have
    "\<exists>ns k. wire (tcpc client3) = wire (tcpc client0) @ concat (map2 (\<lambda>(data, cb) n. take n data) [([0x89, 0x81, 7, 7, 7, 7, 6], User_cb 3)] ns) @
      (if phase client3 = Sending then take k (fst (hd (send_queue (wsock client3)))) else []) \<and>
     told_sent (events (wsock client3)) = concat (map2 (\<lambda>(data :: bytes, cb) n. case cb of User_cb i \<Rightarrow> if n = length data then [i] else [] | _ \<Rightarrow> [])
       [([0x89, 0x81, 7, 7, 7, 7, 6], User_cb 3)] ns)"
    by blast
  moreover have "phase client3 \<noteq> Sending" "wire (tcpc client0) = []" by (simp_all add: client3_sel(1) client0_def tcp_example_def tcp_ctor_def)
  ultimately have "\<exists>ns. wire (tcpc client3) = concat (map2 (\<lambda>(data, cb) n. take n data) [([0x89, 0x81, 7, 7, 7, 7, 6], User_cb 3)] ns) \<and>
     told_sent (events (wsock client3)) = concat (map2 (\<lambda>(data :: bytes, cb) n. case cb of User_cb i \<Rightarrow> if n = length data then [i] else [] | _ \<Rightarrow> [])
       [([0x89, 0x81, 7, 7, 7, 7, 6], User_cb 3)] ns)" by (simp only: if_False append_Nil append_Nil2 simp_thms)
  with client_example_history show ?thesis by (simp add: client3_sel)
qed

theorem server_reads_frames_witness:
  "rfc_reads (wire (tcpc client3)) (map rfc_of [(0x89, [1])]) \<and> phase client3 = Popping"
proof -
  have "list_all (\<lambda>(op, p). length p < 2 ^ 63) (frames_of (events (wsock client3)))" "phase client3 \<in> {Popping, Waiting}"
    by (simp_all add: client3_sel)
  from server_reads_frames [OF client0_start client_example_runs(2) this(2) client3_sel(3) this(1)]
  show ?thesis by (auto simp: client3_sel client0_def tcp_example_def tcp_ctor_def)
qed

theorem sending_task_attends_witness:
  "phase client1 = Sending \<and> (\<exists>k. m_send_handler (tcpc client1) = Some (Send_all 0 [0x89, 0x81, 7, 7, 7, 7, 6] k))"
proof -
  have "send_queue (wsock client1) \<noteq> [] \<or> send_should_exit (wsock client1)" "phase client1 \<noteq> Ended" by (simp_all add: client1_sel)
  from sending_task_attends [OF client0_start client_example_runs(1) this] show ?thesis by (auto simp: client1_sel)
qed

theorem going_away_not_sent_witness:
  "\<exists>s c'. websocket_dtor plain_env True fresh_example = Ret s \<and> client_run obliging plain_env steady client0 c' \<and> phase c' = Ended \<and>
    frames_of (events (wsock c')) = [(0x88, close_payload 1002 (bytes_of_string ''Going away''))] \<and> wire (tcpc c') = []"
proof -
  have o: "con_state (wsock client0) = Open" by (simp add: client0_def fresh_example_def)
  have c: "m_is_connected (tcpc client0)" "wsock client0 = fresh_example" "wire (tcpc client0) = []"
    by (simp_all add: client0_def tcp_example_def tcp_ctor_def)
  obtain s where s: "websocket_dtor plain_env (m_is_connected (tcpc client0)) (wsock client0) = Ret s"
    using o c(1) by (simp add: websocket_dtor_def close_impl_def send_close_frame)
  from going_away_not_sent [OF client0_start o s refl, of obliging steady] s c show ?thesis by auto
qed

theorem client_keeps_protocol_witness:
  "conn_step\<^sup>*\<^sup>* (Open, [], []) (conn_of (wsock client3)) \<and> events (wsock client3) = [Queued 0x89 [1], Sent 3 True] \<and>
   (\<exists>c'. client_run obliging plain_env steady client_early c' \<and> frames_of (events (wsock c')) = [(0x88, close_payload 1000 [])] \<and>
     never_after is_on_close incoming (events (wsock c')))"
proof -
  have f: "fresh (wsock client0)" by (simp add: fresh_def client0_def fresh_example_def initial_state_def)
  from client_keeps_protocol [OF disjI2 [OF f] client_example_runs(2)] f obtain later where
    "events (wsock client3) = later" "con_state (wsock client3) \<in> {Init, Connect, Handshake} \<and> later = [] \<or>
      conn_step\<^sup>*\<^sup>* (Open, [], []) (con_state (wsock client3), later, map snd (send_queue (wsock client3)))" by auto
  then have o: "conn_step\<^sup>*\<^sup>* (Open, [], []) (conn_of (wsock client3))" by (auto simp: client3_sel conn_of_def)
  have w: "wsock client_early = (initial_state ())\<lparr>con_state := Handshake\<rparr>" by (simp add: client_early_def)
  from data_after_early_close [of "wsock client_early" "[]" plain_env 1000 "[]" No_cb] obtain t where
    t: "ws_close plain_env 1000 [] (wsock client_early) = Ret t" "con_state t = Handshake" "frames_of (events t) = [(0x88, close_payload 1000 [])]"
    by (auto simp: w initial_state_def example_validate)
  let ?c = "client_early\<lparr>wsock := t\<rparr>"
  have "client_step obliging plain_env steady client_early ?c" by (rule client_step.user, rule user_step.calls, rule api_step.closes, rule t(1))
  then have r: "client_run obliging plain_env steady client_early ?c" by simp
  have b: "before_open client_early"
    by (simp add: before_open_def early_def dataless_def client_early_def client0_def tcp_example_def tcp_ctor_def initial_state_def)
  from client_keeps_protocol [OF disjI1 [OF b] r] t(2,3) have "client_run obliging plain_env steady client_early ?c \<and>
    frames_of (events (wsock ?c)) = [(0x88, close_payload 1000 [])] \<and> never_after is_on_close incoming (events (wsock ?c))" using r by auto
  then show ?thesis using o client3_sel(4) by blast
qed

end
