(* ===== verification/Ws_Lifetime.thy ===== *)
theory Ws_Lifetime
  imports Ws_Client
begin

text \<open>
  Who keeps a \<open>websocket_state\<close> alive. It counts its references: the \<open>websocket\<close> has one, each of the
  tasks of the handshake, of sending and of the destructor has one as its parameter, and so has
  each lambda that travels with a pong or a close frame through the send queue of the state itself.
  The handler for data has a plain pointer to the state.

  \<open>inner\<close> is the state and its \<open>tcp_client\<close>; \<open>deletions\<close> counts how often the state was deleted;
  \<open>connected_with\<close> has the codes that the callback of \<open>connect\<close> got, once \<open>connect\<close> was called (a second
  call is not modelled). Before \<open>send_task\<close> is started its phase is \<open>Ended\<close>. As documented for
  asyncpp, a \<open>ref\<close> adds one when it is made or copied and takes one off when it goes, and the join of
  the scope waits for the tasks started in it. A reference that is made and goes within a step cancels
  out, except where the code keeps it for the length of the step.
\<close>

record 'z life =
  inner :: "'z wsc"
  m_refcount :: nat
  by_user :: bool
  by_destructor :: bool
  by_handshake :: bool
  by_sender :: bool
  connected_with :: "int list option"
  deletions :: nat

definition refcounted_add_ref :: "'z life \<Rightarrow> 'z life" where
  "refcounted_add_ref l = l\<lparr>m_refcount := m_refcount l + 1\<rparr>"

text \<open>Deleting the state destroys its \<open>tcp_client\<close>.\<close>

definition refcounted_remove_ref :: "'z life \<Rightarrow> 'z life" where
  "refcounted_remove_ref l =
     (let cnt = m_refcount l; l = l\<lparr>m_refcount := cnt - 1\<rparr> in
      if cnt = 1 then l\<lparr>inner := (inner l)\<lparr>tcpc := tcp_dtor (tcpc (inner l))\<rparr>, deletions := deletions l + 1\<rparr> else l)"

text \<open>The lambdas of the queue that hold a reference, and their number.\<close>

fun keeps_state :: "send_cb \<Rightarrow> bool" where
  "keeps_state Keep_state = True"
| "keeps_state (Report_close _ _ _) = True"
| "keeps_state _ = False"

definition queue_refs :: "(bytes \<times> send_cb) list \<Rightarrow> nat" where
  "queue_refs q = length (filter (keeps_state \<circ> snd) q)"

text \<open>An operation has queued frames; their lambdas have taken references.\<close>

definition adopt :: "'z wsc \<Rightarrow> 'z life \<Rightarrow> 'z life" where
  "adopt c l =
     ((refcounted_add_ref ^^ queue_refs (drop (length (send_queue (wsock (inner l)))) (send_queue (wsock c)))) l)\<lparr>inner := c\<rparr>"

text \<open>Lambdas have been called and are gone.\<close>

definition shed :: "(bytes \<times> send_cb) list \<Rightarrow> 'z life \<Rightarrow> 'z life" where
  "shed q l = (refcounted_remove_ref ^^ queue_refs q) l"

subsection \<open>The user's side\<close>

definition on_connect :: "int \<Rightarrow> 'z life \<Rightarrow> 'z life" where
  "on_connect code l =
     (case raw_on_connect code (wsock (inner l)) of (starts, s) \<Rightarrow>
        let l = (refcounted_add_ref l)\<lparr>inner := (inner l)\<lparr>wsock := s\<rparr>\<rparr>;
            l = (if starts then
                   (refcounted_add_ref (refcounted_add_ref l))\<lparr>inner := (inner l)\<lparr>phase := Popping\<rparr>, by_handshake := True, by_sender := True\<rparr>
                 else l)
        in refcounted_remove_ref l)"

text \<open>One reference is local to \<open>connect\<close>, one is captured by the callback for \<open>tcp_client::connect\<close>.\<close>

definition websocket_connect :: "lib \<Rightarrow> uri \<Rightarrow> 'z life \<Rightarrow> 'z life" where
  "websocket_connect lib url l =
     (case ws_connect url (wsock (inner l)) of (s, remote, port, ssl) \<Rightarrow>
      case tcp_connect lib remote port ssl (tcpc (inner l)) of (codes, _, t) \<Rightarrow>
        let l = (refcounted_add_ref (refcounted_add_ref l))\<lparr>inner := (inner l)\<lparr>wsock := s, tcpc := t\<rparr>, connected_with := Some codes\<rparr>;
            l = (case codes of [] \<Rightarrow> l | code # _ \<Rightarrow> on_connect code l)
        in refcounted_remove_ref (refcounted_remove_ref l))"

text \<open>The task of the destructor, up to the join; then \<open>m_state\<close> goes.\<close>

definition websocket_destroy :: "'z ws \<Rightarrow> 'z life \<Rightarrow> 'z life" where
  "websocket_destroy s l =
     refcounted_remove_ref ((adopt ((inner l)\<lparr>wsock := s\<rparr>) (refcounted_add_ref l))\<lparr>by_user := False, by_destructor := True\<rparr>)"

subsection \<open>The tasks\<close>

definition sender_done :: "'z life \<Rightarrow> 'z life" where
  "sender_done l = refcounted_remove_ref (l\<lparr>by_sender := False\<rparr>)"

definition sender_drains :: "lib \<Rightarrow> 'z life \<Rightarrow> 'z life" where
  "sender_drains lib l =
     (let c = inner l; l = shed (send_queue (wsock c)) (l\<lparr>inner := task_end lib c\<rparr>)
      in if m_is_connected (tcpc c) then l else sender_done l)"

definition handshake_done :: "'z wsc \<Rightarrow> 'z life \<Rightarrow> 'z life" where
  "handshake_done c l = refcounted_remove_ref ((adopt c l)\<lparr>by_handshake := False\<rparr>)"

text \<open>An entry of the executor's queue; callback 1 is that of the sending task's \<open>disconnect\<close>.\<close>

definition life_entry :: "task \<Rightarrow> 'z life \<Rightarrow> 'z life" where
  "life_entry t l =
     (let c = inner l; l = l\<lparr>inner := run_entry t c\<rparr> in
      case t of
        Send_done cb n \<Rightarrow> if cb = 0 \<and> phase c = Sending then shed (take 1 (send_queue (wsock c))) l else l
      | Disconnected r w d \<Rightarrow> if d = Some 1 then sender_done l else l
      | _ \<Rightarrow> l)"

text \<open>
  What can happen. A handshake that succeeds reads from the socket, which libcurl refuses once
  \<open>disconnect\<close> has reset the handle; that exception, and one of \<open>disconnect\<close> itself, would end the program.
  Deleting the state takes the handle out of the executor, whose queue stays.
\<close>

inductive life_step :: "lib \<Rightarrow> 'z env \<Rightarrow> (nat option \<Rightarrow> bytes \<Rightarrow> bool) \<Rightarrow> 'z life \<Rightarrow> 'z life \<Rightarrow> bool" for lib env ok where
  api: "by_user l \<Longrightarrow> api_step env (wsock (inner l)) s \<Longrightarrow> life_step lib env ok l (adopt ((inner l)\<lparr>wsock := s\<rparr>) l)"
| connect: "by_user l \<Longrightarrow> connected_with l = None \<Longrightarrow> life_step lib env ok l (websocket_connect lib url l)"
| destroy: "by_user l \<Longrightarrow> websocket_dtor env (m_is_connected (tcpc (inner l))) (wsock (inner l)) = Ret s \<Longrightarrow>
    life_step lib env ok l (websocket_destroy s l)"
| joined: "by_destructor l \<Longrightarrow> \<not> by_handshake l \<Longrightarrow> \<not> by_sender l \<Longrightarrow>
    life_step lib env ok l (refcounted_remove_ref (l\<lparr>by_destructor := False\<rparr>))"
| handshake: "by_handshake l \<Longrightarrow> client_handshake lib env net (inner l) = Ret c \<Longrightarrow>
    fst (handshake_body net (wsock (inner l))) = None \<Longrightarrow> m_is_connected (tcpc (inner l)) \<Longrightarrow> life_step lib env ok l (handshake_done c l)"
| handshake_fails: "by_handshake l \<Longrightarrow> client_handshake lib env net (inner l) = Ret c \<Longrightarrow>
    fst (handshake_body net (wsock (inner l))) \<noteq> None \<Longrightarrow> life_step lib env ok l (handshake_done c l)"
| pop: "phase (inner l) = Popping \<Longrightarrow> ok res (fst (hd (send_queue (wsock (inner l))))) \<Longrightarrow>
    life_step lib env ok l (l\<lparr>inner := task_pop lib res (inner l)\<rparr>)"
| wake: "phase (inner l) = Waiting \<Longrightarrow> send_event (wsock (inner l)) \<Longrightarrow> life_step lib env ok l (l\<lparr>inner := task_wake (inner l)\<rparr>)"
| drains: "phase (inner l) = Draining \<Longrightarrow> (m_is_connected (tcpc (inner l)) \<longrightarrow> fst (tcp_disconnect lib (Some 1) (tcpc (inner l))) = None) \<Longrightarrow>
    life_step lib env ok l (sender_drains lib l)"
| entry: "queue (tcpc (inner l)) = t # post \<Longrightarrow>
    life_step lib env ok l (life_entry t (l\<lparr>inner := (inner l)\<lparr>tcpc := (tcpc (inner l))\<lparr>queue := post\<rparr>\<rparr>\<rparr>))"
| writable: "deletions l = 0 \<Longrightarrow> life_step lib env ok l (l\<lparr>inner := (inner l)\<lparr>tcpc := snd (on_writable (Inr res) (tcpc (inner l)))\<rparr>\<rparr>)"
| readable: "deletions l = 0 \<Longrightarrow> m_recv_handler (tcpc (inner l)) = Some (On_data cb) \<Longrightarrow> data_ready env r (inner l) = Ret c \<Longrightarrow>
    life_step lib env ok l (adopt c l)"
| paused: "deletions l = 0 \<Longrightarrow>
    life_step lib env ok l (l\<lparr>inner := (inner l)\<lparr>tcpc := (tcpc (inner l))\<lparr>m_handle := pause lib d (m_handle (tcpc (inner l)))\<rparr>\<rparr>\<rparr>)"

text \<open>A new \<open>websocket\<close>: \<open>make_ref\<close> has made the first reference.\<close>

definition life_start :: "'z ws \<Rightarrow> handle \<Rightarrow> 'z life" where
  "life_start s h =
     \<lparr>inner = \<lparr>wsock = s, tcpc = tcp_ctor h, phase = Ended\<rparr>, m_refcount = 1, by_user = True, by_destructor = False,
      by_handshake = False, by_sender = False, connected_with = None, deletions = 0\<rparr>"

subsection \<open>Counting\<close>

definition holders :: "'z life \<Rightarrow> nat" where
  "holders l = of_bool (by_user l) + of_bool (by_destructor l) + of_bool (by_handshake l) + of_bool (by_sender l) +
     queue_refs (send_queue (wsock (inner l)))"

definition counted :: "'z life \<Rightarrow> bool" where
  "counted l \<longleftrightarrow> m_refcount l = holders l \<and> deletions l = of_bool (m_refcount l = 0)"

text \<open>Entries of the executor's queue that call the handler for data, or end the sending task.\<close>

fun data_entry :: "task \<Rightarrow> bool" where
  "data_entry (Disconnected (Some (On_data _)) _ _) = True"
| "data_entry (Cancel_recv (On_data _)) = True"
| "data_entry (Cancel_user _) = True"
| "data_entry _ = False"

fun end_entry :: "task \<Rightarrow> bool" where
  "end_entry (Disconnected _ _ d) = (d = Some 1)"
| "end_entry _ = False"

definition listens :: "tcp \<Rightarrow> bool" where
  "listens t \<longleftrightarrow> (\<exists>cb. m_recv_handler t = Some (On_data cb))"

abbreviation last_entries :: "tcp \<Rightarrow> task list" where
  "last_entries t \<equiv> filter (\<lambda>t. data_entry t \<or> end_entry t) (queue t)"

definition tracked :: "'z life \<Rightarrow> bool" where
  "tracked l \<longleftrightarrow> (let c = inner l; t = tcpc c in
     (m_is_connected t \<longrightarrow> by_sender l \<and> phase c \<noteq> Ended) \<and> (listens t \<longrightarrow> m_is_connected t) \<and> (phase c \<noteq> Ended \<longrightarrow> by_sender l) \<and>
     (\<not> by_sender l \<or> phase c \<noteq> Ended \<longrightarrow> last_entries t = []) \<and>
     (by_sender l \<and> phase c = Ended \<longrightarrow> (\<exists>e. last_entries t = [e] \<and> end_entry e)) \<and>
     (by_sender l \<or> by_handshake l \<longrightarrow> connected_with l = Some [0]) \<and> (by_user l \<longrightarrow> \<not> by_destructor l) \<and>
     (send_should_exit (wsock c) \<longrightarrow> \<not> by_user l) \<and> (phase c = Draining \<longrightarrow> send_should_exit (wsock c)) \<and>
     (connected_with l = Some [0] \<and> phase c = Ended \<longrightarrow> send_queue (wsock c) = [] \<and> \<not> by_user l))"

lemma add_refs: "(refcounted_add_ref ^^ n) l = l\<lparr>m_refcount := m_refcount l + n\<rparr>"
  by (induction n) (simp_all add: refcounted_add_ref_def)

lemma remove_refs: "n < m_refcount l \<Longrightarrow> (refcounted_remove_ref ^^ n) l = l\<lparr>m_refcount := m_refcount l - n\<rparr>"
  by (induction n) (simp_all add: refcounted_remove_ref_def Let_def)

lemma adopt_eq: "adopt c l = l\<lparr>m_refcount := m_refcount l + queue_refs (drop (length (send_queue (wsock (inner l)))) (send_queue (wsock c))),
    inner := c\<rparr>"
  by (simp add: adopt_def add_refs)

lemma queue_refs_simps [simp]: "queue_refs [] = 0" "queue_refs (x # q) = of_bool (keeps_state (snd x)) + queue_refs q"
  "queue_refs (q @ q') = queue_refs q + queue_refs q'"
  by (simp_all add: queue_refs_def)

lemma counted_adopt:
  assumes "counted l" "0 < holders l" "send_queue (wsock c) = send_queue (wsock (inner l)) @ q"
  shows "counted (adopt c l)" "m_refcount (adopt c l) = holders (adopt c l)" "0 < holders (adopt c l)" "deletions (adopt c l) = 0"
  using assms by (auto simp: counted_def adopt_eq holders_def)

lemma counted_same: "counted l \<Longrightarrow> send_queue (wsock c) = send_queue (wsock (inner l)) \<Longrightarrow> counted (l\<lparr>inner := c\<rparr>)"
  by (simp add: counted_def holders_def)

lemma tracked_facts:
  assumes "tracked l"
  shows "m_is_connected (tcpc (inner l)) \<Longrightarrow> by_sender l" "m_is_connected (tcpc (inner l)) \<Longrightarrow> phase (inner l) \<noteq> Ended"
    "listens (tcpc (inner l)) \<Longrightarrow> m_is_connected (tcpc (inner l))" "phase (inner l) \<noteq> Ended \<Longrightarrow> by_sender l"
    "connected_with l \<noteq> Some [0] \<Longrightarrow> \<not> by_sender l \<and> \<not> by_handshake l" "by_sender l \<Longrightarrow> connected_with l = Some [0]"
    "by_user l \<Longrightarrow> \<not> by_destructor l \<and> \<not> send_should_exit (wsock (inner l))" "phase (inner l) = Draining \<Longrightarrow> send_should_exit (wsock (inner l))"
    "connected_with l = Some [0] \<Longrightarrow> phase (inner l) = Ended \<Longrightarrow> send_queue (wsock (inner l)) = [] \<and> \<not> by_user l"
    "\<not> by_sender l \<or> phase (inner l) \<noteq> Ended \<Longrightarrow> last_entries (tcpc (inner l)) = []"
    "by_sender l \<Longrightarrow> phase (inner l) = Ended \<Longrightarrow> \<exists>e. last_entries (tcpc (inner l)) = [e] \<and> end_entry e"
  using assms unfolding tracked_def Let_def by blast+

lemma tracked_flags:
  assumes "tracked l"
  shows "tracked (l\<lparr>by_destructor := False\<rparr>)" "tracked (l\<lparr>by_handshake := False\<rparr>)" "tracked (l\<lparr>by_user := False, by_destructor := True\<rparr>)"
  unfolding tracked_def Let_def by (simp; use tracked_facts [OF assms] in blast)+

lemma tracked_told:
  assumes "tracked l" "\<not> by_user l"
  shows "tracked (l\<lparr>inner := (inner l)\<lparr>wsock := told_to_end (wsock (inner l))\<rparr>\<rparr>)"
  unfolding tracked_def Let_def told_to_end_def using assms(2) by (simp; use tracked_facts [OF assms(1)] in blast)

lemma tracked_fields:
  assumes "tracked l" "inner l' = inner l" "by_user l' = by_user l" "by_destructor l' = by_destructor l" "by_handshake l' = by_handshake l"
    "by_sender l' = by_sender l" "connected_with l' = connected_with l"
  shows "tracked l'"
  using assms(1) unfolding tracked_def Let_def assms(2-7) .

lemma tracked_with:
  assumes "tracked l" "phase c = phase (inner l)" "m_is_connected (tcpc c) = m_is_connected (tcpc (inner l))"
    "listens (tcpc c) \<longrightarrow> m_is_connected (tcpc c)" "last_entries (tcpc c) = last_entries (tcpc (inner l))"
    "send_should_exit (wsock c) = send_should_exit (wsock (inner l))"
    "connected_with l = Some [0] \<and> phase c = Ended \<longrightarrow> send_queue (wsock c) = []"
  shows "tracked (l\<lparr>m_refcount := n, inner := c\<rparr>)" "tracked (l\<lparr>inner := c\<rparr>)"
  proof -
  have "tracked (l\<lparr>inner := c\<rparr>)"
    unfolding tracked_def Let_def
    by (simp add: assms(2,3,5,6)) (use assms(4) [unfolded assms(3)] assms(7) [unfolded assms(2)] tracked_facts [OF assms(1)] in blast)
  then show "tracked (l\<lparr>m_refcount := n, inner := c\<rparr>)" "tracked (l\<lparr>inner := c\<rparr>)" by (simp_all add: tracked_def)
qed

lemma dtor_entries:
  assumes "\<not> listens t"
  shows "last_entries (tcp_dtor t) = last_entries t" "m_is_connected (tcp_dtor t) = m_is_connected t" "\<not> listens (tcp_dtor t)"
proof -
  have "last_entries (push (Cancel_recv op) u) = last_entries u" if "m_recv_handler t = Some op" for op u
    using assms that by (cases op) (simp_all add: listens_def)
  then show "last_entries (tcp_dtor t) = last_entries t"
    by (simp add: tcp_dtor_def Let_def split: option.split)
qed (use assms in \<open>auto simp: tcp_dtor_def listens_def Let_def split: option.split\<close>)

lemma tracked_count [simp]: "tracked (l\<lparr>deletions := n\<rparr>) = tracked l" "tracked (l\<lparr>m_refcount := n\<rparr>) = tracked l"
  by (simp_all add: tracked_def)

text \<open>A holder has let go of its reference.\<close>

lemma released:
  assumes "m_refcount l = Suc (holders l)" "deletions l = 0" "tracked l"
  shows "counted (refcounted_remove_ref l)" "tracked (refcounted_remove_ref l)"
proof -
  let ?t = "tcpc (inner l)" and ?d = "\<lambda>l. (inner l)\<lparr>tcpc := tcp_dtor (tcpc (inner l))\<rparr>"
  have e: "refcounted_remove_ref l = (if holders l = 0 then l\<lparr>m_refcount := 0, inner := ?d l, deletions := 1\<rparr>
      else l\<lparr>m_refcount := holders l\<rparr>)"
    using assms(1,2) by (simp add: refcounted_remove_ref_def Let_def)
  show "counted (refcounted_remove_ref l)"
    unfolding e using assms(2) by (simp add: counted_def holders_def)
  have "tracked (l\<lparr>m_refcount := 0, inner := ?d l\<rparr>)" if "holders l = 0"
  proof -
    from that assms(3) have "\<not> listens ?t" by (auto simp: holders_def tracked_def Let_def)
    note d = dtor_entries [OF this]
    have "send_queue (wsock (inner l)) = []" if "connected_with l = Some [0]" "phase (inner l) = Ended"
      using assms(3) that by (simp add: tracked_def Let_def)
    with d show ?thesis by (intro tracked_with [OF assms(3)]) simp_all
  qed
  with assms(3) show "tracked (refcounted_remove_ref l)" unfolding e by (cases "holders l = 0") simp_all
qed

subsection \<open>Every step\<close>

lemma advances_new: "advances s s' \<Longrightarrow> send_should_exit s' = send_should_exit s \<and> (\<exists>q. send_queue s' = send_queue s @ q)"
  unfolding advances_def by blast

lemma connect_result:
  assumes "tcp_connect lib remote port ssl t = (codes, e, t')" "\<not> m_is_connected t"
  shows "(m_is_connected t' \<longleftrightarrow> codes = [0]) \<and> (codes = [] \<or> (\<exists>code. codes = [code])) \<and> m_recv_handler t' = m_recv_handler t \<and> queue t' = queue t"
  using assms by (auto simp: tcp_connect_def Let_def split: prod.splits option.splits if_splits)

lemma disconnect_result:
  assumes "tcp_disconnect lib d t = (None, t')"
  shows "\<not> m_is_connected t' \<and> m_recv_handler t' = None \<and> queue t' = queue t @ [Disconnected (m_recv_handler t) (m_send_handler t) d]"
  using assms by (auto simp: tcp_disconnect_def Let_def split: prod.splits option.splits)

lemma handshake_body_queue:
  assumes "handshake_body net s = (r, buf, t)"
  shows "send_queue t = send_queue s"
proof -
  have one: "accept_extension net e s = (r, t) \<Longrightarrow> send_queue t = send_queue s" for e s r t
    by (auto simp: accept_extension_def Let_def split: if_splits sum.splits option.splits prod.splits)
  have "accept_extensions net es s = (r, t) \<Longrightarrow> send_queue t = send_queue s" for es s r t
    by (induction es arbitrary: s) (auto split: prod.splits option.splits dest!: one)
  with assms show ?thesis by (auto simp: handshake_body_def Let_def split: option.splits prod.splits list.splits sum.splits if_splits)
qed

lemma disconnected_quiet:
  assumes "\<And>cb. r \<noteq> Some (On_data cb)"
  shows "m_is_connected (run_disconnected r w t) = m_is_connected t \<and> m_recv_handler (run_disconnected r w t) = m_recv_handler t \<and>
    last_entries (run_disconnected r w t) = last_entries t"
proof -
  have s: "m_is_connected (cancel_send op t) = m_is_connected t \<and> m_recv_handler (cancel_send op t) = m_recv_handler t \<and>
      last_entries (cancel_send op t) = last_entries t" for op t by (cases op) simp_all
  have "m_is_connected (cancel_recv op t) = m_is_connected t \<and> m_recv_handler (cancel_recv op t) = m_recv_handler t \<and>
      last_entries (cancel_recv op t) = last_entries t" if "r = Some op" for op using assms that by (cases op) auto
  with s show ?thesis by (simp add: run_disconnected_def Let_def split: option.split)
qed

lemma entry_quiet:
  "m_is_connected (tcpc (run_entry t c)) = m_is_connected (tcpc c) \<and> m_recv_handler (tcpc (run_entry t c)) = m_recv_handler (tcpc c) \<and>
    last_entries (tcpc (run_entry t c)) = last_entries (tcpc c)"
proof (cases t)
  case (Disconnected r w d)
  show ?thesis
  proof (cases "\<exists>cb. r = Some (On_data cb)")
    case True
    then show ?thesis using disconnected_quiet [of None w "tcpc c"] Disconnected by (auto simp: run_entry_def)
  next
    case False
    then have "run_entry t c = c\<lparr>tcpc := run_disconnected r w (tcpc c)\<rparr>"
      using Disconnected by (auto simp: run_entry_def split: option.splits recv_op.splits)
    with False show ?thesis using disconnected_quiet [of r w "tcpc c"] by simp
  qed
qed (simp_all add: run_entry_def task_resume_def)

lemma entry_wsock:
  "\<not> (\<exists>n. t = Send_done 0 n \<and> phase c = Sending) \<Longrightarrow> phase (run_entry t c) = phase c \<and>
    send_queue (wsock (run_entry t c)) = send_queue (wsock c) \<and> send_should_exit (wsock (run_entry t c)) = send_should_exit (wsock c)"
  by (auto simp: run_entry_def raw_on_disconnect_def emit_def state_transition_def Let_def split: task.splits option.splits recv_op.splits)

lemma resumed_wsock:
  "send_queue (wsock (task_resume n c)) = drop 1 (send_queue (wsock c)) \<and> send_should_exit (wsock (task_resume n c)) = send_should_exit (wsock c)"
  by (simp add: task_resume_def send_step_def run_cb_queue split: list.split)

definition sound :: "'z life \<Rightarrow> bool" where
  "sound l \<longleftrightarrow> counted l \<and> tracked l"

lemma sound_alive: "sound l \<Longrightarrow> 0 < holders l \<Longrightarrow> m_refcount l = holders l \<and> deletions l = 0 \<and> tracked l"
  by (simp add: sound_def counted_def)

lemma by_holders: "by_user l \<or> by_destructor l \<or> by_handshake l \<or> by_sender l \<Longrightarrow> 0 < holders l"
  by (auto simp: holders_def)

lemma released_sound:
  assumes "m_refcount l = Suc (holders l)" "deletions l = 0" "tracked l"
  shows "sound (refcounted_remove_ref l)"
  using released [OF assms] by (simp add: sound_def)

lemma adopt_sound:
  assumes "sound l" "0 < holders l" "advances (wsock (inner l)) (wsock c)" "phase c = phase (inner l)"
    "m_is_connected (tcpc c) = m_is_connected (tcpc (inner l))" "listens (tcpc c) \<longrightarrow> m_is_connected (tcpc c)"
    "last_entries (tcpc c) = last_entries (tcpc (inner l))"
    "connected_with l = Some [0] \<and> phase c = Ended \<longrightarrow> send_queue (wsock c) = []"
  shows "sound (adopt c l)" "m_refcount (adopt c l) = holders (adopt c l)" "deletions (adopt c l) = 0"
proof -
  obtain q where q: "send_queue (wsock c) = send_queue (wsock (inner l)) @ q" using advances_new [OF assms(3)] by blast
  have t: "tracked l" "counted l" using assms(1) by (simp_all add: sound_def)
  have "tracked (adopt c l)" unfolding adopt_eq
    using advances_new [OF assms(3)] assms(8) by (intro tracked_with [OF t(1) assms(4-7)]) simp_all
  with counted_adopt [OF t(2) assms(2) q] show "sound (adopt c l)" "m_refcount (adopt c l) = holders (adopt c l)" "deletions (adopt c l) = 0"
    by (simp_all add: sound_def)
qed

lemma api_sound:
  assumes "sound l" "by_user l" "advances (wsock (inner l)) s"
  shows "sound (adopt ((inner l)\<lparr>wsock := s\<rparr>) l)" "m_refcount (adopt ((inner l)\<lparr>wsock := s\<rparr>) l) = holders (adopt ((inner l)\<lparr>wsock := s\<rparr>) l)"
    "deletions (adopt ((inner l)\<lparr>wsock := s\<rparr>) l) = 0"
proof -
  have "tracked l" using assms(1) by (simp add: sound_def)
  note f = tracked_facts [OF this]
  have "connected_with l = Some [0] \<and> phase (inner l) = Ended \<longrightarrow> send_queue s = []" using f(9) assms(2) by blast
  note a = adopt_sound [OF assms(1) by_holders, of "(inner l)\<lparr>wsock := s\<rparr>"]
  show "sound (adopt ((inner l)\<lparr>wsock := s\<rparr>) l)" "m_refcount (adopt ((inner l)\<lparr>wsock := s\<rparr>) l) = holders (adopt ((inner l)\<lparr>wsock := s\<rparr>) l)"
    "deletions (adopt ((inner l)\<lparr>wsock := s\<rparr>) l) = 0"
    using a assms(2,3) f(3) \<open>connected_with l = Some [0] \<and> _ \<longrightarrow> _\<close> by simp_all
qed

lemma drop_ref: "2 \<le> m_refcount l \<Longrightarrow> refcounted_remove_ref l = l\<lparr>m_refcount := m_refcount l - 1\<rparr>"
  by (simp add: refcounted_remove_ref_def Let_def)

lemma connect_sound:
  assumes "sound l" "by_user l" "connected_with l = None"
  shows "sound (websocket_connect lib url l)"
proof -
  obtain s remote port ssl where w: "ws_connect url (wsock (inner l)) = (s, remote, port, ssl)" by (metis prod_cases4)
  obtain codes e t where t: "tcp_connect lib remote port ssl (tcpc (inner l)) = (codes, e, t)" by (metis prod_cases3)
  have m: "m_refcount l = holders l" "0 < holders l" "deletions l = 0" "tracked l" using sound_alive [OF assms(1) by_holders] assms(2) by (simp_all add: by_holders)
  then have q: "\<not> by_sender l" "\<not> by_handshake l" "phase (inner l) = Ended" "\<not> m_is_connected (tcpc (inner l))" "\<not> listens (tcpc (inner l))"
    "last_entries (tcpc (inner l)) = []" "\<not> send_should_exit (wsock (inner l))" "\<not> by_destructor l"
    using assms(2,3) tracked_facts [of l] by auto
  note c = connect_result [OF t q(4)]
  have s: "send_queue s = send_queue (wsock (inner l))" "send_should_exit s = send_should_exit (wsock (inner l))"
    using w by (auto simp: ws_connect_def)
  show ?thesis
  proof (cases "codes = [0]")
    case True
    with m(1,2) have e: "websocket_connect lib url l = l\<lparr>connected_with := Some [0],
        inner := (inner l)\<lparr>tcpc := t, wsock := s\<lparr>con_state := Handshake, send_should_exit := False\<rparr>, phase := Popping\<rparr>,
        by_handshake := True, by_sender := True, m_refcount := Suc (Suc (holders l))\<rparr>"
      by (simp add: websocket_connect_def w t on_connect_def raw_on_connect_def state_transition_def refcounted_add_ref_def drop_ref Let_def)
    show ?thesis unfolding e using True m q c s assms(2)
      by (simp add: sound_def counted_def tracked_def holders_def listens_def)
  next
    case False
    with c have "codes = [] \<or> (\<exists>code. codes = [code] \<and> code \<noteq> 0)" by auto
    let ?u = "case codes of [] \<Rightarrow> s | code # _ \<Rightarrow> call_on_open code (state_transition Handshake s)"
    have e: "websocket_connect lib url l = l\<lparr>connected_with := Some codes, inner := (inner l)\<lparr>tcpc := t, wsock := ?u\<rparr>, m_refcount := holders l\<rparr>"
      using \<open>codes = [] \<or> _\<close> m(1,2)
      by (auto simp: websocket_connect_def w t on_connect_def raw_on_connect_def refcounted_add_ref_def drop_ref Let_def)
    have u: "send_queue ?u = send_queue s \<and> send_should_exit ?u = send_should_exit s"
      by (simp add: call_on_open_def emit_def state_transition_def split: list.split)
    show ?thesis unfolding e using False m q c s u assms(2)
      by (simp add: sound_def counted_def tracked_def holders_def listens_def)
  qed
qed

lemma destroy_sound:
  assumes "sound l" "by_user l" "websocket_dtor env (m_is_connected (tcpc (inner l))) (wsock (inner l)) = Ret s"
  shows "sound (websocket_destroy s l)"
proof -
  obtain u where u: "advances (wsock (inner l)) u" "s = told_to_end u" using advances_dtor [OF assms(3)] by blast
  let ?a = "adopt ((inner l)\<lparr>wsock := u\<rparr>) l"
  note a = api_sound [OF assms(1,2) u(1)]
  have f: "tracked ?a" "\<not> by_destructor l"
    using a(1) tracked_facts(7) [of l] assms(1,2) by (simp_all add: sound_def)
  let ?b = "(adopt ((inner l)\<lparr>wsock := s\<rparr>) (refcounted_add_ref l))\<lparr>by_user := False, by_destructor := True\<rparr>"
  have "m_refcount ?b = Suc (holders ?b)" "deletions ?b = 0"
    using a(2,3) f(2) assms(2) u(2) by (simp_all add: adopt_eq holders_def told_to_end_def refcounted_add_ref_def)
  moreover have "tracked ?b"
    by (rule tracked_fields [OF tracked_told [OF tracked_flags(3) [OF f(1)]]])
      (simp_all add: u(2) adopt_eq refcounted_add_ref_def told_to_end_def)
  ultimately show ?thesis unfolding websocket_destroy_def by (rule released_sound)
qed

lemma joined_sound:
  assumes "sound l" "by_destructor l"
  shows "sound (refcounted_remove_ref (l\<lparr>by_destructor := False\<rparr>))"
proof (rule released_sound)
  have m: "m_refcount l = holders l" "deletions l = 0" "tracked l" using sound_alive [OF assms(1) by_holders] assms(2) by simp_all
  then show "m_refcount (l\<lparr>by_destructor := False\<rparr>) = Suc (holders (l\<lparr>by_destructor := False\<rparr>))" "deletions (l\<lparr>by_destructor := False\<rparr>) = 0"
    using assms(2) by (simp_all add: holders_def)
  show "tracked (l\<lparr>by_destructor := False\<rparr>)" using m(3) by (rule tracked_flags(1))
qed

lemma handshake_keeps:
  assumes "client_handshake lib env net c = Ret c'"
  shows "advances (wsock c) (wsock c')" "phase c' = phase c" "m_is_connected (tcpc c') = m_is_connected (tcpc c)"
    "last_entries (tcpc c') = last_entries (tcpc c)"
    "fst (handshake_body net (wsock c)) \<noteq> None \<Longrightarrow> tcpc c' = tcpc c \<and> send_queue (wsock c') = send_queue (wsock c)"
proof -
  let ?t = "if fst (handshake_body net (wsock c)) = None then handshake_install lib (tcpc c) else tcpc c"
  from assms obtain s where s: "handshake_task env net (wsock c) = Ret s" "c' = c\<lparr>tcpc := ?t, wsock := s\<rparr>"
    by (auto simp: client_handshake_def andthen_Ret)
  show "advances (wsock c) (wsock c')" "phase c' = phase c" using s advances_handshake by simp_all
  show "m_is_connected (tcpc c') = m_is_connected (tcpc c)" "last_entries (tcpc c') = last_entries (tcpc c)"
    using s(2) by (simp_all add: handshake_install_def pause_receive_def set_on_data_available_def)
  obtain r buf t where b: "handshake_body net (wsock c) = (r, buf, t)" by (metis prod_cases3)
  show "tcpc c' = tcpc c \<and> send_queue (wsock c') = send_queue (wsock c)" if "fst (handshake_body net (wsock c)) \<noteq> None"
    using that s b handshake_body_queue [OF b] by (auto simp: handshake_task_def call_on_open_def emit_def)
qed

lemma handshake_sound:
  assumes "sound l" "by_handshake l" "client_handshake lib env net (inner l) = Ret c"
    "fst (handshake_body net (wsock (inner l))) \<noteq> None \<or> m_is_connected (tcpc (inner l))"
  shows "sound (handshake_done c l)"
proof -
  note k = handshake_keeps [OF assms(3)]
  have "tracked l" using assms(1) by (simp add: sound_def)
  note f = tracked_facts [OF this]
  have h: "0 < holders l" using assms(2) by_holders by blast
  have "listens (tcpc c) \<longrightarrow> m_is_connected (tcpc c)" using assms(4) k(3,5) f(3) by auto
  moreover have "connected_with l = Some [0] \<and> phase c = Ended \<longrightarrow> send_queue (wsock c) = []" using assms(4) k(2,5) f(2,9) by auto
  ultimately have a: "sound (adopt c l)" "m_refcount (adopt c l) = holders (adopt c l)" "deletions (adopt c l) = 0"
    using adopt_sound [OF assms(1) h k(1-3)] k(4) by blast+
  show ?thesis unfolding handshake_done_def
  proof (rule released_sound)
    show "m_refcount ((adopt c l)\<lparr>by_handshake := False\<rparr>) = Suc (holders ((adopt c l)\<lparr>by_handshake := False\<rparr>))"
      "deletions ((adopt c l)\<lparr>by_handshake := False\<rparr>) = 0"
      using a(2,3) assms(2) by (simp_all add: holders_def adopt_eq)
    show "tracked ((adopt c l)\<lparr>by_handshake := False\<rparr>)" using a(1) by (simp add: sound_def tracked_flags(2))
  qed
qed

lemma same_sound:
  assumes "sound l" "phase c = phase (inner l) \<or> by_sender l \<and> phase (inner l) \<noteq> Ended \<and> phase c \<noteq> Ended \<and> (phase c = Draining \<longrightarrow> send_should_exit (wsock c))"
    "m_is_connected (tcpc c) = m_is_connected (tcpc (inner l))" "listens (tcpc c) \<longrightarrow> listens (tcpc (inner l))"
    "last_entries (tcpc c) = last_entries (tcpc (inner l))" "send_should_exit (wsock c) = send_should_exit (wsock (inner l))"
    "send_queue (wsock c) = send_queue (wsock (inner l))"
  shows "sound (l\<lparr>inner := c\<rparr>)"
proof -
  have t: "tracked l" "counted l" using assms(1) by (simp_all add: sound_def)
  have "tracked (l\<lparr>inner := c\<rparr>)"
    unfolding tracked_def Let_def using assms(2)
    by (simp add: assms(3,5,6,7)) (use assms(4) tracked_facts [OF t(1)] in metis)
  with counted_same [OF t(2) assms(7)] show ?thesis by (simp add: sound_def)
qed

lemma pop_sound:
  assumes "sound l" "phase (inner l) = Popping"
  shows "sound (l\<lparr>inner := task_pop lib res (inner l)\<rparr>)"
proof -
  have b: "by_sender l" using assms tracked_facts(4) [of l] by (simp add: sound_def)
  have "m_is_connected (snd (tcp_send_all lib (Inr res) 0 d t)) = m_is_connected t \<and> m_recv_handler (snd (tcp_send_all lib (Inr res) 0 d t)) = m_recv_handler t \<and>
      last_entries (snd (tcp_send_all lib (Inr res) 0 d t)) = last_entries t" for d t
    by (auto simp: tcp_send_all_def Let_def split: option.split)
  then show ?thesis using b assms(2)
    by (intro same_sound [OF assms(1)]) (auto simp: task_pop_def listens_def split: list.splits)
qed

lemma drained_exit: "send_should_exit (fold (\<lambda>(_, cb). run_cb cb ok) q s) = send_should_exit s"
proof (induction q arbitrary: s)
  case (Cons x q)
  then show ?case by (cases x) simp
qed simp

lemma drains_sound:
  assumes "sound l" "phase (inner l) = Draining" "m_is_connected (tcpc (inner l)) \<longrightarrow> fst (tcp_disconnect lib (Some 1) (tcpc (inner l))) = None"
  shows "sound (sender_drains lib l)"
proof -
  have s: "by_sender l" "tracked l" using assms(1,2) tracked_facts(4) [of l] by (simp_all add: sound_def)
  have m: "m_refcount l = holders l" "deletions l = 0" using sound_alive [OF assms(1) by_holders] s(1) by simp_all
  note f = tracked_facts [OF s(2)]
  have nu: "\<not> by_user l" using f(7,8) assms(2) by blast
  let ?c = "task_end lib (inner l)" and ?q = "send_queue (wsock (inner l))"
  let ?l = "l\<lparr>inner := ?c, m_refcount := m_refcount l - queue_refs ?q\<rparr>"
  have w: "send_queue (wsock ?c) = []" "send_should_exit (wsock ?c) = send_should_exit (wsock (inner l))" "phase ?c = Ended"
    by (simp_all add: task_end_def drain_queue_def drained drained_exit)
  have sh: "shed ?q (l\<lparr>inner := ?c\<rparr>) = ?l"
    using m(1) s(1) by (simp add: shed_def remove_refs holders_def)
  have h: "holders ?l + queue_refs ?q = holders l" using w by (simp add: holders_def)
  show ?thesis
  proof (cases "m_is_connected (tcpc (inner l))")
    case True
    then obtain t where t: "tcp_disconnect lib (Some 1) (tcpc (inner l)) = (None, t)" using assms(3) by (metis prod.collapse)
    with True have c: "tcpc ?c = t" by (simp add: task_end_def)
    note d = disconnect_result [OF t]
    have "tracked ?l"
      unfolding tracked_def Let_def using f(6,8,10) s(1) nu assms(2) d c w
      by (simp add: listens_def)
    moreover have "counted ?l" using m h by_holders [of l] s(1) by (simp add: counted_def holders_def)
    ultimately show ?thesis using True by (simp add: sender_drains_def sh sound_def Let_def)
  next
    case False
    then have nl: "\<not> listens (tcpc (inner l))" using f(3) by blast
    from False have c: "tcpc ?c = tcpc (inner l)" by (simp add: task_end_def)
    have "sound (sender_done ?l)" unfolding sender_done_def
    proof (rule released_sound)
      show "m_refcount (?l\<lparr>by_sender := False\<rparr>) = Suc (holders (?l\<lparr>by_sender := False\<rparr>))" "deletions (?l\<lparr>by_sender := False\<rparr>) = 0"
        using m h s(1) by (simp_all add: holders_def)
      show "tracked (?l\<lparr>by_sender := False\<rparr>)"
        unfolding tracked_def Let_def using False f(6,8,10) nl s(1) nu assms(2) c w by simp
    qed
    then show ?thesis using False by (simp add: sender_drains_def sh Let_def)
  qed
qed

lemma entry_sound:
  assumes "sound l" "queue (tcpc (inner l)) = t # post"
  shows "sound (life_entry t (l\<lparr>inner := (inner l)\<lparr>tcpc := (tcpc (inner l))\<lparr>queue := post\<rparr>\<rparr>\<rparr>))"
proof -
  let ?c = "(inner l)\<lparr>tcpc := (tcpc (inner l))\<lparr>queue := post\<rparr>\<rparr>"
  let ?l = "l\<lparr>inner := ?c\<rparr>" and ?r = "l\<lparr>inner := run_entry t ?c\<rparr>" and ?q = "send_queue (wsock (inner l))"
  have s: "tracked l" using assms(1) by (simp add: sound_def)
  note f = tracked_facts [OF s]
  have q: "m_is_connected (tcpc (run_entry t ?c)) = m_is_connected (tcpc (inner l))" "listens (tcpc (run_entry t ?c)) = listens (tcpc (inner l))"
    "last_entries (tcpc (run_entry t ?c)) = last_entries ((tcpc (inner l))\<lparr>queue := post\<rparr>)"
    using entry_quiet [of t ?c] by (simp_all add: listens_def)
  consider (resumes) n where "t = Send_done 0 n" "phase (inner l) = Sending" | (ends) "end_entry t"
    | (other) "\<not> end_entry t" "\<not> (\<exists>n. t = Send_done 0 n \<and> phase (inner l) = Sending)" by blast
  then show ?thesis
  proof cases
    case resumes
    have b: "by_sender l" using f(4) resumes by simp
    then have m: "m_refcount l = holders l" "deletions l = 0" using sound_alive [OF assms(1) by_holders] by simp_all
    have w: "run_entry t ?c = task_resume n ?c" using resumes by (simp add: run_entry_def)
    have k: "queue_refs (take 1 ?q) + queue_refs (drop 1 ?q) = queue_refs ?q" by (metis append_take_drop_id queue_refs_simps(3))
    have v: "phase (run_entry t ?c) = Popping" "send_should_exit (wsock (run_entry t ?c)) = send_should_exit (wsock (inner l))"
      using resumed_wsock [of n ?c] by (simp_all add: w) (simp add: task_resume_def)
    have p: "filter (\<lambda>t. data_entry t \<or> end_entry t) post = last_entries (tcpc (inner l))" using resumes assms(2) by simp
    have e: "life_entry t ?l = ?r\<lparr>m_refcount := m_refcount l - queue_refs (take 1 ?q)\<rparr>"
      using resumes m b k by (simp add: life_entry_def shed_def remove_refs holders_def Let_def)
    have "counted (life_entry t ?l)"
      unfolding e using m b k resumed_wsock [of n ?c] by (simp add: counted_def holders_def w)
    moreover have "tracked ?r"
      unfolding tracked_def Let_def by (simp add: q p v) (use f b resumes(2) in auto)
    ultimately show ?thesis by (simp add: e sound_def)
  next
    case ends
    then obtain r w where t: "t = Disconnected r w (Some 1)" by (cases t) auto
    have "by_sender l \<and> phase (inner l) = Ended \<and> filter (\<lambda>t. data_entry t \<or> end_entry t) post = []"
      using f(10,11) ends assms(2) by force
    then have b: "by_sender l" "phase (inner l) = Ended" "filter (\<lambda>t. data_entry t \<or> end_entry t) post = []" by simp_all
    then have m: "m_refcount l = holders l" "deletions l = 0" using sound_alive [OF assms(1) by_holders] by simp_all
    have w: "phase (run_entry t ?c) = Ended" "send_queue (wsock (run_entry t ?c)) = ?q"
      "send_should_exit (wsock (run_entry t ?c)) = send_should_exit (wsock (inner l))"
      using entry_wsock [of t ?c] t b by simp_all
    have "sound (sender_done ?r)" unfolding sender_done_def
    proof (rule released_sound)
      show "m_refcount (?r\<lparr>by_sender := False\<rparr>) = Suc (holders (?r\<lparr>by_sender := False\<rparr>))" "deletions (?r\<lparr>by_sender := False\<rparr>) = 0"
        using m b(1) w by (simp_all add: holders_def)
      show "tracked (?r\<lparr>by_sender := False\<rparr>)"
        unfolding tracked_def Let_def by (simp add: q w b) (use f b in blast)
    qed
    then show ?thesis by (simp add: life_entry_def t Let_def)
  next
    case other
    have e: "life_entry t ?l = ?r" using other by (cases t) (auto simp: life_entry_def Let_def)
    have "\<not> data_entry t" using f(10,11) other(1) assms(2) by force
    then have p: "last_entries ((tcpc (inner l))\<lparr>queue := post\<rparr>) = last_entries (tcpc (inner l))" using other(1) assms(2) by simp
    show ?thesis unfolding e
      by (rule same_sound [OF assms(1)]) (use entry_wsock [of t ?c] other(2) q p in simp_all)
  qed
qed

lemma writable_quiet:
  "m_is_connected (snd (on_writable (Inr res) t)) = m_is_connected t \<and> m_recv_handler (snd (on_writable (Inr res) t)) = m_recv_handler t \<and>
    last_entries (snd (on_writable (Inr res) t)) = last_entries t"
proof (cases "m_send_handler t")
  case (Some op)
  then show ?thesis by (cases op; cases res) (auto simp: on_writable_def Let_def)
qed (simp add: on_writable_def)

lemma readable_sound:
  assumes "sound l" "m_recv_handler (tcpc (inner l)) = Some (On_data cb)" "data_ready env r (inner l) = Ret c"
  shows "sound (adopt c l)"
proof -
  have "tracked l" using assms(1) by (simp add: sound_def)
  note f = tracked_facts [OF this]
  have co: "m_is_connected (tcpc (inner l))" using f(3) assms(2) by (simp add: listens_def)
  from assms(3) obtain x s where x: "raw_on_data_available env False r (wsock (inner l)) = Ret (x, s)"
    "c = (inner l)\<lparr>tcpc := snd (on_readable (Inr None) (result_bits x) (tcpc (inner l))), wsock := s\<rparr>"
    by (auto simp: data_ready_def andthen_Ret)
  have "m_is_connected (tcpc c) = m_is_connected (tcpc (inner l))" "last_entries (tcpc c) = last_entries (tcpc (inner l))"
    using on_readable_none [OF prod.collapse [symmetric], of "result_bits x" "tcpc (inner l)"] x(2) by simp_all
  then show ?thesis
    using co f(1,2) x by_holders [of l] by (intro adopt_sound(1) [OF assms(1)]) (simp_all add: advances_data)
qed

lemma life_step_sound: "life_step lib env ok l l' \<Longrightarrow> sound l \<Longrightarrow> sound l'"
proof (induction rule: life_step.induct)
  case (api l s)
  then show ?case by (simp add: api_sound(1) advances_api)
next
  case (connect l url)
  then show ?case by (simp add: connect_sound)
next
  case (destroy l s)
  then show ?case by (simp add: destroy_sound)
next
  case (joined l)
  then show ?case by (simp add: joined_sound)
next
  case (handshake l net c)
  then show ?case by (simp add: handshake_sound)
next
  case (handshake_fails l net c)
  then show ?case by (simp add: handshake_sound)
next
  case (pop l res)
  then show ?case by (simp add: pop_sound)
next
  case (wake l)
  then have "by_sender l" using tracked_facts(4) [of l] by (simp add: sound_def)
  with wake show ?case by (intro same_sound) (auto simp: task_wake_def)
next
  case (drains l)
  then show ?case by (simp add: drains_sound)
next
  case (entry l t post)
  then show ?case by (simp add: entry_sound)
next
  case (writable l res)
  show ?case by (rule same_sound [OF writable(2)]) (simp_all add: writable_quiet listens_def)
next
  case (readable l cb r c)
  then show ?case by (simp add: readable_sound)
next
  case (paused l d)
  show ?case by (rule same_sound [OF paused(2)]) (simp_all add: listens_def)
qed

lemma life_run_sound: "(life_step lib env ok)\<^sup>*\<^sup>* l l' \<Longrightarrow> sound l \<Longrightarrow> sound l'"
  by (induction rule: rtranclp_induct) (auto dest: life_step_sound)

lemma start_sound: "websocket_ctor le version env z = Ret s \<Longrightarrow> sound (life_start s h)"
  by (auto simp: websocket_ctor_def initial_state_def life_start_def sound_def counted_def tracked_def holders_def listens_def tcp_ctor_def
      split: sum.splits option.splits)

subsection \<open>Properties\<close>

text \<open>
  C23: The count of references is that of those who hold one, and the state is deleted exactly when it
  comes to be 0, so at most once: never while the user, a task or a queued lambda has it. The handler
  for data, which only has a plain pointer, is safe: as long as it is installed, or an entry of the
  executor's queue will call it, the state lives.
\<close>

theorem state_outlives_its_users:
  assumes "websocket_ctor le version env0 z = Ret s" "(life_step lib env ok)\<^sup>*\<^sup>* (life_start s h) l"
  shows "m_refcount l = holders l \<and> deletions l = (if holders l = 0 then 1 else 0) \<and>
    (listens (tcpc (inner l)) \<or> (\<exists>t \<in> set (queue (tcpc (inner l))). data_entry t) \<longrightarrow> deletions l = 0)"
proof -
  have "sound l" using life_run_sound [OF assms(2) start_sound [OF assms(1)]] .
  then have s: "m_refcount l = holders l" "deletions l = of_bool (holders l = 0)" "tracked l" by (simp_all add: sound_def counted_def)
  note f = tracked_facts [OF s(3)]
  have "by_sender l" if "listens (tcpc (inner l))" using f(1,3) that by blast
  moreover have "by_sender l" if "t \<in> set (queue (tcpc (inner l)))" "data_entry t" for t
  proof (rule ccontr)
    assume "\<not> by_sender l"
    then have "last_entries (tcpc (inner l)) = []" using f(10) by blast
    with that show False by (auto simp: filter_empty_conv)
  qed
  ultimately show ?thesis using s by_holders [of l] by auto
qed

text \<open>
  C25: No leak once connected: when the connection was made, and the user, the destructor, the handshake
  and the sending task are all done, the state is deleted, whatever happened in between.
\<close>

theorem connected_state_freed:
  assumes "websocket_ctor le version env0 z = Ret s" "(life_step lib env ok)\<^sup>*\<^sup>* (life_start s h) l"
    "connected_with l = Some [0]" "\<not> by_user l" "\<not> by_destructor l" "\<not> by_handshake l" "\<not> by_sender l"
  shows "deletions l = 1"
proof -
  have s: "sound l" using life_run_sound [OF assms(2) start_sound [OF assms(1)]] .
  then have "send_queue (wsock (inner l)) = []" using tracked_facts(4,9) [of l] assms(3,7) by (auto simp: sound_def)
  with s assms(4-7) show ?thesis by (simp add: sound_def counted_def holders_def)
qed

text \<open>Only the state's own queue has references to it.\<close>

definition abandoned :: "'z life \<Rightarrow> bool" where
  "abandoned l \<longleftrightarrow> sound l \<and> \<not> by_user l \<and> \<not> by_destructor l \<and> \<not> by_handshake l \<and> \<not> by_sender l \<and> 0 < queue_refs (send_queue (wsock (inner l)))"

lemma abandoned_step: "life_step lib env ok l l' \<Longrightarrow> abandoned l \<Longrightarrow> abandoned l'"
proof (induction rule: life_step.induct)
  case (entry l t post)
  then have "sound (life_entry t (l\<lparr>inner := (inner l)\<lparr>tcpc := (tcpc (inner l))\<lparr>queue := post\<rparr>\<rparr>\<rparr>))" by (simp add: abandoned_def entry_sound)
  have s: "tracked l" "\<not> by_sender l" using entry(2) by (simp_all add: abandoned_def sound_def)
  note f = tracked_facts [OF s(1)]
  have "last_entries (tcpc (inner l)) = []" "phase (inner l) = Ended" using f(4,10) s(2) by blast+
  then have "\<not> end_entry t" "phase (inner l) \<noteq> Sending" using entry(1) by auto
  then have "life_entry t (l\<lparr>inner := c\<rparr>) = l\<lparr>inner := run_entry t c\<rparr>" if "phase c = Ended" for c
    using that by (cases t) (auto simp: life_entry_def Let_def)
  with \<open>sound _\<close> show ?case
    using entry(2) \<open>phase (inner l) = Ended\<close> entry_wsock [of t "(inner l)\<lparr>tcpc := (tcpc (inner l))\<lparr>queue := post\<rparr>\<rparr>"]
    by (simp add: abandoned_def)
next
  case (writable l res)
  have "sound (l\<lparr>inner := (inner l)\<lparr>tcpc := snd (on_writable (Inr res) (tcpc (inner l)))\<rparr>\<rparr>)"
    using writable by (intro life_step_sound [OF life_step.writable]) (simp_all add: abandoned_def)
  with writable show ?case by (simp add: abandoned_def)
next
  case (readable l cb r c)
  then have "tracked l" "\<not> by_sender l" "listens (tcpc (inner l))" by (simp_all add: abandoned_def sound_def listens_def)
  then show ?case using tracked_facts(1,3) [of l] by blast
next
  case (paused l d)
  have "sound (l\<lparr>inner := (inner l)\<lparr>tcpc := (tcpc (inner l))\<lparr>m_handle := pause lib d (m_handle (tcpc (inner l)))\<rparr>\<rparr>\<rparr>)"
    using paused by (intro life_step_sound [OF life_step.paused]) (simp_all add: abandoned_def)
  with paused show ?case by (simp add: abandoned_def)
qed (auto simp: abandoned_def sound_def dest: tracked_facts(4))

lemma abandoned_stays: "(life_step lib env ok)\<^sup>*\<^sup>* l l' \<Longrightarrow> abandoned l \<Longrightarrow> abandoned l'"
  by (induction rule: rtranclp_induct) (auto dest: abandoned_step)

text \<open>
  C24: A \<open>close\<close> before the connection is made, or after it could not be made, leaks the state: the close
  frame waits, with a reference to the state, in the state's own queue, which no task will empty.
  The references of the user and of the destructor's task go, and nothing that can happen then ever
  deletes the state.
\<close>

theorem close_unconnected_leaks:
  assumes "websocket_ctor le version env0 z = Ret s" "(life_step lib env ok)\<^sup>*\<^sup>* (life_start s h) l"
    "by_user l" "connected_with l \<noteq> Some [0]" "con_state (wsock (inner l)) \<in> {Init, Handshake}"
    "fst (validate (utf8_mode (wsock (inner l))) reason) = Valid"
  shows "\<exists>u l'. ws_close env code reason (wsock (inner l)) = Ret u \<and>
    (life_step lib env ok)\<^sup>*\<^sup>* (adopt ((inner l)\<lparr>wsock := u\<rparr>) l) l' \<and> holders l' = queue_refs (send_queue (wsock (inner l'))) \<and>
    (\<forall>l''. (life_step lib env ok)\<^sup>*\<^sup>* l' l'' \<longrightarrow> 0 < m_refcount l'' \<and> deletions l'' = 0)"
proof -
  let ?p = "close_payload code reason" and ?c = "op_or op_fin op_close"
  let ?u = "enqueue_frame env ?c ?p Keep_state (wsock (inner l))"
  let ?l1 = "adopt ((inner l)\<lparr>wsock := ?u\<rparr>) l"
  have u: "ws_close env code reason (wsock (inner l)) = Ret ?u"
    using assms(5,6) by (auto simp: ws_close_def close_impl_def send_close_frame)
  have s: "sound l" using life_run_sound [OF assms(2) start_sound [OF assms(1)]] .
  then have t: "\<not> by_sender l" "\<not> by_handshake l" "\<not> m_is_connected (tcpc (inner l))"
    using tracked_facts(1,5) [of l] assms(4) by (auto simp: sound_def)
  have st1: "life_step lib env ok l ?l1" by (rule life_step.api [OF assms(3) api_step.closes [OF u]])
  let ?l2 = "websocket_destroy (told_to_end ?u) ?l1"
  have "websocket_dtor env (m_is_connected (tcpc (inner ?l1))) (wsock (inner ?l1)) = Ret (told_to_end ?u)"
    using t(3) by (simp add: websocket_dtor_def told_to_end_def adopt_eq)
  then have st2: "life_step lib env ok ?l1 ?l2" using assms(3) by (intro life_step.destroy) (simp_all add: adopt_eq)
  have so2: "sound ?l2" using life_step_sound [OF st2 life_step_sound [OF st1 s]] .
  have m: "1 \<le> m_refcount l" using sound_alive [OF s by_holders] by_holders [of l] assms(3) by simp
  have d: "m_refcount ?l2 = Suc (m_refcount l) \<and> wsock (inner ?l2) = told_to_end ?u \<and> \<not> by_user ?l2 \<and> by_destructor ?l2 \<and>
      by_handshake ?l2 = by_handshake l \<and> by_sender ?l2 = by_sender l"
    using m by (simp add: websocket_destroy_def adopt_eq refcounted_add_ref_def drop_ref told_to_end_def enqueue_frame_def)
  let ?l3 = "refcounted_remove_ref (?l2\<lparr>by_destructor := False\<rparr>)"
  have st3: "life_step lib env ok ?l2 ?l3" using d t by (intro life_step.joined) simp_all
  have "?l3 = ?l2\<lparr>by_destructor := False, m_refcount := m_refcount l\<rparr>" using d m by (simp add: drop_ref)
  moreover have "sound ?l3" by (rule life_step_sound [OF st3 so2])
  ultimately have a: "abandoned ?l3"
    using d t by (simp add: abandoned_def told_to_end_def enqueue_frame_def)
  have "0 < m_refcount l'' \<and> deletions l'' = 0" if "(life_step lib env ok)\<^sup>*\<^sup>* ?l3 l''" for l''
    using abandoned_stays [OF that a] by (simp add: abandoned_def sound_def counted_def holders_def)
  moreover have "(life_step lib env ok)\<^sup>*\<^sup>* ?l1 ?l3" using st2 st3 by (meson r_into_rtranclp rtranclp_trans)
  moreover have "holders ?l3 = queue_refs (send_queue (wsock (inner ?l3)))" using a by (simp add: abandoned_def holders_def)
  ultimately show ?thesis using u by blast
qed

subsection \<open>An example\<close>

text \<open>
  The server does not answer the handshake; the user gives up, and the sending task disconnects.
\<close>

definition silent :: "unit net" where
  "silent = \<lparr>recv_chunks = [], first_read = Try_again, inflate_init = (0, ()), deflate_init = (\<lambda>_. (0, ()))\<rparr>"

lemma example_new: "\<exists>s. websocket_ctor True ''8.5.0'' plain_env () = Ret s"
  using accept_key_unique [of True "''8.5.0''" plain_env "()"] by blast

lemma new_fields: "websocket_ctor le version env z = Ret s \<Longrightarrow> send_queue s = [] \<and> \<not> send_should_exit s \<and> con_state s = Init \<and> utf8_mode s = Mode_pedantic"
  by (auto simp: websocket_ctor_def initial_state_def split: sum.splits option.splits)

lemma connect_succeeds:
  "\<exists>t. tcp_connect obliging remote port ssl (tcp_ctor handle_blank) = ([0], None, t) \<and> m_is_connected t \<and> queue t = [] \<and>
    m_recv_handler t = None \<and> m_send_handler t = None"
  by (simp add: tcp_connect_def connect_setup_def set_option_bool_def set_option_long_def set_readfunction_def set_writefunction_def set_url_def
        set_option_ptr_def easy_def next_do_def obliging_def option_base_def type_long_def type_object_def type_function_def Let_def
        opt_connect_only_def opt_verbose_def set_donefunction_def pause_def curl_pause_def tcp_ctor_def handle_blank_def perform_def)

lemma disconnect_succeeds: "\<exists>t'. tcp_disconnect obliging d t = (None, t')"
  by (simp add: tcp_disconnect_def handle_reset_def set_option_ptr_def easy_def obliging_def next_do_def option_base_def opt_private_def
      type_object_def type_function_def Let_def)

lemma unanswered_run:
  assumes "websocket_ctor True ''8.5.0'' plain_env () = Ret s"
  shows "\<exists>l. (life_step obliging plain_env steady)\<^sup>*\<^sup>* (life_start s handle_blank) l \<and> phase (inner l) = Waiting \<and>
    con_state (wsock (inner l)) = Handshake \<and> send_queue (wsock (inner l)) = [] \<and>
    m_is_connected (tcpc (inner l)) \<and> queue (tcpc (inner l)) = [] \<and> m_recv_handler (tcpc (inner l)) = None \<and>
    m_send_handler (tcpc (inner l)) = None \<and> by_user l \<and> \<not> by_destructor l \<and> \<not> by_handshake l \<and> by_sender l \<and>
    connected_with l = Some [0] \<and> m_refcount l = 2 \<and> deletions l = 0"
proof -
  let ?S = "life_step obliging plain_env steady" and ?l0 = "life_start s handle_blank"
  note n = new_fields [OF assms]
  obtain t where t: "tcp_connect obliging (m_host uri_empty) (word_of_int (m_port uri_empty)) (m_scheme uri_empty = ''wss'') (tcp_ctor handle_blank) = ([0], None, t)"
    "m_is_connected t" "queue t = []" "m_recv_handler t = None" "m_send_handler t = None"
    using connect_succeeds by blast
  define l1 where "l1 = websocket_connect obliging uri_empty ?l0"
  have s1: "?S ?l0 l1" unfolding l1_def by (rule life_step.connect) (simp_all add: life_start_def)
  have f1: "wsock (inner l1) = s\<lparr>con_state := Handshake, last_url := uri_empty, send_should_exit := False\<rparr>" "tcpc (inner l1) = t" "phase (inner l1) = Popping"
    "by_user l1" "\<not> by_destructor l1" "by_handshake l1" "by_sender l1" "connected_with l1 = Some [0]" "m_refcount l1 = 3" "deletions l1 = 0"
    using t(1) by (simp_all add: l1_def websocket_connect_def ws_connect_def life_start_def on_connect_def raw_on_connect_def state_transition_def
        refcounted_add_ref_def drop_ref Let_def)
  define l2 where "l2 = l1\<lparr>inner := task_pop obliging None (inner l1)\<rparr>"
  have s2: "?S l1 l2" unfolding l2_def by (rule life_step.pop) (simp_all add: f1 steady_def)
  have f2: "inner l2 = (inner l1)\<lparr>phase := Waiting\<rparr>" using n by (simp add: l2_def task_pop_def f1)
  define l3 where "l3 = handshake_done (inner l2) l2"
  have "on_open s = False" using assms by (auto simp: websocket_ctor_def initial_state_def split: sum.splits option.splits)
  then have "client_handshake obliging plain_env silent (inner l2) = Ret (inner l2)" "fst (handshake_body silent (wsock (inner l2))) \<noteq> None"
    by (simp_all add: client_handshake_def handshake_task_def handshake_body_def silent_def call_on_open_def f1 f2 andthen_def)
  then have s3: "?S l2 l3" unfolding l3_def by (intro life_step.handshake_fails) (simp_all add: l2_def f1)
  have f3: "inner l3 = inner l2" "by_user l3" "\<not> by_destructor l3" "\<not> by_handshake l3" "by_sender l3" "connected_with l3 = Some [0]"
    "m_refcount l3 = 2" "deletions l3 = 0"
    by (simp_all add: l3_def handshake_done_def adopt_eq drop_ref l2_def f1)
  have "?S\<^sup>*\<^sup>* ?l0 l3" using s1 s2 s3 by (meson r_into_rtranclp rtranclp_trans)
  with f1 f2 f3 t n show ?thesis by (intro exI [of _ l3]) simp
qed

lemma finished_run:
  assumes "websocket_ctor True ''8.5.0'' plain_env () = Ret s"
  shows "\<exists>l. (life_step obliging plain_env steady)\<^sup>*\<^sup>* (life_start s handle_blank) l \<and> connected_with l = Some [0] \<and>
    \<not> by_user l \<and> \<not> by_destructor l \<and> \<not> by_handshake l \<and> \<not> by_sender l"
proof -
  let ?S = "life_step obliging plain_env steady" and ?l0 = "life_start s handle_blank"
  obtain l3 where s3: "?S\<^sup>*\<^sup>* ?l0 l3" and f3: "phase (inner l3) = Waiting" "con_state (wsock (inner l3)) = Handshake"
      "send_queue (wsock (inner l3)) = []" "m_is_connected (tcpc (inner l3))" "queue (tcpc (inner l3)) = []"
      "m_recv_handler (tcpc (inner l3)) = None" "m_send_handler (tcpc (inner l3)) = None" "by_user l3" "\<not> by_destructor l3"
      "\<not> by_handshake l3" "by_sender l3" "connected_with l3 = Some [0]" "m_refcount l3 = 2" "deletions l3 = 0"
    using unanswered_run [OF assms] by blast
  define u where "u = told_to_end (enqueue_frame plain_env (op_or op_fin op_close) (close_payload 1002 (bytes_of_string ''Going away'')) Keep_state (wsock (inner l3)))"
  define l4 where "l4 = websocket_destroy u l3"
  have "websocket_dtor plain_env (m_is_connected (tcpc (inner l3))) (wsock (inner l3)) = Ret u"
    by (simp add: websocket_dtor_def close_impl_def send_close_frame u_def told_to_end_def f3)
  then have s4: "?S l3 l4" unfolding l4_def using f3(8) by (intro life_step.destroy)
  have k: "queue_refs (send_queue u) = 1" by (simp add: u_def told_to_end_def enqueue_frame_def emit_def f3)
  have f4: "inner l4 = (inner l3)\<lparr>wsock := u\<rparr>" "\<not> by_user l4" "by_destructor l4" "\<not> by_handshake l4" "by_sender l4" "connected_with l4 = Some [0]"
    "m_refcount l4 = 3" "deletions l4 = 0"
    using k by (simp_all add: l4_def websocket_destroy_def adopt_eq refcounted_add_ref_def drop_ref f3)
  define l5 where "l5 = l4\<lparr>inner := task_wake (inner l4)\<rparr>"
  have s5: "?S l4 l5" unfolding l5_def by (rule life_step.wake) (simp_all add: f4 f3 u_def told_to_end_def)
  have f5: "phase (inner l5) = Draining" "tcpc (inner l5) = tcpc (inner l3)" "send_queue (wsock (inner l5)) = send_queue u"
    by (simp_all add: l5_def task_wake_def f4 f3) (simp add: u_def told_to_end_def)
  obtain t' where t': "tcp_disconnect obliging (Some 1) (tcpc (inner l3)) = (None, t')"
    using disconnect_succeeds by blast
  define l6 where "l6 = sender_drains obliging l5"
  have s6: "?S l5 l6" unfolding l6_def by (rule life_step.drains) (simp_all add: f5 t' [simplified])
  have f6: "tcpc (inner l6) = t'" "m_refcount l6 = 2" "deletions l6 = 0" "by_sender l6" "\<not> by_user l6" "by_destructor l6" "\<not> by_handshake l6"
    "connected_with l6 = Some [0]"
    using f4 f5 k f3(4) t' by (simp_all add: l6_def sender_drains_def shed_def drop_ref task_end_def l5_def Let_def)
  define e where "e = Disconnected None None (Some 1)"
  have q: "queue (tcpc (inner l6)) = [e]" using disconnect_result [OF t'] by (simp add: f6 e_def f3)
  define l7 where "l7 = life_entry e (l6\<lparr>inner := (inner l6)\<lparr>tcpc := (tcpc (inner l6))\<lparr>queue := []\<rparr>\<rparr>\<rparr>)"
  have s7: "?S l6 l7" unfolding l7_def by (rule life_step.entry [OF q])
  have f7: "m_refcount l7 = 1" "by_destructor l7" "\<not> by_sender l7" "\<not> by_handshake l7" "\<not> by_user l7" "connected_with l7 = Some [0]"
    using f6 by (simp_all add: l7_def life_entry_def e_def sender_done_def drop_ref Let_def)
  define l8 where "l8 = refcounted_remove_ref (l7\<lparr>by_destructor := False\<rparr>)"
  have s8: "?S l7 l8" unfolding l8_def using f7 by (intro life_step.joined)
  have "\<not> by_user l8" "\<not> by_destructor l8" "\<not> by_handshake l8" "\<not> by_sender l8" "connected_with l8 = Some [0]"
    using f7 by (simp_all add: l8_def refcounted_remove_ref_def Let_def)
  moreover have "?S\<^sup>*\<^sup>* ?l0 l8" using s3 s4 s5 s6 s7 s8 by (meson r_into_rtranclp rtranclp_trans)
  ultimately show ?thesis by blast
qed

theorem state_outlives_its_users_witness:
  "\<exists>s l. websocket_ctor True ''8.5.0'' plain_env () = Ret s \<and> (life_step obliging plain_env steady)\<^sup>*\<^sup>* (life_start s handle_blank) l \<and>
    by_sender l \<and> deletions l = 0 \<and> m_refcount l = holders l"
proof -
  obtain s where s: "websocket_ctor True ''8.5.0'' plain_env () = Ret s" using example_new by blast
  obtain t where t: "tcp_connect obliging (m_host uri_empty) (word_of_int (m_port uri_empty)) (m_scheme uri_empty = ''wss'') (tcp_ctor handle_blank) = ([0], None, t)"
    using connect_succeeds by blast
  let ?l = "websocket_connect obliging uri_empty (life_start s handle_blank)"
  have "life_step obliging plain_env steady (life_start s handle_blank) ?l" by (rule life_step.connect) (simp_all add: life_start_def)
  then have r: "(life_step obliging plain_env steady)\<^sup>*\<^sup>* (life_start s handle_blank) ?l" by blast
  have "by_sender ?l" using t by (simp add: websocket_connect_def ws_connect_def life_start_def on_connect_def raw_on_connect_def
        refcounted_add_ref_def drop_ref Let_def)
  with state_outlives_its_users [OF s r] s r by_holders [of ?l] show ?thesis by auto
qed

theorem connected_state_freed_witness:
  "\<exists>s l. websocket_ctor True ''8.5.0'' plain_env () = Ret s \<and> (life_step obliging plain_env steady)\<^sup>*\<^sup>* (life_start s handle_blank) l \<and>
    deletions l = 1"
proof -
  obtain s where s: "websocket_ctor True ''8.5.0'' plain_env () = Ret s" using example_new by blast
  from finished_run [OF this] connected_state_freed [OF s] s show ?thesis by metis
qed

theorem close_unconnected_leaks_witness:
  "\<exists>s u l. websocket_ctor True ''8.5.0'' plain_env () = Ret s \<and> ws_close plain_env 1000 [] s = Ret u \<and>
    (life_step obliging plain_env steady)\<^sup>*\<^sup>* (adopt ((inner (life_start s handle_blank))\<lparr>wsock := u\<rparr>) (life_start s handle_blank)) l \<and>
    holders l = queue_refs (send_queue (wsock (inner l))) \<and> m_refcount l > 0 \<and> deletions l = 0"
proof -
  obtain s where s: "websocket_ctor True ''8.5.0'' plain_env () = Ret s" using example_new by blast
  let ?l = "life_start s handle_blank"
  have "by_user ?l" "connected_with ?l \<noteq> Some [0]" "con_state (wsock (inner ?l)) \<in> {Init, Handshake}"
    "fst (validate (utf8_mode (wsock (inner ?l))) []) = Valid"
    using new_fields [OF s] by (simp_all add: life_start_def example_validate)
  from close_unconnected_leaks [OF s rtranclp.rtrancl_refl this, where lib = obliging and env = plain_env and ok = steady and code = 1000]
  obtain u l where "ws_close plain_env 1000 [] s = Ret u" "holders l = queue_refs (send_queue (wsock (inner l)))"
    "(life_step obliging plain_env steady)\<^sup>*\<^sup>* (adopt ((inner ?l)\<lparr>wsock := u\<rparr>) ?l) l"
    "\<forall>l'. (life_step obliging plain_env steady)\<^sup>*\<^sup>* l l' \<longrightarrow> 0 < m_refcount l' \<and> deletions l' = 0"
    by (auto simp: life_start_def)
  with s show ?thesis by blast
qed

end
