(* ===== verification/Ws_Compress.thy ===== *)
theory Ws_Compress
  imports Ws_Lifecycle
begin

text \<open>
  The compression of messages (RFC 7692) on top of zlib, which is a parameter: what the loops of
  \<open>inflate_some\<close> and \<open>deflate_some\<close> give when zlib does what its manual says.
\<close>

subsection \<open>zlib's contract\<close>

text \<open>
  A stream has a history \<open>h\<close>, and \<open>dec h\<close> is all the output that belongs to it; \<open>out\<close> is what has been
  delivered. One call takes some of the input, which \<open>ext\<close> adds to the history (the flag says whether
  the whole input was taken, where \<open>deflate\<close> then flushes), and delivers what there is room for.
  It makes progress, and with room left it has taken all the input and delivered everything. When
  the room is used up there may be more to come, and the manual asks to call again.
\<close>

record 'h stream =
  ext :: "'h \<Rightarrow> bytes \<Rightarrow> bool \<Rightarrow> 'h"
  dec :: "'h \<Rightarrow> bytes"

definition stream_ok :: "'h stream \<Rightarrow> bool" where
  "stream_ok S \<longleftrightarrow> (\<forall>h a b c. ext S (ext S h a False) b c = ext S h (a @ b) c) \<and>
     (\<forall>h a b c. prefix (dec S (ext S h a False)) (dec S (ext S h (a @ b) c))) \<and>
     (\<forall>h a c. prefix (dec S h) (dec S (ext S h a c)))"

definition call_ok :: "'h stream \<Rightarrow> ('z \<Rightarrow> 'h \<Rightarrow> bytes \<Rightarrow> bool) \<Rightarrow> 'h \<Rightarrow> bytes \<Rightarrow> bytes \<Rightarrow> nat \<Rightarrow> int \<times> nat \<times> bytes \<times> 'z \<Rightarrow> bool" where
  "call_ok S R h out inp room r \<longleftrightarrow> (case r of (res, used, produced, z) \<Rightarrow>
     let h' = ext S h (take used inp) (used = length inp) in
     res = 0 \<and> used \<le> length inp \<and> R z h' (out @ produced) \<and> produced = take room (drop (length out) (dec S h')) \<and>
     (length produced < room \<longrightarrow> used = length inp) \<and> (0 < used \<or> produced \<noteq> []))"

definition zlib_ok :: "'z flate \<Rightarrow> 'h stream \<Rightarrow> ('z \<Rightarrow> 'h \<Rightarrow> bytes \<Rightarrow> bool) \<Rightarrow> bool" where
  "zlib_ok f S R \<longleftrightarrow> stream_ok S \<and>
     (\<forall>z h out inp room. R z h out \<longrightarrow> prefix out (dec S h) \<and> (inp \<noteq> [] \<longrightarrow> 0 < room \<longrightarrow> call_ok S R h out inp room (f z inp room)))"

lemma zlib_call: "zlib_ok f S R \<Longrightarrow> R z h out \<Longrightarrow> inp \<noteq> [] \<Longrightarrow> 0 < room \<Longrightarrow> call_ok S R h out inp room (f z inp room)"
  by (simp add: zlib_ok_def)

subsection \<open>The loops\<close>





subsection \<open>A message\<close>

definition marker :: bytes where "marker = [0x00, 0x00, 0xff, 0xff]"


subsection \<open>A zlib that stores\<close>

text \<open>
  A compressor that uses stored blocks only, which the format allows, for messages of less than
  64 KiB, and its decompressor. The state of a stream is what has come into or out of it, and how much of
  the output has been delivered.
\<close>

definition stored :: "bytes \<Rightarrow> bytes" where
  "stored d = (let n = length d; lo = word_of_nat n; hi = word_of_nat (n div 256) in [0, lo, hi, NOT lo, NOT hi] @ d)"

definition stored_out :: "bytes \<Rightarrow> bytes" where
  "stored_out d = (if d = [] then [] else stored d @ stored [])"

fun unstored :: "bytes \<Rightarrow> bytes" where
  "unstored (_ # lo # hi # _ # _ # r) =
     (let n = unat lo + 256 * unat hi in take n r @ (if length r < n then [] else unstored (drop n r)))"
| "unstored _ = []"

definition storing_deflate :: "bool \<Rightarrow> (bytes \<times> nat) flate" where
  "storing_deflate b z inp room = (case z of (d, k) \<Rightarrow>
     let d = d @ stored_out inp; p = take room (drop k d) in (0, length inp, p, (d, k + length p)))"

definition storing_inflate :: "(bytes \<times> nat) flate" where
  "storing_inflate z inp room = (case z of (i, k) \<Rightarrow>
     let i = i @ inp; p = take room (drop k (unstored i)) in (0, length inp, p, (i, k + length p)))"

definition storing_env :: "(bytes \<times> nat) env" where
  "storing_env = \<lparr>rng = (\<lambda>_. 7), zinflate = storing_inflate, zdeflate = storing_deflate\<rparr>"

definition deflated :: "(bytes \<times> bytes) stream" where
  "deflated = \<lparr>ext = (\<lambda>(d, cur) b c. if c then (d @ stored_out (cur @ b), []) else (d, cur @ b)), dec = fst\<rparr>"

definition inflated :: "bytes stream" where
  "inflated = \<lparr>ext = (\<lambda>i b c. i @ b), dec = unstored\<rparr>"

definition rel_deflate :: "bytes \<times> nat \<Rightarrow> bytes \<times> bytes \<Rightarrow> bytes \<Rightarrow> bool" where
  "rel_deflate z h out \<longleftrightarrow> h = (fst z, []) \<and> out = take (snd z) (fst z) \<and> snd z \<le> length (fst z)"

definition rel_inflate :: "bytes \<times> nat \<Rightarrow> bytes \<Rightarrow> bytes \<Rightarrow> bool" where
  "rel_inflate z h out \<longleftrightarrow> h = fst z \<and> out = take (snd z) (unstored h) \<and> snd z \<le> length (unstored h)"

lemma unstored_prefix: "prefix (unstored x) (unstored (x @ y))"
proof (induction x rule: unstored.induct)
  case (1 t lo hi u v r)
  show ?case
  proof (cases "length r < unat lo + 256 * unat hi")
    case True
    then show ?thesis by (simp add: Let_def prefix_def)
  next
    case False
    with 1 show ?thesis by (simp add: Let_def)
  qed
qed simp_all

lemma stored_stream_ok: "stream_ok deflated" "stream_ok inflated"
  using unstored_prefix by (auto simp: stream_ok_def deflated_def inflated_def split: prod.splits) (metis append.assoc)

lemma take_more: "take k x @ take room (drop k x) = take (k + length (take room (drop k x))) x"
  by (simp add: take_add min_def)

lemma stored_nonempty: "stored_out d = [] \<longleftrightarrow> d = []"
  by (simp add: stored_out_def stored_def Let_def)

lemma storing_deflate_ok: "zlib_ok (storing_deflate b) deflated rel_deflate"
proof -
  have "call_ok deflated rel_deflate h out inp room (storing_deflate b z inp room)" if "rel_deflate z h out" "inp \<noteq> []" "0 < room" for z h out inp room
  proof -
    obtain d k where z: "z = (d, k)" by (cases z)
    have h: "h = (d, [])" "out = take k d" "k \<le> length d" using that(1) by (auto simp: rel_deflate_def z)
    define x where "x = d @ stored_out inp"
    let ?p = "take room (drop k x)"
    have "take k d = take k x" using h(3) by (simp add: x_def)
    then have "take k d @ ?p = take (k + length ?p) x" using take_more [of k x room] by simp
    moreover have "?p \<noteq> []" using h(3) that(2,3) stored_nonempty [of inp] by (auto simp: x_def)
    moreover have "k + length ?p \<le> length x" using h(3) by (simp add: x_def)
    ultimately show ?thesis
      using h that(2) by (simp only: call_ok_def storing_deflate_def z prod.case Let_def x_def [symmetric])
        (simp add: deflated_def rel_deflate_def x_def [symmetric])
  qed
  moreover have "prefix out (dec deflated h)" if "rel_deflate z h out" for z h out
    using that by (auto simp: rel_deflate_def deflated_def take_is_prefix)
  ultimately show ?thesis using stored_stream_ok(1) by (auto simp: zlib_ok_def)
qed


lemma short_message_frame:
  assumes "zlib_ok f S R" "R (internal zs) h (dec S h)" "buf \<noteq> []" "dec S (ext S h buf True) = dec S h @ enc" "2 * length buf < length enc"
    "fst (snd (f (internal zs) buf (2 * length buf))) = length buf"
  shows "\<exists>zs'. flate_some f buf [] zs = Ret (True, take (2 * length buf) enc, zs') \<and>
    R (internal zs') (ext S h buf True) (dec S h @ take (2 * length buf) enc)"
proof -
  obtain res used produced z where f: "f (internal zs) buf (2 * length buf) = (res, used, produced, z)"
    by (cases "f (internal zs) buf (2 * length buf)") auto
  have u: "used = length buf" using assms(6) by (simp add: f)
  let ?h = "ext S h (take used buf) (used = length buf)"
  have room: "0 < 2 * length buf" using assms(3) by simp
  have c: "res = 0" "R z ?h (dec S h @ produced)" "produced = take (2 * length buf) (drop (length (dec S h)) (dec S ?h))"
    using zlib_call [OF assms(1-3) room] unfolding f call_ok_def Let_def prod.case by blast+
  have h: "?h = ext S h buf True" by (simp add: u)
  have p: "produced = take (2 * length buf) enc" unfolding c(3) h assms(4) by simp
  have "flate_loop f (length buf) buf [] zs = Some (True, produced, zs\<lparr>internal := z, avail_out := 0\<rparr>)"
    using assms(3,5) c(1) f u p by (subst flate_loop.simps) (simp add: Let_def mult.commute, subst flate_loop.simps, simp)
  with c(2) p assms(5) show ?thesis unfolding h by (simp add: flate_some_def min_def)
qed

subsection \<open>Properties\<close>




definition storing_ws :: "(bytes \<times> nat) ws" where
  "storing_ws = (initial_state ([], 0))\<lparr>con_state := Open, on_message := True, pmce_enabled := True\<rparr>"

lemma storing_start: "rel_deflate (internal (pmce_deflate storing_ws)) ([], []) (dec deflated ([], []))"
  "rel_inflate (internal (pmce_inflate storing_ws)) [] (dec inflated [])"
  by (simp_all add: storing_ws_def initial_state_def rel_deflate_def rel_inflate_def deflated_def inflated_def)


text \<open>
  A short message is sent cut off. When the message is compressed to more than
  twice its length (with the tail, any message of a few octets), \<open>deflate\<close> takes all of it in the first call and fills
  the room; the loop looks only at the input and does not call again. The frame carries a strict
  beginning of the compressed message, and the rest stays in the stream, to come out in front of the next message.
\<close>

theorem short_message_cut:
  assumes "con_state s = Open" "pmce_enabled s" "zlib_ok (zdeflate env (pmce_client_no_context_takeover s)) D RD"
    "RD (internal (pmce_deflate s)) h (dec D h)" "dec D (ext D h buf True) = dec D h @ enc @ marker"
    "2 < length buf" "2 * length buf < length enc + 4"
    "fst (snd (zdeflate env (pmce_client_no_context_takeover s) (internal (pmce_deflate s)) buf (2 * length buf))) = length buf"
  shows "\<exists>s' p. ws_send env buf True cb s = Ret s' \<and> send_queue s' = send_queue s @ [(encode_frame 0xC2 (random_key env s) p, cb)] \<and>
    strict_prefix p enc \<and> length p = 2 * length buf - 4 \<and>
    RD (internal (pmce_deflate s')) (ext D h buf True) (dec D h @ take (2 * length buf) (enc @ marker))"
proof -
  have buf: "buf \<noteq> []" using assms(6) by auto
  have l: "2 * length buf < length (enc @ marker)" using assms(7) by (simp add: marker_def)
  from short_message_frame [OF assms(3,4) buf assms(5) l assms(8)] obtain zs where
    d: "flate_some (zdeflate env (pmce_client_no_context_takeover s)) buf [] (pmce_deflate s) = Ret (True, take (2 * length buf) (enc @ marker), zs)"
    "RD (internal zs) (ext D h buf True) (dec D h @ take (2 * length buf) (enc @ marker))" by blast
  let ?p = "take (2 * length buf - 4) enc"
  have len: "length (take (2 * length buf) (enc @ marker)) = 2 * length buf" using l by simp
  have p: "take (length (take (2 * length buf) (enc @ marker)) - 4) (take (2 * length buf) (enc @ marker)) = ?p"
    unfolding len using assms(7) by simp
  have op: "op_or op_fin op_binary = 0x82" "op_or 0x82 op_compressed = 0xC2" by (simp_all add: op_or_def opcode_defs)
  let ?s = "enqueue_frame env 0xC2 ?p cb (s\<lparr>pmce_deflate := zs\<rparr>)"
  have k: "random_key env (s\<lparr>pmce_deflate := zs\<rparr>) = random_key env s" by (simp add: random_key_def)
  have "deflate_some env buf [] s = Ret (True, take (2 * length buf) (enc @ marker), s\<lparr>pmce_deflate := zs\<rparr>)"
    by (simp add: deflate_some_def d(1))
  moreover have "clean_op 0x82 = op_binary" by (simp add: clean_op_def opcode_defs)
  moreover have "4 < length (take (2 * length buf) (enc @ marker))" unfolding len using assms(6) by simp
  ultimately have s: "ws_send env buf True cb s = Ret ?s"
    using assms(1,2) p by (simp only: ws_send_def ws_send_frame_def send_frame_def op Let_def if_True simp_thms)
      (simp add: opcode_defs)
  have "strict_prefix ?p enc" using assms(6,7) by (auto simp: strict_prefix_def take_is_prefix dest: arg_cong [where f = length])
  moreover have "length ?p = 2 * length buf - 4" using assms(7) by simp
  ultimately show ?thesis using s k d(2) by (intro exI [of _ ?s] exI [of _ ?p]) (simp add: enqueue_frame_def emit_def)
qed

theorem short_message_cut_witness:
  "\<exists>s' p. ws_send storing_env [1, 2, 3, 4, 5] True No_cb storing_ws = Ret s' \<and> map fst (send_queue s') = [encode_frame 0xC2 [7, 7, 7, 7] p] \<and>
    strict_prefix p (stored [1, 2, 3, 4, 5] @ [0]) \<and> length p = 6"
proof -
  let ?b = "[1, 2, 3, 4, 5] :: bytes" and ?e = "stored [1, 2, 3, 4, 5] @ [0]"
  have "con_state storing_ws = Open" "pmce_enabled storing_ws"
    "zlib_ok (zdeflate storing_env (pmce_client_no_context_takeover storing_ws)) deflated rel_deflate"
    by (simp_all add: storing_ws_def initial_state_def storing_env_def storing_deflate_ok)
  moreover have "dec deflated (ext deflated ([], []) ?b True) = dec deflated ([], []) @ ?e @ marker"
    by (simp add: deflated_def stored_out_def stored_def Let_def marker_def)
  moreover have "2 < length ?b" "2 * length ?b < length ?e + 4" by (simp_all add: stored_def Let_def)
  moreover have "fst (snd (zdeflate storing_env (pmce_client_no_context_takeover storing_ws) (internal (pmce_deflate storing_ws)) ?b (2 * length ?b))) = length ?b"
    by (simp add: storing_env_def storing_deflate_def Let_def split: prod.split)
  moreover have "random_key storing_env storing_ws = [7, 7, 7, 7]" by (simp add: random_key_def storing_env_def upt_rec)
  ultimately show ?thesis
    using short_message_cut [of storing_ws storing_env deflated rel_deflate "([], [])" ?b ?e No_cb] storing_start(1)
    by (fastforce simp: storing_ws_def initial_state_def)
qed

end
