(* ===== verification/Registry.thy ===== *)
theory Registry
  imports Executor
begin

text \<open>
  The handles of an executor over their lives: they are made, registered, awaited, cancelled, used,
  reset and destroyed, in any order, while the thread of the executor goes on. A step is the body of an
  operation as the thread of the executor runs it (\<open>push_wait\<close>); \<open>alive\<close> are the handles made and not
  destroyed, \<open>misused\<close> (a ghost) the handles that have been used in a way that the code
  cannot cope with and does not prevent. What the tables of the executor and of its multi say about handles is an invariant.
\<close>

record registry =
  reg_exec :: exec
  alive :: "nat set"
  misused :: "nat set"

text \<open>\<open>~handle\<close> is \<open>noexcept\<close>: \<open>None\<close> is the end of the program. \<open>res\<close> and \<open>res'\<close> are libcurl's answers.\<close>

definition handle_dtor :: "nat \<Rightarrow> int \<Rightarrow> int \<Rightarrow> exec \<Rightarrow> exec option" where
  "handle_dtor i res res' s = (case handle_leave i res res' s of (Some _, _) \<Rightarrow> None | (None, s) \<Rightarrow> Some s)"

text \<open>\<open>reset\<close> of a handle of the executor.\<close>

definition reset_handle :: "lib \<Rightarrow> nat \<Rightarrow> int \<Rightarrow> int \<Rightarrow> exec \<Rightarrow> cpp_error option \<times> exec" where
  "reset_handle lib i res res' s =
     (case handle_leave i res res' s of
        (Some e, s) \<Rightarrow> (Some e, s)
      | (None, s) \<Rightarrow> (case handle_reset lib (handles s i) of (e, h) \<Rightarrow> (e, upd_handle i h s)))"

definition exec_start :: exec where
  "exec_start = \<lparr>handles = (\<lambda>_. handle_blank), m_queue = [], m_scheduled = [], m_connect_only_handles = [], m_exit = False, performed = []\<rparr>"

text \<open>
  Anything can be done with a handle that is alive. \<open>used\<close> is any operation that concerns the handle
  alone. A handle is misused from the moment on when it, while it is registered or its cancellation is under
  way, changes whether it is connect-only; when its await is cancelled though it is connect-only (\<open>exec\<close>
  refuses such handles, \<open>execute_async\<close> does not); and when it is destroyed while its cancellation is under way.
\<close>

definition cancelling :: "nat \<Rightarrow> exec \<Rightarrow> bool" where
  "cancelling i s \<longleftrightarrow> (\<exists>j \<in> set (m_queue s). case j of Abort k _ \<Rightarrow> k = i | _ \<Rightarrow> False)"

definition misuse_if :: "bool \<Rightarrow> nat \<Rightarrow> registry \<Rightarrow> registry" where
  "misuse_if b i a = (if b then a\<lparr>misused := insert i (misused a)\<rparr> else a)"

inductive reg_step :: "lib \<Rightarrow> (job \<Rightarrow> job list) \<Rightarrow> registry \<Rightarrow> registry \<Rightarrow> bool" for lib pushes where
  made: "i \<notin> alive a \<Longrightarrow> handle_ctor lib True = (None, h) \<Longrightarrow>
    reg_step lib pushes a (a\<lparr>reg_exec := upd_handle i h (reg_exec a), alive := insert i (alive a)\<rparr>)"
| added: "i \<in> alive a \<Longrightarrow> exec_add_handle i res (reg_exec a) = (e, s) \<Longrightarrow> reg_step lib pushes a (a\<lparr>reg_exec := s\<rparr>)"
| removed: "i \<in> alive a \<Longrightarrow> exec_remove_handle i res (reg_exec a) = (e, s) \<Longrightarrow> reg_step lib pushes a (a\<lparr>reg_exec := s\<rparr>)"
| awaited: "i \<in> alive a \<Longrightarrow> exec_await_suspend i cb res (reg_exec a) = (e, s) \<Longrightarrow> reg_step lib pushes a (a\<lparr>reg_exec := s\<rparr>)"
| cancelled: "i \<in> alive a \<Longrightarrow> b = is_connect_only (handles (reg_exec a) i) \<Longrightarrow>
    reg_step lib pushes a (misuse_if b i (a\<lparr>reg_exec := stop_callback i (reg_exec a)\<rparr>))"
| used: "i \<in> alive a \<Longrightarrow> h_multi h = h_multi (handles (reg_exec a) i) \<Longrightarrow> h_executor h = h_executor (handles (reg_exec a) i) \<Longrightarrow>
    b = ((h_executor h \<noteq> None \<or> cancelling i (reg_exec a)) \<and> is_connect_only h \<noteq> is_connect_only (handles (reg_exec a) i)) \<Longrightarrow>
    reg_step lib pushes a (misuse_if b i (a\<lparr>reg_exec := upd_handle i h (reg_exec a)\<rparr>))"
| reset: "i \<in> alive a \<Longrightarrow> reset_handle lib i res res' (reg_exec a) = (e, s) \<Longrightarrow> reg_step lib pushes a (a\<lparr>reg_exec := s\<rparr>)"
| destroyed: "i \<in> alive a \<Longrightarrow> handle_dtor i res res' (reg_exec a) = Some s \<Longrightarrow> b = cancelling i (reg_exec a) \<Longrightarrow>
    reg_step lib pushes a (misuse_if b i (a\<lparr>reg_exec := s, alive := alive a - {i}\<rparr>))"
| event: "h_multi (handles (reg_exec a) (msg_handle evt)) = Some 0 \<Longrightarrow> reg_step lib pushes a (a\<lparr>reg_exec := handle_event evt (reg_exec a)\<rparr>)"
| runs: "m_queue (reg_exec a) = j # q \<Longrightarrow> reg_step lib pushes a (a\<lparr>reg_exec := run_job pushes j ((reg_exec a)\<lparr>m_queue := q\<rparr>)\<rparr>)"
| polled: "fst ` set ready \<subseteq> set (m_connect_only_handles (reg_exec a)) \<Longrightarrow> reg_step lib pushes a (a\<lparr>reg_exec := after_poll lib ready (reg_exec a)\<rparr>)"

subsection \<open>The invariant\<close>

text \<open>
  For one handle that is not misused: its two tables and the cancellations under way fit it. The table of
  connect-only handles has each once.
\<close>

definition fits :: "exec \<Rightarrow> nat set \<Rightarrow> nat set \<Rightarrow> nat \<Rightarrow> bool" where
  "fits s live bad i \<longleftrightarrow> i \<in> bad \<or>
     (i \<in> set (m_connect_only_handles s) \<longrightarrow> i \<in> live \<and> h_executor (handles s i) = Some 0 \<and> is_connect_only (handles s i)) \<and>
     (h_multi (handles s i) \<noteq> None \<longrightarrow> i \<in> live \<and> h_multi (handles s i) = Some 0) \<and>
     (cancelling i s \<longrightarrow> i \<in> live \<and> \<not> is_connect_only (handles s i))"

definition reg_ok :: "registry \<Rightarrow> bool" where
  "reg_ok a \<longleftrightarrow> distinct (m_connect_only_handles (reg_exec a)) \<and> (\<forall>i. fits (reg_exec a) (alive a) (misused a) i)"

lemma cancelling_simps [simp]:
  "cancelling k (s\<lparr>handles := x\<rparr>) = cancelling k s" "cancelling k (s\<lparr>m_connect_only_handles := y\<rparr>) = cancelling k s"
  "cancelling k (upd_handle i h s) = cancelling k s"
  "cancelling k (exec_push j s) \<longleftrightarrow> cancelling k s \<or> (case j of Abort l _ \<Rightarrow> l = k | _ \<Rightarrow> False)"
  by (auto simp: cancelling_def upd_handle_def exec_push_def)

lemma fits_other:
  assumes "fits s live bad k" "handles s' k = handles s k"
    "k \<in> set (m_connect_only_handles s') \<longrightarrow> k \<in> set (m_connect_only_handles s)" "cancelling k s' \<longrightarrow> cancelling k s"
    "k \<in> live \<longrightarrow> k \<in> live'" "k \<in> bad \<longrightarrow> k \<in> bad'"
  shows "fits s' live' bad' k"
  using assms by (auto simp: fits_def)

text \<open>Most steps touch one handle: the others keep fitting.\<close>

lemma reg_ok_one:
  assumes "reg_ok a" "\<And>k. k \<noteq> i \<Longrightarrow> handles s k = handles (reg_exec a) k"
    "\<And>k. k \<noteq> i \<Longrightarrow> k \<in> set (m_connect_only_handles s) \<longrightarrow> k \<in> set (m_connect_only_handles (reg_exec a))"
    "\<And>k. k \<noteq> i \<Longrightarrow> cancelling k s \<longrightarrow> cancelling k (reg_exec a)" "\<And>k. k \<noteq> i \<Longrightarrow> k \<in> alive a \<longrightarrow> k \<in> live"
    "distinct (m_connect_only_handles s)" "fits s live (misused (misuse_if b i a)) i"
  shows "reg_ok (misuse_if b i (a\<lparr>reg_exec := s, alive := live\<rparr>))"
proof -
  have "fits s live (misused (misuse_if b i a)) k" for k
    using fits_other [of "reg_exec a" "alive a" "misused a" k s live] assms by (cases "k = i") (auto simp: reg_ok_def misuse_if_def)
  with assms(6) show ?thesis by (cases b) (simp_all add: reg_ok_def misuse_if_def)
qed

lemma reg_ok_mark:
  assumes "reg_ok a" "\<And>k. k \<noteq> i \<Longrightarrow> handles s k = handles (reg_exec a) k"
    "\<And>k. k \<noteq> i \<Longrightarrow> k \<in> set (m_connect_only_handles s) \<longrightarrow> k \<in> set (m_connect_only_handles (reg_exec a))"
    "\<And>k. k \<noteq> i \<Longrightarrow> cancelling k s \<longrightarrow> cancelling k (reg_exec a)"
    "distinct (m_connect_only_handles s)" "\<not> b \<Longrightarrow> fits s (alive a) (misused a) i"
  shows "reg_ok (misuse_if b i (a\<lparr>reg_exec := s\<rparr>))"
proof -
  have f: "fits s (alive a) (misused (misuse_if b i a)) i" using assms(6) by (cases b) (simp_all add: misuse_if_def fits_def)
  have "reg_ok (misuse_if b i (a\<lparr>reg_exec := s, alive := alive a\<rparr>))" by (rule reg_ok_one [OF assms(1-4) _ assms(5) f]) simp_all
  then show ?thesis by simp
qed

lemma reg_ok_live:
  assumes "reg_ok a" "\<And>k. k \<noteq> i \<Longrightarrow> handles s k = handles (reg_exec a) k"
    "\<And>k. k \<noteq> i \<Longrightarrow> k \<in> set (m_connect_only_handles s) \<longrightarrow> k \<in> set (m_connect_only_handles (reg_exec a))"
    "\<And>k. k \<noteq> i \<Longrightarrow> cancelling k s \<longrightarrow> cancelling k (reg_exec a)"
    "distinct (m_connect_only_handles s)" "fits s (alive a) (misused a) i"
  shows "reg_ok (a\<lparr>reg_exec := s\<rparr>)"
  using reg_ok_mark [of a i s False] assms by (simp add: misuse_if_def)

lemma fitsD: "reg_ok a \<Longrightarrow> fits (reg_exec a) (alive a) (misused a) i \<and> distinct (m_connect_only_handles (reg_exec a))"
  by (simp add: reg_ok_def)

lemma connect_only_fields [simp]:
  "is_connect_only (h\<lparr>h_executor := x\<rparr>) = is_connect_only h" "is_connect_only (h\<lparr>h_multi := y\<rparr>) = is_connect_only h"
  "is_connect_only (h\<lparr>m_done_callback := z\<rparr>) = is_connect_only h" "is_connect_only (h\<lparr>m_flags := 0\<rparr>) = False"
  by (simp_all add: is_connect_only_def)

lemma added_ok:
  assumes "reg_ok a" "i \<in> alive a" "exec_add_handle i res (reg_exec a) = (e, s)"
  shows "reg_ok (a\<lparr>reg_exec := s\<rparr>)"
  using assms(2,3) fitsD [OF assms(1), of i]
  by (intro reg_ok_live [OF assms(1), of i])
    (auto simp: exec_add_handle_def multi_add_handle_def multi_result_def upd_handle_def fits_def Let_def split: if_splits prod.splits option.splits)

lemma remove_effect:
  assumes "exec_remove_handle i res s = (e, s')"
  shows "\<exists>h. s' = s\<lparr>handles := (handles s)(i := h),
      m_connect_only_handles := (if is_connect_only (handles s i) then remove1 i (m_connect_only_handles s) else m_connect_only_handles s)\<rparr> \<and>
    is_connect_only h = is_connect_only (handles s i) \<and> h_multi h \<in> {h_multi (handles s i), None}"
  using assms
  by (auto simp: exec_remove_handle_def multi_remove_handle_def multi_result_def upd_handle_def Let_def
      split: if_splits prod.splits option.splits intro!: exI [of _ "handles s' i"])

lemma removed_fits:
  assumes "reg_ok a" "exec_remove_handle i res (reg_exec a) = (e, s)"
  shows "reg_ok (a\<lparr>reg_exec := s\<rparr>) \<and> (i \<notin> misused a \<longrightarrow> i \<notin> set (m_connect_only_handles s))"
proof -
  note f = fitsD [OF assms(1), of i]
  obtain h where s: "s = (reg_exec a)\<lparr>handles := (handles (reg_exec a))(i := h), m_connect_only_handles :=
        (if is_connect_only (handles (reg_exec a) i) then remove1 i (m_connect_only_handles (reg_exec a)) else m_connect_only_handles (reg_exec a))\<rparr>"
      and h: "is_connect_only h = is_connect_only (handles (reg_exec a) i)" "h_multi h \<in> {h_multi (handles (reg_exec a) i), None}"
    using remove_effect [OF assms(2)] by blast
  have d: "distinct (m_connect_only_handles s)" using f by (simp add: s distinct_remove1)
  have n: "i \<notin> misused a \<longrightarrow> i \<notin> set (m_connect_only_handles s)" using f by (auto simp: s fits_def)
  have "reg_ok (a\<lparr>reg_exec := s\<rparr>)"
  proof (rule reg_ok_live [OF assms(1), of i])
    show "k \<in> set (m_connect_only_handles s) \<longrightarrow> k \<in> set (m_connect_only_handles (reg_exec a))" for k
      using set_remove1_subset [of i "m_connect_only_handles (reg_exec a)"] by (auto simp: s)
    show "fits s (alive a) (misused a) i" using f h n unfolding fits_def by (auto simp: s)
  qed (simp_all add: d, simp_all add: s)
  with n show ?thesis by blast
qed

lemma leave_alt:
  "handle_leave i res res' s =
    (case (if h_executor (handles s i) \<noteq> None then exec_remove_handle i res s else (None, s)) of
       (Some e, s) \<Rightarrow> (Some e, s)
     | (None, s) \<Rightarrow> (case h_multi (handles s i) of None \<Rightarrow> (None, s)
         | Some m \<Rightarrow> (fst (multi_remove_handle m res' (handles s i)), upd_handle i (snd (multi_remove_handle m res' (handles s i))) s)))"
  by (simp add: handle_leave_def split: prod.splits option.splits)

lemma left_ok:
  assumes "reg_ok a" "handle_leave i res res' (reg_exec a) = (e, s)"
  shows "reg_ok (a\<lparr>reg_exec := s\<rparr>) \<and> (e = None \<longrightarrow> (i \<notin> misused a \<longrightarrow> i \<notin> set (m_connect_only_handles s)) \<and> h_multi (handles s i) = None)"
proof -
  obtain e1 s1 where r: "(if h_executor (handles (reg_exec a) i) \<noteq> None then exec_remove_handle i res (reg_exec a) else (None, reg_exec a)) = (e1, s1)"
    by (cases "if h_executor (handles (reg_exec a) i) \<noteq> None then exec_remove_handle i res (reg_exec a) else (None, reg_exec a)") blast
  have s1: "reg_ok (a\<lparr>reg_exec := s1\<rparr>) \<and> (i \<notin> misused a \<longrightarrow> i \<notin> set (m_connect_only_handles s1))"
    using r assms(1) removed_fits [OF assms(1), of i res e1 s1] fitsD [OF assms(1), of i]
    by (auto simp: fits_def split: if_splits)
  show ?thesis
  proof (cases "e1 = None \<and> h_multi (handles s1 i) \<noteq> None")
    case False
    then have "s = s1 \<and> (e = None \<longrightarrow> h_multi (handles s1 i) = None)" using assms(2) unfolding leave_alt r by (auto split: option.splits)
    with s1 show ?thesis by simp
  next
    case True
    then obtain m where m: "h_multi (handles s1 i) = Some m" by blast
    let ?h = "snd (multi_remove_handle m res' (handles s1 i))"
    have s: "s = upd_handle i ?h s1" "e = fst (multi_remove_handle m res' (handles s1 i))"
      using assms(2) True m unfolding leave_alt r by auto
    have "reg_ok (a\<lparr>reg_exec := s1, reg_exec := upd_handle i ?h s1\<rparr>)"
      by (rule reg_ok_live [OF conjunct1 [OF s1], of i])
        (use s1 fitsD [OF conjunct1 [OF s1], of i] in \<open>auto simp: upd_handle_def fits_def multi_remove_handle_def multi_result_def split: option.splits if_splits\<close>)
    moreover have "e = None \<longrightarrow> h_multi ?h = None" unfolding s by (auto simp: multi_remove_handle_def multi_result_def m split: if_splits)
    ultimately show ?thesis using s1 by (auto simp: s upd_handle_def)
  qed
qed

lemma cancelled_ok:
  assumes "reg_ok a" "i \<in> alive a" "b = is_connect_only (handles (reg_exec a) i)"
  shows "reg_ok (misuse_if b i (a\<lparr>reg_exec := stop_callback i (reg_exec a)\<rparr>))"
proof (rule reg_ok_mark [OF assms(1), of i])
  note d = stop_callback_def upd_handle_def exec_push_def Let_def
  show "fits (stop_callback i (reg_exec a)) (alive a) (misused a) i" if "\<not> b"
    using assms(2,3) that fitsD [OF assms(1), of i] by (auto simp: d fits_def cancelling_def split: option.splits if_splits)
  show "cancelling k (stop_callback i (reg_exec a)) \<longrightarrow> cancelling k (reg_exec a)" if "k \<noteq> i" for k
    using that by (auto simp: d cancelling_def split: option.splits)
  show "distinct (m_connect_only_handles (stop_callback i (reg_exec a)))"
    using fitsD [OF assms(1)] by (simp add: d split: option.splits)
qed (auto simp: stop_callback_def upd_handle_def exec_push_def Let_def split: option.splits)

lemma event_ok:
  assumes "reg_ok a"
  shows "reg_ok (a\<lparr>reg_exec := handle_event evt (reg_exec a)\<rparr>)"
proof (rule reg_ok_live [OF assms(1), of "msg_handle evt"])
  note d = handle_event_def upd_handle_def exec_push_def Let_def
  show "fits (handle_event evt (reg_exec a)) (alive a) (misused a) (msg_handle evt)"
    using fitsD [OF assms(1), of "msg_handle evt"]
    by (auto simp: d fits_def multi_remove_handle_def multi_result_def cancelling_def split: option.splits)
  show "cancelling k (handle_event evt (reg_exec a)) \<longrightarrow> cancelling k (reg_exec a)" for k
    by (auto simp: d cancelling_def split: option.splits)
  show "distinct (m_connect_only_handles (handle_event evt (reg_exec a)))"
    using fitsD [OF assms(1)] by (simp add: d split: option.splits)
qed (auto simp: handle_event_def upd_handle_def exec_push_def Let_def split: option.splits)

lemma run_ok:
  assumes "reg_ok a" "m_queue (reg_exec a) = j # q" "\<forall>j. list_all is_User (pushes j)"
  shows "reg_ok (a\<lparr>reg_exec := run_job pushes j ((reg_exec a)\<lparr>m_queue := q\<rparr>)\<rparr>)"
proof -
  have u: "cancelling k (run_job pushes j ((reg_exec a)\<lparr>m_queue := q\<rparr>)) \<longrightarrow> cancelling k (reg_exec a)" for k
    using assms(2,3) by (cases j) (fastforce simp: run_job_def upd_handle_def Let_def cancelling_def list_all_iff is_User_def)+
  define i where "i = (case j of Abort i cb \<Rightarrow> i | _ \<Rightarrow> 0)"
  show ?thesis
  proof (rule reg_ok_live [OF assms(1), of i])
    have "cancelling i (reg_exec a)" if "j = Abort k cb" for k cb using assms(2) that by (simp add: i_def cancelling_def)
    then show "fits (run_job pushes j ((reg_exec a)\<lparr>m_queue := q\<rparr>)) (alive a) (misused a) i"
      using fitsD [OF assms(1), of i] u [of i] unfolding fits_def
      by (cases j) (auto simp: run_job_def upd_handle_def Let_def i_def multi_remove_handle_def multi_result_def)
  qed (use u fitsD [OF assms(1)] in \<open>auto simp: run_job_def upd_handle_def Let_def i_def split: job.splits\<close>)
qed

lemma pause_same: "is_connect_only (pause lib d h) = is_connect_only h" "h_multi (pause lib d h) = h_multi h" "h_executor (pause lib d h) = h_executor h"
  using flag_algebra(13) [of "m_flags h" d] by (simp_all add: pause_def curl_pause_def Let_def is_connect_only_def flag_values)

lemma ready_same:
  "\<exists>h. ready_handle lib i rin rout res s = s\<lparr>handles := (handles s)(i := h)\<rparr> \<and> is_connect_only h = is_connect_only (handles s i) \<and>
    h_multi h = h_multi (handles s i) \<and> h_executor h = h_executor (handles s i)"
  by (rule exI [of _ "handles (ready_handle lib i rin rout res s) i"]) (simp add: ready_handle_def Let_def upd_handle_def pause_same)

lemma polled_ok:
  assumes "reg_ok a"
  shows "reg_ok (a\<lparr>reg_exec := after_poll lib ready (reg_exec a)\<rparr>)"
  using assms unfolding after_poll_def
proof (induction ready arbitrary: a)
  case (Cons r ready)
  obtain i rin rout res where r: "r = (i, rin, rout, res)" by (cases r)
  let ?s = "ready_handle lib i rin rout res (reg_exec a)"
  obtain h where h: "?s = (reg_exec a)\<lparr>handles := (handles (reg_exec a))(i := h)\<rparr>" "is_connect_only h = is_connect_only (handles (reg_exec a) i)"
      "h_multi h = h_multi (handles (reg_exec a) i)" "h_executor h = h_executor (handles (reg_exec a) i)"
    using ready_same by blast
  have "reg_ok (a\<lparr>reg_exec := ?s\<rparr>)"
    by (rule reg_ok_live [OF Cons.prems, of i]) (use fitsD [OF Cons.prems, of i] h(2-) in \<open>auto simp: h(1) fits_def\<close>)
  from Cons.IH [OF this] show ?case by (simp add: r)
qed simp

lemma added_queue:
  "exec_add_handle i res s = (e, s') \<Longrightarrow> m_queue s' = m_queue s"
  "exec_remove_handle i res s = (e, s') \<Longrightarrow> m_queue s' = m_queue s"
  "handle_leave i res res' s = (e, s') \<Longrightarrow> m_queue s' = m_queue s"
proof -
  show a: "exec_remove_handle i res s = (e, s') \<Longrightarrow> m_queue s' = m_queue s" for e s' using remove_effect by fastforce
  show "exec_add_handle i res s = (e, s') \<Longrightarrow> m_queue s' = m_queue s"
    by (auto simp: exec_add_handle_def upd_handle_def Let_def split: if_splits prod.splits)
  show "handle_leave i res res' s = (e, s') \<Longrightarrow> m_queue s' = m_queue s"
    using a [of "fst (exec_remove_handle i res s)" "snd (exec_remove_handle i res s)"] unfolding leave_alt
    by (auto simp: upd_handle_def split: if_splits prod.splits option.splits)
qed

lemma used_mark:
  assumes "reg_ok a" "i \<in> alive a" "h_multi h \<in> {h_multi (handles (reg_exec a) i), None}" "h_executor h = h_executor (handles (reg_exec a) i)"
    "\<not> b \<Longrightarrow> i \<in> misused a \<or> i \<notin> set (m_connect_only_handles (reg_exec a)) \<and> \<not> (cancelling i (reg_exec a) \<and> is_connect_only h) \<or>
     is_connect_only h = is_connect_only (handles (reg_exec a) i)"
  shows "reg_ok (misuse_if b i (a\<lparr>reg_exec := upd_handle i h (reg_exec a)\<rparr>))"
  by (rule reg_ok_mark [OF assms(1), of i]) (use assms(2-) fitsD [OF assms(1), of i] in \<open>auto simp: upd_handle_def fits_def\<close>)

lemma used_ok:
  assumes "reg_ok a" "i \<in> alive a" "h_multi h \<in> {h_multi (handles (reg_exec a) i), None}" "h_executor h = h_executor (handles (reg_exec a) i)"
    "i \<in> misused a \<or> i \<notin> set (m_connect_only_handles (reg_exec a)) \<and> \<not> (cancelling i (reg_exec a) \<and> is_connect_only h) \<or>
     is_connect_only h = is_connect_only (handles (reg_exec a) i)"
  shows "reg_ok (a\<lparr>reg_exec := upd_handle i h (reg_exec a)\<rparr>)"
  using used_mark [of a i h False] assms by (simp add: misuse_if_def)

lemma handle_reset_fields:
  "h_multi (snd (handle_reset lib h)) = h_multi h" "h_executor (snd (handle_reset lib h)) = h_executor h"
  "is_connect_only (snd (handle_reset lib h)) \<longrightarrow> is_connect_only h"
  by (auto simp: handle_reset_def next_do_def set_option_ptr_def easy_def Let_def is_connect_only_def split: option.splits prod.splits)

lemma reset_ok:
  assumes "reg_ok a" "i \<in> alive a" "reset_handle lib i res res' (reg_exec a) = (e, s)"
  shows "reg_ok (a\<lparr>reg_exec := s\<rparr>)"
proof -
  obtain e1 s1 where l: "handle_leave i res res' (reg_exec a) = (e1, s1)" by (cases "handle_leave i res res' (reg_exec a)") blast
  note k = left_ok [OF assms(1) l]
  show ?thesis
  proof (cases e1)
    case None
    let ?h = "snd (handle_reset lib (handles s1 i))"
    have "reg_ok (a\<lparr>reg_exec := s1, reg_exec := upd_handle i ?h s1\<rparr>)"
    proof -
      have "reg_ok (a\<lparr>reg_exec := s1\<rparr>)" using k by blast
      from used_ok [OF this, of i ?h] fitsD [OF this, of i] show ?thesis
        using assms(2) k None handle_reset_fields [of lib "handles s1 i"] by (auto simp: fits_def)
    qed
    moreover have "s = upd_handle i ?h s1" using assms(3) l None by (simp add: reset_handle_def split: prod.splits)
    ultimately show ?thesis by simp
  qed (use assms(3) k l in \<open>simp add: reset_handle_def\<close>)
qed

lemma awaited_ok:
  assumes "reg_ok a" "i \<in> alive a" "exec_await_suspend i cb res (reg_exec a) = (e, s)"
  shows "reg_ok (a\<lparr>reg_exec := s\<rparr>)"
proof -
  let ?a = "a\<lparr>reg_exec := upd_handle i (set_donefunction cb (handles (reg_exec a) i)) (reg_exec a)\<rparr>"
  have "reg_ok ?a" using assms(1,2) by (intro used_ok) (simp_all add: set_donefunction_def)
  from added_ok [OF this, of i res e s] assms(2,3) show ?thesis by (simp add: exec_await_suspend_def)
qed

lemma destroyed_ok:
  assumes "reg_ok a" "handle_dtor i res res' (reg_exec a) = Some s" "b = cancelling i (reg_exec a)"
  shows "reg_ok (misuse_if b i (a\<lparr>reg_exec := s, alive := alive a - {i}\<rparr>))"
proof -
  have l: "handle_leave i res res' (reg_exec a) = (None, s)" using assms(2) by (auto simp: handle_dtor_def split: prod.splits option.splits)
  from left_ok [OF assms(1) l] have k: "reg_ok (a\<lparr>reg_exec := s\<rparr>)" "i \<notin> misused a \<longrightarrow> i \<notin> set (m_connect_only_handles s)"
    "h_multi (handles s i) = None" by simp_all
  have c: "cancelling i s = b" using assms(3) added_queue(3) [OF l] by (simp add: cancelling_def)
  from reg_ok_one [OF k(1), of i s "alive a - {i}" b] k c fitsD [OF k(1)] show ?thesis by (auto simp: fits_def misuse_if_def)
qed

lemma made_ok:
  assumes "reg_ok a" "i \<notin> alive a" "handle_ctor lib True = (None, h)"
  shows "reg_ok (a\<lparr>reg_exec := upd_handle i h (reg_exec a), alive := insert i (alive a)\<rparr>)"
proof -
  have "h_multi h = None"
    using assms(3) by (auto simp: handle_ctor_def next_do_def set_option_ptr_def set_option_bool_def set_option_long_def easy_def Let_def
        handle_blank_def split: option.splits prod.splits if_splits)
  then have "fits (upd_handle i h (reg_exec a)) (insert i (alive a)) (misused a) i"
    using assms(2) fitsD [OF assms(1), of i] by (auto simp: fits_def) (auto simp: upd_handle_def)
  then show ?thesis using fitsD [OF assms(1)] reg_ok_one [OF assms(1), of i "upd_handle i h (reg_exec a)" "insert i (alive a)" False]
    by (simp add: misuse_if_def upd_handle_def)
qed

lemma reg_step_ok:
  assumes "reg_step lib pushes a b" "reg_ok a" "\<forall>j. list_all is_User (pushes j)"
  shows "reg_ok b"
  using assms
proof (induction rule: reg_step.induct)
  case (used i a h)
  then show ?case using fitsD [OF used.prems(1), of i] by (intro used_mark) (auto simp: fits_def)
qed (simp_all add: made_ok added_ok removed_fits awaited_ok cancelled_ok reset_ok destroyed_ok event_ok run_ok polled_ok)

definition reg_start :: registry where
  "reg_start = \<lparr>reg_exec = exec_start, alive = {}, misused = {}\<rparr>"

lemma reg_reach_ok:
  assumes "(reg_step lib pushes)\<^sup>*\<^sup>* reg_start a" "\<forall>j. list_all is_User (pushes j)"
  shows "reg_ok a"
  using assms
proof (induction rule: rtranclp_induct)
  case base
  show ?case by (simp add: reg_ok_def fits_def reg_start_def exec_start_def handle_blank_def cancelling_def)
qed (use reg_step_ok in blast)

text \<open>
  C20: Whatever is done with the handles of an executor, in any order: a handle that has been destroyed, and
  was never misused (\<open>reg_step\<close> says when it is), is forgotten. It is neither in the table of connect-only
  handles nor in the multi, and the thread never polls for it.
\<close>

theorem destroyed_handle_forgotten:
  assumes "(reg_step lib pushes)\<^sup>*\<^sup>* reg_start a" "\<forall>j. list_all is_User (pushes j)" "i \<notin> alive a" "i \<notin> misused a"
  shows "i \<notin> set (m_connect_only_handles (reg_exec a)) \<and> h_multi (handles (reg_exec a) i) = None \<and>
    i \<notin> fst ` set (poll_set sockets (reg_exec a))"
  using fitsD [OF reg_reach_ok [OF assms(1,2)], of i] assms(3,4)
  by (auto simp: fits_def poll_set_def)

definition registry_example :: registry where
  "registry_example = \<lparr>reg_exec = exec_start\<lparr>handles := (\<lambda>_. handle_blank)(3 := handle_blank\<lparr>m_flags := 2, h_executor := Some 0\<rparr>),
     m_connect_only_handles := [3]\<rparr>, alive = {3}, misused = {}\<rparr>"

theorem destroyed_handle_forgotten_witness:
  "\<exists>a b. (reg_step (\<lambda>_ _. 0) (\<lambda>_. []))\<^sup>*\<^sup>* reg_start a \<and> m_connect_only_handles (reg_exec a) = [3] \<and>
     reg_step (\<lambda>_ _. 0) (\<lambda>_. []) a b \<and> 3 \<notin> alive b \<and> m_connect_only_handles (reg_exec b) = []"
proof -
  let ?step = "reg_step (\<lambda>_ _. 0) (\<lambda>_. [])"
  let ?with = "\<lambda>h. \<lparr>reg_exec = upd_handle 3 h exec_start, alive = {3}, misused = {}\<rparr>"
  obtain h0 where h0: "handle_ctor (\<lambda>_ _. 0) True = (None, h0)" "h_multi h0 = None" "h_executor h0 = None"
    by (simp add: handle_ctor_def next_do_def set_option_ptr_def set_option_bool_def set_option_long_def easy_def Let_def handle_blank_def
        opt_private_def opt_nosignal_def option_base_def type_object_def type_function_def type_long_def opt_connect_only_def opt_verbose_def)
  define h1 where "h1 = h0\<lparr>m_flags := 2\<rparr>"
  have c: "is_connect_only h1" by (simp add: h1_def is_connect_only_def flag_values)
  have e: "h1\<lparr>h_executor := None\<rparr> = h1" by (rule handle.equality) (simp_all add: h1_def h0)
  have m1: "h_multi h1 = None" "h_executor h1 = None" by (simp_all add: h1_def h0)
  define a where "a = \<lparr>reg_exec = (upd_handle 3 (h1\<lparr>h_executor := Some 0\<rparr>) (upd_handle 3 h1 (upd_handle 3 h0 exec_start)))\<lparr>m_connect_only_handles := [3]\<rparr>, alive = {3}, misused = {}\<rparr>"
  define b where "b = \<lparr>reg_exec = (upd_handle 3 h1 exec_start)\<lparr>m_connect_only_handles := []\<rparr>, alive = {}, misused = {}\<rparr>"
  have "?step reg_start (?with h0)" using reg_step.made [of 3 reg_start "\<lambda>_ _. 0" h0] h0(1) by (simp add: reg_start_def)
  moreover have "?step (?with h0) (\<lparr>reg_exec = upd_handle 3 h1 (upd_handle 3 h0 exec_start), alive = {3}, misused = {}\<rparr>)"
    using reg_step.used [OF _ _ _ refl, of 3 "?with h0" h1 "\<lambda>_ _. 0" "\<lambda>_. []"] h0 m1 by (simp add: upd_handle_def cancelling_def exec_start_def misuse_if_def)
  moreover have "?step (\<lparr>reg_exec = upd_handle 3 h1 (upd_handle 3 h0 exec_start), alive = {3}, misused = {}\<rparr>) a"
    using reg_step.added [of 3 "\<lparr>reg_exec = upd_handle 3 h1 (upd_handle 3 h0 exec_start), alive = {3}, misused = {}\<rparr>" 0 None "reg_exec a" "\<lambda>_ _. 0" "\<lambda>_. []"] c
    by (simp add: a_def exec_add_handle_def upd_handle_def exec_start_def)
  ultimately have r: "?step\<^sup>*\<^sup>* reg_start a" by (meson converse_rtranclp_into_rtranclp rtranclp.rtrancl_refl)
  have d: "handle_dtor 3 0 0 (reg_exec a) = Some (reg_exec b)"
    using c m1 by (simp add: handle_dtor_def leave_alt exec_remove_handle_def a_def b_def upd_handle_def) (simp only: e)
  have "?step a b"
    using reg_step.destroyed [OF _ d refl, of "\<lambda>_ _. 0" "\<lambda>_. []"] by (simp add: a_def b_def cancelling_def upd_handle_def exec_start_def misuse_if_def)
  moreover have "3 \<notin> set (m_connect_only_handles (reg_exec b))"
    using destroyed_handle_forgotten [OF rtranclp.rtrancl_into_rtrancl [OF r \<open>?step a b\<close>], of 3] by (simp add: b_def)
  ultimately show ?thesis using r by (intro exI [of _ a] exI [of _ b]) (simp add: a_def b_def)
qed

subsection \<open>What goes wrong\<close>

text \<open>
  \<open>add_handle\<close> enters the executor into the handle before it asks the multi. A handle that is in
  another multi is refused with an exception, but keeps the executor: while it could be destroyed before,
  its destructor now throws, which ends the program.
\<close>

theorem failed_add_poisons_handle:
  assumes "h_multi (handles s i) = Some m" "m \<noteq> 0" "h_executor (handles s i) = None" "\<not> is_connect_only (handles s i)"
  shows "fst (exec_add_handle i res s) = Some Logic_error \<and> handle_dtor i res res' (snd (exec_add_handle i res s)) = None \<and>
    handle_dtor i res 0 s \<noteq> None"
  using assms
  by (simp add: exec_add_handle_def multi_add_handle_def handle_dtor_def leave_alt exec_remove_handle_def multi_remove_handle_def
      multi_result_def upd_handle_def)

theorem failed_add_poisons_handle_witness:
  "handle_dtor 3 0 0 (snd (exec_add_handle 3 0 (exec_start\<lparr>handles := (\<lambda>_. handle_blank\<lparr>h_multi := Some 1\<rparr>)\<rparr>))) = None"
  using failed_add_poisons_handle [of "exec_start\<lparr>handles := (\<lambda>_. handle_blank\<lparr>h_multi := Some 1\<rparr>)\<rparr>" 3 1]
  by (simp add: is_connect_only_def handle_blank_def)

text \<open>
  C36: A connect-only handle that is registered and then loses the option, or that was awaited and is
  cancelled (\<open>execute_async\<close> does not make the check of \<open>exec\<close>), stays in the table when it is
  destroyed: the thread goes on polling a handle that no longer exists.
\<close>

theorem dead_handle_polled:
  assumes "i \<in> set (m_connect_only_handles s)" "is_connect_only (handles s i)" "h_multi (handles s i) = None"
    "set_option_bool lib opt_connect_only False (handles s i) = (None, h)"
    "s' \<in> {upd_handle i h s, run_job pushes (Abort i cb) s}" "list_all is_User (pushes (Done_cb cb 42))"
  shows "\<exists>s''. handle_dtor i 0 0 s' = Some s'' \<and> i \<in> set (m_connect_only_handles s'')"
proof -
  have h: "\<not> is_connect_only h" "h_multi h = None"
    using assms(3,4) flag_algebra(10) [of "m_flags (handles s i)"]
    by (auto simp: set_option_bool_def set_option_long_def easy_def next_do_def Let_def is_connect_only_def flag_values opt_connect_only_def
        split: if_splits option.splits)
  show ?thesis using assms h
    by (auto simp: handle_dtor_def leave_alt exec_remove_handle_def multi_remove_handle_def run_job_def upd_handle_def Let_def)
qed

theorem dead_handle_polled_witness:
  "\<exists>h s''. set_option_bool (\<lambda>_ _. 0) opt_connect_only False (handles (reg_exec registry_example) 3) = (None, h) \<and>
     handle_dtor 3 0 0 (upd_handle 3 h (reg_exec registry_example)) = Some s'' \<and> 3 \<in> set (m_connect_only_handles s'')"
proof -
  obtain h where h: "set_option_bool (\<lambda>_ _. 0) opt_connect_only False (handles (reg_exec registry_example) 3) = (None, h)"
    by (simp add: set_option_bool_def set_option_long_def easy_def next_do_def Let_def option_ids type_long_def)
  show ?thesis
    using dead_handle_polled [OF _ _ _ h, of "upd_handle 3 h (reg_exec registry_example)" "\<lambda>_. []" 0] h
    by (simp add: registry_example_def is_connect_only_def flag_values handle_blank_def)
qed

end
