(* ===== verification/Tcp_Poll.thy ===== *)
theory Tcp_Poll
  imports Tcp_Client Registry
begin

text \<open>
  \<open>tcp_client\<close> on the executor's poll loop (\<open>src/curl/executor.cpp\<close>, 68 to 98). The thread polls a
  connect-only handle for the directions that are not paused, calls the callback that \<open>connect\<close>
  installed, and pauses the direction whose callback asks for it. The callback locks the client's
  mutex; the pausing that follows does not, so that a call of another thread can come between the
  two. \<open>to_pause\<close> is the direction the thread is about to pause. An exception of the callback
  would end the program (the thread is \<open>noexcept\<close>); such answers are left out.
\<close>

record polled =
  client :: tcp
  to_pause :: "u32 option"

text \<open>The thread finds the socket ready for output, or for input, and calls the callback, if there is one.\<close>

definition poll_out :: "nat option \<Rightarrow> tcp \<Rightarrow> polled" where
  "poll_out r s =
     (if m_read_callback (m_handle s) = None then \<lparr>client = s, to_pause = Some pause_send\<rparr>
      else case on_writable (Inr r) s of (x, s) \<Rightarrow> \<lparr>client = s, to_pause = (if x = Inr True then Some pause_send else None)\<rparr>)"

definition poll_in :: "bytes option \<Rightarrow> u32 \<Rightarrow> tcp \<Rightarrow> polled" where
  "poll_in r bits s =
     (if m_write_callback (m_handle s) = None then \<lparr>client = s, to_pause = Some pause_recv\<rparr>
      else case on_readable (Inr r) bits s of (x, s) \<Rightarrow> \<lparr>client = s, to_pause = (if x = Inr True then Some pause_recv else None)\<rparr>)"

text \<open>What the thread does next.\<close>

definition poll_pause :: "lib \<Rightarrow> polled \<Rightarrow> polled" where
  "poll_pause lib p = (case to_pause p of None \<Rightarrow> p
     | Some d \<Rightarrow> \<lparr>client = (client p)\<lparr>m_handle := pause lib d (m_handle (client p))\<rparr>, to_pause = None\<rparr>)"

text \<open>The code that a callback returns to the executor, and the executor's table with the client's handle as \<open>i\<close>.\<close>

definition callback_code :: "cpp_error + bool \<Rightarrow> nat" where
  "callback_code r = (case r of Inr True \<Rightarrow> func_pause | _ \<Rightarrow> 1)"

definition in_table :: "nat \<Rightarrow> tcp \<Rightarrow> exec \<Rightarrow> exec" where
  "in_table i s e = e\<lparr>handles := (handles e)(i := m_handle s), m_connect_only_handles := List.insert i (m_connect_only_handles e)\<rparr>"

lemma call_send_handle: "call_send op r s = (op', bits, s') \<Longrightarrow> m_handle s' = m_handle s"
  by (cases op; cases r) (auto simp: Let_def split: if_splits)

lemma call_recv_handle: "call_recv b op r s = (op', bits, s') \<Longrightarrow> m_handle s' = m_handle s"
  by (cases op; cases r) (auto simp: Let_def split: if_splits)

lemma on_writable_handle: "on_writable r s = (x, s') \<Longrightarrow> m_handle s' = m_handle s"
  by (auto simp: on_writable_def split: option.splits sum.splits prod.splits dest: call_send_handle)

lemma on_readable_handle: "on_readable r b s = (x, s') \<Longrightarrow> m_handle s' = m_handle s"
  by (auto simp: on_readable_def split: option.splits sum.splits prod.splits dest: call_recv_handle)

text \<open>Without a call in between, the thread does to its handle what these steps do to the client's.\<close>

lemma poll_out_executor:
  "handles (ready_handle lib i False True (callback_code (fst (on_writable (Inr r) s))) (in_table i s e)) i =
    m_handle (client (poll_pause lib (poll_out r s)))"
  using on_writable_handle [of "Inr r" s "fst (on_writable (Inr r) s)" "snd (on_writable (Inr r) s)"]
  by (auto simp: ready_handle_def poll_out_def poll_pause_def in_table_def callback_code_def upd_handle_def func_pause_def
      split: sum.splits prod.splits bool.splits)

lemma poll_in_executor:
  "handles (ready_handle lib i True rout (callback_code (fst (on_readable (Inr r) bits s))) (in_table i s e)) i =
    m_handle (client (poll_pause lib (poll_in r bits s)))"
  using on_readable_handle [of "Inr r" bits s "fst (on_readable (Inr r) bits s)" "snd (on_readable (Inr r) bits s)"]
  by (auto simp: ready_handle_def poll_in_def poll_pause_def in_table_def callback_code_def upd_handle_def func_pause_def
      split: sum.splits prod.splits bool.splits)

subsection \<open>Calls and rounds\<close>

text \<open>What a user calls, and what an entry of the executor's queue does when it is run.\<close>

inductive transfer_call :: "lib \<Rightarrow> tcp \<Rightarrow> tcp \<Rightarrow> bool" for lib where
  send: "tcp_send lib res cb data s = (e, s') \<Longrightarrow> transfer_call lib s s'"
| send_all: "tcp_send_all lib res cb data s = (e, s') \<Longrightarrow> transfer_call lib s s'"
| recv: "tcp_recv lib rres cb n s = (e, s') \<Longrightarrow> transfer_call lib s s'"
| recv_all: "tcp_recv_all lib rres cb n s = (e, s') \<Longrightarrow> transfer_call lib s s'"
| on_data: "transfer_call lib s (set_on_data_available cb s)"

inductive user_call :: "lib \<Rightarrow> tcp \<Rightarrow> tcp \<Rightarrow> bool" for lib where
  transfer: "transfer_call lib s s' \<Longrightarrow> user_call lib s s'"
| pauses: "user_call lib s (pause_receive lib paused s)"
| connect: "tcp_connect lib remote port ssl s = (codes, e, s') \<Longrightarrow> user_call lib s s'"
| disconnect: "tcp_disconnect lib dcb s = (e, s') \<Longrightarrow> user_call lib s s'"

definition run_task :: "task \<Rightarrow> tcp \<Rightarrow> tcp" where
  "run_task t s = (case t of Disconnected r w _ \<Rightarrow> run_disconnected r w s | Cancel_recv op \<Rightarrow> cancel_recv op s
     | Cancel_send op \<Rightarrow> cancel_send op s | _ \<Rightarrow> s)"

text \<open>
  \<open>others\<close>: whether threads other than the executor's call the client. The executor's own thread,
  in a callback, calls it only between two entries of its loop.
\<close>

inductive thread_step :: "lib \<Rightarrow> polled \<Rightarrow> polled \<Rightarrow> bool" for lib where
  entry: "to_pause p = None \<Longrightarrow> queue (client p) = t # post \<Longrightarrow>
    thread_step lib p (p\<lparr>client := run_task t ((client p)\<lparr>queue := post\<rparr>)\<rparr>)"
| out_ready: "to_pause p = None \<Longrightarrow> \<not> is_paused pause_send (m_handle (client p)) \<Longrightarrow> thread_step lib p (poll_out r (client p))"
| in_ready: "to_pause p = None \<Longrightarrow> \<not> is_paused pause_recv (m_handle (client p)) \<Longrightarrow> thread_step lib p (poll_in rr bits (client p))"
| pause: "to_pause p \<noteq> None \<Longrightarrow> thread_step lib p (poll_pause lib p)"

inductive poll_step :: "lib \<Rightarrow> bool \<Rightarrow> polled \<Rightarrow> polled \<Rightarrow> bool" for lib others where
  call: "others \<or> to_pause p = None \<Longrightarrow> user_call lib (client p) s' \<Longrightarrow> poll_step lib others p (p\<lparr>client := s'\<rparr>)"
| thread: "thread_step lib p q \<Longrightarrow> poll_step lib others p q"

inductive poll_run :: "lib \<Rightarrow> bool \<Rightarrow> polled \<Rightarrow> polled \<Rightarrow> bool" for lib others where
  none: "poll_run lib others p p"
| more: "poll_run lib others p q \<Longrightarrow> poll_step lib others q r \<Longrightarrow> poll_run lib others p r"

subsection \<open>A pending handler is polled for\<close>

definition waits_recv :: "tcp \<Rightarrow> bool" where
  "waits_recv s \<longleftrightarrow> (case m_recv_handler s of Some (On_data _) \<Rightarrow> False | None \<Rightarrow> False | _ \<Rightarrow> True)"

definition watched :: "bool \<Rightarrow> tcp \<Rightarrow> bool" where
  "watched hold s \<longleftrightarrow> (m_send_handler s \<noteq> None \<longrightarrow> \<not> is_paused pause_send (m_handle s)) \<and>
     (waits_recv s \<and> \<not> hold \<longrightarrow> \<not> is_paused pause_recv (m_handle s))"

text \<open>The thread only pauses a direction that has no handler, or, for input, a user's own.\<close>

definition may_pause :: "polled \<Rightarrow> bool" where
  "may_pause p \<longleftrightarrow> (to_pause p = Some pause_send \<longrightarrow> m_send_handler (client p) = None) \<and>
     (to_pause p = Some pause_recv \<longrightarrow> \<not> waits_recv (client p)) \<and> to_pause p \<in> {None, Some pause_send, Some pause_recv}"


lemma pause_bits [simp]:
  "is_paused pause_send (pause lib pause_recv h) = is_paused pause_send h"
  "is_paused pause_recv (pause lib pause_send h) = is_paused pause_recv h"
  "is_paused pause_send (fst (unpause lib pause_recv h)) = is_paused pause_send h"
  "is_paused pause_recv (fst (unpause lib pause_send h)) = is_paused pause_recv h"
  "\<not> is_paused pause_send (fst (unpause lib pause_send h))"
  "\<not> is_paused pause_recv (fst (unpause lib pause_recv h))"
proof -
  have f: "(w OR (1 AND 5)) AND 4 = w AND 4" "(w OR (4 AND 5)) AND 1 = w AND 1" "(w AND NOT (1 AND 5)) AND 4 = w AND 4"
    "(w AND NOT (4 AND 5)) AND 1 = w AND 1" "(w AND NOT (4 AND 5)) AND 4 = 0" "(w AND NOT (1 AND 5)) AND 1 = 0" for w :: u32
    by (simp_all add: bit.conj_disj_distrib2 and.assoc bit.de_Morgan_conj bit.conj_disj_distrib)
  show "is_paused pause_send (pause lib pause_recv h) = is_paused pause_send h"
    "is_paused pause_recv (pause lib pause_send h) = is_paused pause_recv h"
    "is_paused pause_send (fst (unpause lib pause_recv h)) = is_paused pause_send h"
    "is_paused pause_recv (fst (unpause lib pause_send h)) = is_paused pause_recv h"
    using f(1-4) by (auto simp: is_paused_def pause_def unpause_def curl_pause_def Let_def flag_values)
  have "m_flags (fst (unpause lib d h)) = m_flags h AND NOT (d AND 5)" for d
    by (simp add: unpause_def curl_pause_def Let_def flag_values)
  then show "\<not> is_paused pause_send (fst (unpause lib pause_send h))" "\<not> is_paused pause_recv (fst (unpause lib pause_recv h))"
    using f(5,6) [of "m_flags h"] by (simp_all add: is_paused_def flag_values)
qed

text \<open>A transfer waits only on a connection, and a connection has its callbacks.\<close>

definition wired :: "tcp \<Rightarrow> bool" where
  "wired s \<longleftrightarrow> (m_send_handler s \<noteq> None \<or> waits_recv s \<longrightarrow> m_is_connected s) \<and>
     (m_is_connected s \<longrightarrow> m_read_callback (m_handle s) \<noteq> None \<and> m_write_callback (m_handle s) \<noteq> None)"

definition healthy :: "bool \<Rightarrow> polled \<Rightarrow> bool" where
  "healthy hold p \<longleftrightarrow> watched hold (client p) \<and> wired (client p) \<and> may_pause p"

lemmas healthy_defs = healthy_def watched_def wired_def may_pause_def

lemma pause_callbacks [simp]: "m_read_callback (pause lib d h) = m_read_callback h" "m_write_callback (pause lib d h) = m_write_callback h"
  "m_read_callback (fst (unpause lib d h)) = m_read_callback h" "m_write_callback (fst (unpause lib d h)) = m_write_callback h"
  by (simp_all add: pause_def unpause_def curl_pause_def Let_def)

lemma waits_recv_simps [simp]: "waits_recv (push t s) = waits_recv s" "waits_recv (take_wire d s) = waits_recv s"
  "waits_recv (wait_send lib op s) = waits_recv s" "waits_recv (s\<lparr>m_handle := h\<rparr>) = waits_recv s"
  "waits_recv (s\<lparr>queue := q\<rparr>) = waits_recv s" "waits_recv (s\<lparr>m_send_handler := so\<rparr>) = waits_recv s"
  "\<not> waits_recv (s\<lparr>m_recv_handler := None\<rparr>)" "\<not> waits_recv (s\<lparr>m_recv_handler := Some (On_data cb)\<rparr>)"
  "waits_recv (s\<lparr>m_is_connected := b\<rparr>) = waits_recv s"
  by (simp_all add: waits_recv_def push_def take_wire_def wait_send_def)

lemma wait_handle [simp]: "m_handle (wait_send lib op s) = fst (unpause lib pause_send (m_handle s))"
  "m_handle (wait_recv lib rop s) = fst (unpause lib pause_recv (m_handle s))"
  by (simp_all add: wait_send_def wait_recv_def)

lemma next_do_returned: "next_do r f = (None, h') \<Longrightarrow> \<exists>h. r = (None, h) \<and> f h = (None, h')"
  by (cases r; cases "fst r") (auto simp: next_do_def)

definition has_callbacks :: "handle \<Rightarrow> bool" where
  "has_callbacks h \<longleftrightarrow> m_read_callback h \<noteq> None \<and> m_write_callback h \<noteq> None"

lemma option_callbacks: "easy lib c h = (e, h') \<Longrightarrow> m_read_callback h' = m_read_callback h \<and> m_write_callback h' = m_write_callback h"
  "set_option_bool lib opt on h = (e, h') \<Longrightarrow> m_read_callback h' = m_read_callback h \<and> m_write_callback h' = m_write_callback h"
  "set_option_ptr lib opt v h = (e, h') \<Longrightarrow> m_read_callback h' = m_read_callback h \<and> m_write_callback h' = m_write_callback h"
  "set_url lib url h = (e, h') \<Longrightarrow> m_read_callback h' = m_read_callback h \<and> m_write_callback h' = m_write_callback h"
  by (auto simp: easy_def set_option_bool_def set_option_long_def set_option_ptr_def set_url_def next_do_def Let_def split: prod.splits option.splits if_splits)

lemma install_callbacks:
  "set_readfunction lib cb h = (e, h') \<Longrightarrow> m_read_callback h' = Some cb \<and> m_write_callback h' = m_write_callback h"
  "set_writefunction lib cb h = (e, h') \<Longrightarrow> m_write_callback h' = Some cb \<and> m_read_callback h' = m_read_callback h"
  by (auto simp: set_readfunction_def set_writefunction_def next_do_def split: prod.splits option.splits dest!: option_callbacks)

lemma connect_setup_callbacks:
  assumes "connect_setup lib remote port ssl h = (e, h')"
  shows "has_callbacks h \<or> e = None \<Longrightarrow> has_callbacks h'"
  using assms unfolding connect_setup_def next_do_def
  by (auto simp: has_callbacks_def set_donefunction_def split: prod.splits option.splits dest!: option_callbacks install_callbacks)

lemma perform_callbacks: "perform lib h = (c, e, h') \<Longrightarrow> has_callbacks h' = has_callbacks h"
  by (auto simp: perform_def has_callbacks_def Let_def split: if_splits)

lemma tcp_connect_wired:
  assumes "tcp_connect lib remote port ssl s = (codes, e, s')" "m_is_connected s \<longrightarrow> has_callbacks (m_handle s)"
  shows "m_send_handler s' = m_send_handler s \<and> m_recv_handler s' = m_recv_handler s \<and> (m_is_connected s' \<longrightarrow> has_callbacks (m_handle s'))"
proof (cases "connect_setup lib remote port ssl (m_handle s)")
  case (Pair e1 h)
  note c = connect_setup_callbacks [OF Pair]
  show ?thesis
  proof (cases e1)
    case None
    obtain called e2 h2 where p: "perform lib (h\<lparr>h_executor := Some 0\<rparr>) = (called, e2, h2)" by (cases "perform lib (h\<lparr>h_executor := Some 0\<rparr>)")
    have "has_callbacks h2" using perform_callbacks [OF p] c None by (simp add: has_callbacks_def)
    then show ?thesis using assms(1) Pair None p
      by (auto simp: tcp_connect_def Let_def has_callbacks_def split: option.splits if_splits)
  qed (use assms Pair c in \<open>auto simp: tcp_connect_def\<close>)
qed

lemma waits_recv_None [simp]: "m_recv_handler s = None \<Longrightarrow> \<not> waits_recv s"
  by (simp add: waits_recv_def)

lemma transfer_call_healthy:
  "transfer_call lib s s' \<Longrightarrow> watched hold s \<Longrightarrow> wired s \<Longrightarrow> watched (hold \<and> (waits_recv s' \<longrightarrow> waits_recv s)) s' \<and> wired s'"
  by (induction rule: transfer_call.induct)
    (auto simp: watched_def wired_def tcp_send_def tcp_send_all_def tcp_recv_def tcp_recv_all_def set_on_data_available_def
      Let_def split: if_splits sum.splits option.splits)

lemma run_task_keeps [simp]: "m_handle (run_task t s) = m_handle s" "m_send_handler (run_task t s) = m_send_handler s"
  "m_recv_handler (run_task t s) = m_recv_handler s" "m_is_connected (run_task t s) = m_is_connected s"
  "waits_recv (run_task t s) = waits_recv s"
proof -
  have c: "m_handle (cancel_send op s) = m_handle s \<and> m_send_handler (cancel_send op s) = m_send_handler s \<and>
      m_recv_handler (cancel_send op s) = m_recv_handler s \<and> m_is_connected (cancel_send op s) = m_is_connected s" for op s
    by (cases op) simp_all
  have r: "m_handle (cancel_recv op s) = m_handle s \<and> m_send_handler (cancel_recv op s) = m_send_handler s \<and>
      m_recv_handler (cancel_recv op s) = m_recv_handler s \<and> m_is_connected (cancel_recv op s) = m_is_connected s" for op s
    by (cases op) simp_all
  show "m_handle (run_task t s) = m_handle s" "m_send_handler (run_task t s) = m_send_handler s"
    and h: "m_recv_handler (run_task t s) = m_recv_handler s" and "m_is_connected (run_task t s) = m_is_connected s"
    using c r by (auto simp: run_task_def run_disconnected_def Let_def split: task.splits option.splits)
  show "waits_recv (run_task t s) = waits_recv s" using h by (simp add: waits_recv_def)
qed

lemma on_writable_cases:
  assumes "on_writable (Inr r) s = (x, s')"
  shows "m_recv_handler s' = m_recv_handler s \<and> m_is_connected s' = m_is_connected s \<and>
    (m_send_handler s \<noteq> None \<and> m_send_handler s' \<noteq> None \<and> x = Inr False \<or> m_send_handler s' = None \<and> x = Inr True)"
proof (cases "m_send_handler s")
  case (Some op)
  obtain op' bits t where t: "call_send op r s = (op', bits, t)" by (cases "call_send op r s")
  have "m_is_connected t = m_is_connected s" using t by (cases op; cases r) (auto simp: Let_def split: if_splits)
  with call_send_callbacks [OF t] assms Some t show ?thesis by (auto simp: on_writable_def)
qed (use assms in \<open>simp add: on_writable_def\<close>)

lemma on_readable_cases:
  assumes "on_readable (Inr r) b s = (x, s')"
  shows "m_send_handler s' = m_send_handler s \<and> m_is_connected s' = m_is_connected s \<and>
    (waits_recv s \<and> waits_recv s' \<and> x = Inr False \<or> \<not> waits_recv s' \<and> (waits_recv s \<longrightarrow> x = Inr True))"
proof (cases "m_recv_handler s")
  case (Some op)
  obtain op' bits t where t: "call_recv b op r s = (op', bits, t)" by (cases "call_recv b op r s")
  have "m_is_connected t = m_is_connected s" "waits_recv (t\<lparr>m_recv_handler := Some op'\<rparr>) = waits_recv s"
    using t Some by (cases op; cases r; auto simp: Let_def waits_recv_def split: if_splits)+
  moreover have "waits_recv s \<Longrightarrow> bits = result_none \<or> bits = result_clear"
    using t Some by (cases op; cases r) (auto simp: Let_def waits_recv_def split: if_splits)
  ultimately show ?thesis using call_recv_callbacks [OF t] assms Some t by (auto simp: on_readable_def split: if_splits)
qed (use assms in \<open>simp add: on_readable_def\<close>)

lemma thread_step_healthy: "thread_step lib p q \<Longrightarrow> healthy hold p \<Longrightarrow> healthy hold q"
proof (induction rule: thread_step.induct)
  case (out_ready p r)
  obtain x s' where s': "on_writable (Inr r) (client p) = (x, s')" by (cases "on_writable (Inr r) (client p)")
  from on_writable_cases [OF s'] on_writable_handle [OF s'] have "waits_recv s' = waits_recv (client p)" by (simp add: waits_recv_def)
  with on_writable_cases [OF s'] on_writable_handle [OF s'] out_ready s' show ?case
    by (auto simp: healthy_defs poll_out_def flag_values)
next
  case (in_ready p rr bits)
  obtain x s' where s': "on_readable (Inr rr) bits (client p) = (x, s')" by (cases "on_readable (Inr rr) bits (client p)")
  from on_readable_cases [OF s'] on_readable_handle [OF s'] in_ready s' show ?case
    by (auto simp: healthy_defs poll_in_def flag_values)
qed (auto simp: healthy_defs poll_pause_def split: option.splits)

text \<open>A send that waits on a paused handle, whatever the thread does from there on.\<close>

definition send_stuck :: "lib \<Rightarrow> polled \<Rightarrow> bool" where
  "send_stuck lib p \<longleftrightarrow> (\<forall>q. (thread_step lib)\<^sup>*\<^sup>* p q \<longrightarrow> m_send_handler (client q) \<noteq> None \<and> wire (client q) = wire (client p) \<and>
     is_paused pause_send (m_handle (client q)))"

lemma call_recv_wire: "call_recv b op r s = (op', bits, s') \<Longrightarrow> wire s' = wire s"
  by (cases op; cases r) (auto simp: Let_def split: if_splits)

lemma on_readable_wire: "on_readable r b s = (x, s') \<Longrightarrow> wire s' = wire s"
  by (auto simp: on_readable_def split: option.splits sum.splits prod.splits dest: call_recv_wire)

lemma run_task_wire: "wire (run_task t s) = wire s"
proof -
  have "wire (cancel_send op s) = wire s" "wire (cancel_recv rop s) = wire s" for op rop s by (cases op; simp) (cases rop; simp)
  then show ?thesis by (auto simp: run_task_def run_disconnected_def Let_def split: task.splits option.splits)
qed

lemma pause_stays: "is_paused d h \<Longrightarrow> is_paused d (pause lib d' h)"
proof -
  have "m_flags (pause lib d' h) = m_flags h OR d' AND pause_all" by (simp add: pause_def curl_pause_def Let_def)
  then show "is_paused d h \<Longrightarrow> is_paused d (pause lib d' h)"
    by (simp add: is_paused_def bit.conj_disj_distrib2 or_eq_0_iff)
qed

lemma pause_sets: "is_paused pause_send (pause lib pause_send h)"
proof -
  have "m_flags (pause lib pause_send h) = m_flags h OR 4" by (simp add: pause_def curl_pause_def Let_def flag_values)
  then show ?thesis by (simp add: is_paused_def flag_values bit.conj_disj_distrib2)
qed

lemma paused_send_stuck:
  assumes "m_send_handler (client p) \<noteq> None" "is_paused pause_send (m_handle (client p))"
  shows "send_stuck lib p"
  unfolding send_stuck_def
proof (intro allI impI)
  fix q
  assume "(thread_step lib)\<^sup>*\<^sup>* p q"
  then show "m_send_handler (client q) \<noteq> None \<and> wire (client q) = wire (client p) \<and> is_paused pause_send (m_handle (client q))"
  proof (induction rule: rtranclp_induct)
    case (step q r)
    from step(2,3) show ?case
    proof (induction rule: thread_step.induct)
      case (in_ready q rr bits)
      obtain x s' where s': "on_readable (Inr rr) bits (client q) = (x, s')" by (cases "on_readable (Inr rr) bits (client q)")
      from on_readable_cases [OF s'] on_readable_handle [OF s'] on_readable_wire [OF s'] in_ready s' show ?case
        by (auto simp: poll_in_def)
    qed (auto simp: poll_pause_def run_task_wire intro: pause_stays)
  qed (use assms in simp)
qed

lemma poll_set_mem:
  assumes "i \<in> set (m_connect_only_handles e)" "sockets i \<noteq> None"
    "\<not> is_paused pause_recv (handles e i) \<or> \<not> is_paused pause_send (handles e i)"
  shows "(i, \<not> is_paused pause_recv (handles e i), \<not> is_paused pause_send (handles e i)) \<in> set (poll_set sockets e)"
  using assms by (auto simp: poll_set_def)

subsection \<open>A client on its executor\<close>

text \<open>
  \<open>connect\<close> with the executor it adds its handle \<open>i\<close> to, and takes it from when the connection cannot
  be made; \<open>disconnect\<close> with the executor that the reset takes the handle from.
\<close>

definition connect_on ::
  "lib \<Rightarrow> nat \<Rightarrow> string \<Rightarrow> u16 \<Rightarrow> bool \<Rightarrow> tcp \<Rightarrow> exec \<Rightarrow> int list \<times> cpp_error option \<times> tcp \<times> exec" where
  "connect_on lib i remote port ssl s e =
     (case connect_setup lib remote port ssl (m_handle s) of
        (Some err, h) \<Rightarrow> ([], Some err, s\<lparr>m_handle := h\<rparr>, upd_handle i h e)
      | (None, h) \<Rightarrow>
          (case exec_add_handle i 0 (upd_handle i h e) of
             (Some err, e) \<Rightarrow> ([], Some err, s\<lparr>m_handle := handles e i\<rparr>, e)
           | (None, e) \<Rightarrow>
               (case perform lib (handles e i) of (called, err, h) \<Rightarrow>
                  let e = upd_handle i h e;
                      e = (if err = None then e else snd (exec_remove_handle i 0 e));
                      s = s\<lparr>m_handle := handles e i\<rparr>;
                      s = (case called of Some (_, res) \<Rightarrow> if res = 0 then s\<lparr>m_is_connected := True\<rparr> else s | None \<Rightarrow> s)
                  in (case called of Some (_, res) \<Rightarrow> [res] | None \<Rightarrow> [], err, s, e))))"

definition disconnect_on :: "lib \<Rightarrow> nat \<Rightarrow> nat option \<Rightarrow> tcp \<Rightarrow> exec \<Rightarrow> cpp_error option \<times> tcp \<times> exec" where
  "disconnect_on lib i cb s e =
     (let send_cb = m_send_handler s; recv_cb = m_recv_handler s;
          s = s\<lparr>m_send_handler := None, m_recv_handler := None\<rparr>
      in case reset_handle lib i 0 0 e of
           (Some err, e) \<Rightarrow> (Some err, s\<lparr>m_handle := handles e i\<rparr>, e)
         | (None, e) \<Rightarrow> (None, push (Disconnected recv_cb send_cb cb) (s\<lparr>m_handle := handles e i, m_is_connected := False\<rparr>), e))"

lemma option_flags: "easy lib c h = (e, h') \<Longrightarrow> m_flags h' = m_flags h"
  "set_option_bool lib 74 on h = (e, h') \<Longrightarrow> m_flags h' = m_flags h"
  "set_option_ptr lib opt v h = (e, h') \<Longrightarrow> m_flags h' = m_flags h"
  "set_url lib url h = (e, h') \<Longrightarrow> m_flags h' = m_flags h"
  by (auto simp: easy_def set_option_bool_def set_option_long_def set_option_ptr_def set_url_def next_do_def Let_def opt_connect_only_def opt_verbose_def
      split: prod.splits option.splits if_splits)

lemma install_flags:
  "set_readfunction lib cb h = (e, h') \<Longrightarrow> m_flags h' = m_flags h"
  "set_writefunction lib cb h = (e, h') \<Longrightarrow> m_flags h' = m_flags h"
  by (auto simp: set_readfunction_def set_writefunction_def next_do_def split: prod.splits option.splits dest!: option_flags)

lemma connect_only_told: "set_option_bool lib opt_connect_only True h = (None, h') \<Longrightarrow> is_connect_only h'"
  using flag_algebra(9) [of "m_flags h"]
  by (auto simp: set_option_bool_def set_option_long_def easy_def next_do_def Let_def is_connect_only_def flag_values opt_connect_only_def
      split: if_splits option.splits)

lemma connect_setup_only: "connect_setup lib remote port ssl h = (None, h') \<Longrightarrow> is_connect_only h'"
proof -
  assume "connect_setup lib remote port ssl h = (None, h')"
  then obtain h1 h2 h3 h4 h5 where s: "set_option_bool lib opt_connect_only True h = (None, h1)" "set_option_bool lib 74 True h1 = (None, h2)"
    "set_readfunction lib 0 h2 = (None, h3)" "set_writefunction lib 1 h3 = (None, h4)"
    "set_url lib (connect_url remote port ssl) h4 = (None, h5)" "h' = pause lib pause_all (set_donefunction 2 h5)"
    unfolding connect_setup_def by (auto dest!: next_do_returned)
  then have "is_connect_only h5" using connect_only_told [OF s(1)] by (auto simp: is_connect_only_def dest!: option_flags install_flags)
  then show ?thesis by (simp add: s(6) pause_same set_donefunction_def)
qed

lemma perform_keeps: "perform lib h = (c, e, h') \<Longrightarrow> m_flags h' = m_flags h \<and> (\<forall>cb. c = Some (cb, 0) \<longrightarrow> e = None)"
  by (auto simp: perform_def Let_def split: if_splits)

text \<open>On the client, these do what \<open>tcp_connect\<close> and \<open>tcp_disconnect\<close> do.\<close>

lemma connect_on_tcp:
  assumes "connect_on lib i remote port ssl s e = (codes, err, s', e')" "handles e i = m_handle s"
  shows "tcp_connect lib remote port ssl s = (codes, err, s') \<and> handles e' i = m_handle s' \<and>
    (m_is_connected s' \<and> \<not> m_is_connected s \<longrightarrow> i \<in> set (m_connect_only_handles e'))"
proof (cases "connect_setup lib remote port ssl (m_handle s)")
  case (Pair e1 h)
  show ?thesis
  proof (cases e1)
    case None
    have only: "is_connect_only h" using connect_setup_only Pair None by blast
    let ?e = "(upd_handle i (h\<lparr>h_executor := Some 0\<rparr>) (upd_handle i h e))\<lparr>m_connect_only_handles := List.insert i (m_connect_only_handles e)\<rparr>"
    have a: "exec_add_handle i 0 (upd_handle i h e) = (None, ?e)"
      using only by (simp add: exec_add_handle_def Let_def) (simp add: upd_handle_def)
    have g: "handles ?e i = h\<lparr>h_executor := Some 0\<rparr>" by (simp add: upd_handle_def)
    obtain called e2 h2 where p: "perform lib (h\<lparr>h_executor := Some 0\<rparr>) = (called, e2, h2)" by (cases "perform lib (h\<lparr>h_executor := Some 0\<rparr>)")
    note k = perform_keeps [OF p]
    have only2: "is_connect_only h2" using k only by (simp add: is_connect_only_def)
    have r: "handles (snd (exec_remove_handle i 0 (upd_handle i h2 ?e))) i = h2\<lparr>h_executor := None\<rparr>"
      using only2 by (simp add: exec_remove_handle_def Let_def) (simp add: upd_handle_def)
    have u: "handles (upd_handle i h2 x) i = h2" "m_connect_only_handles (upd_handle i h2 x) = m_connect_only_handles x" for x
      by (simp_all add: upd_handle_def)
    show ?thesis
      using assms(1) k r u unfolding connect_on_def tcp_connect_def Pair None prod.case option.case a g p Let_def
      by (auto split: option.splits if_splits)
  qed (use assms Pair in \<open>auto simp: connect_on_def tcp_connect_def upd_handle_def\<close>)
qed

lemma left_handle: "handle_leave i res res' e = (None, e') \<Longrightarrow> handles e' i = (handles e i)\<lparr>h_executor := None, h_multi := None\<rparr>"
  unfolding leave_alt
  by (auto simp: exec_remove_handle_def multi_remove_handle_def multi_result_def upd_handle_def Let_def
      split: prod.splits option.splits if_splits intro!: handle.equality)

lemma disconnect_on_tcp:
  assumes "disconnect_on lib i cb s e = (None, s', e')" "handles e i = m_handle s"
  shows "tcp_disconnect lib cb s = (None, s') \<and> handles e' i = m_handle s' \<and> \<not> m_is_connected s' \<and> m_send_handler s' = None \<and> m_recv_handler s' = None"
proof -
  obtain e1 where l: "handle_leave i 0 0 e = (None, e1)" using assms(1)
    by (auto simp: disconnect_on_def reset_handle_def Let_def split: prod.splits option.splits)
  obtain err h where h: "handle_reset lib (handles e1 i) = (err, h)" by (cases "handle_reset lib (handles e1 i)")
  have "reset_handle lib i 0 0 e = (err, upd_handle i h e1)" by (simp add: reset_handle_def l h)
  with assms(1) have d: "err = None" "e' = upd_handle i h e1"
    "s' = push (Disconnected (m_recv_handler s) (m_send_handler s) cb) (s\<lparr>m_send_handler := None, m_recv_handler := None, m_handle := h, m_is_connected := False\<rparr>)"
    by (auto simp: disconnect_on_def Let_def upd_handle_def split: option.splits)
  have "handle_reset lib ((m_handle s)\<lparr>h_executor := None, h_multi := None\<rparr>) = (None, h)"
    using h d(1) left_handle [OF l] assms(2) by simp
  then show ?thesis using d by (simp add: tcp_disconnect_def Let_def upd_handle_def)
qed

text \<open>
  The client as handle \<open>i\<close> of an executor, used by the executor's own thread. \<open>held\<close> (a ghost): whether
  the user has paused receiving since the receive that waits was started. \<open>connect\<close> is called on a
  client that is not connected; \<open>disconnect\<close> as far as it returns. \<open>elsewhere\<close> is anything that
  happens to other handles of the executor.
\<close>

record desk =
  poll :: polled
  reg :: exec
  held :: bool

definition with_client :: "nat \<Rightarrow> tcp \<Rightarrow> desk \<Rightarrow> desk" where
  "with_client i s d = d\<lparr>poll := (poll d)\<lparr>client := s\<rparr>, reg := upd_handle i (m_handle s) (reg d)\<rparr>"

inductive desk_step :: "lib \<Rightarrow> nat \<Rightarrow> desk \<Rightarrow> desk \<Rightarrow> bool" for lib i where
  transfer: "to_pause (poll d) = None \<Longrightarrow> transfer_call lib (client (poll d)) s \<Longrightarrow>
    desk_step lib i d ((with_client i s d)\<lparr>held := held d \<and> (waits_recv s \<longrightarrow> waits_recv (client (poll d)))\<rparr>)"
| pauses: "to_pause (poll d) = None \<Longrightarrow>
    desk_step lib i d ((with_client i (pause_receive lib paused (client (poll d))) d)\<lparr>held := paused\<rparr>)"
| connects: "to_pause (poll d) = None \<Longrightarrow> \<not> m_is_connected (client (poll d)) \<Longrightarrow>
    connect_on lib i remote port ssl (client (poll d)) (reg d) = (codes, err, s, e) \<Longrightarrow>
    desk_step lib i d (d\<lparr>poll := (poll d)\<lparr>client := s\<rparr>, reg := e\<rparr>)"
| disconnects: "to_pause (poll d) = None \<Longrightarrow> disconnect_on lib i dcb (client (poll d)) (reg d) = (None, s, e) \<Longrightarrow>
    desk_step lib i d (d\<lparr>poll := (poll d)\<lparr>client := s\<rparr>, reg := e\<rparr>)"
| thread: "thread_step lib (poll d) q \<Longrightarrow> desk_step lib i d (d\<lparr>poll := q, reg := upd_handle i (m_handle (client q)) (reg d)\<rparr>)"
| elsewhere: "handles e i = handles (reg d) i \<Longrightarrow> i \<in> set (m_connect_only_handles e) \<longleftrightarrow> i \<in> set (m_connect_only_handles (reg d)) \<Longrightarrow>
    desk_step lib i d (d\<lparr>reg := e\<rparr>)"

definition desk_start :: "nat \<Rightarrow> handle \<Rightarrow> exec \<Rightarrow> desk" where
  "desk_start i h e = \<lparr>poll = \<lparr>client = tcp_ctor h, to_pause = None\<rparr>, reg = upd_handle i h e, held = False\<rparr>"

definition desk_ok :: "nat \<Rightarrow> desk \<Rightarrow> bool" where
  "desk_ok i d \<longleftrightarrow> healthy (held d) (poll d) \<and> handles (reg d) i = m_handle (client (poll d)) \<and>
     (m_is_connected (client (poll d)) \<longrightarrow> i \<in> set (m_connect_only_handles (reg d)))"

lemma transfer_call_connected: "transfer_call lib s s' \<Longrightarrow> m_is_connected s' = m_is_connected s"
  by (induction rule: transfer_call.induct)
    (auto simp: tcp_send_def tcp_send_all_def tcp_recv_def tcp_recv_all_def set_on_data_available_def Let_def split: if_splits sum.splits option.splits)

lemma thread_step_connected: "thread_step lib p q \<Longrightarrow> m_is_connected (client q) = m_is_connected (client p)"
proof (induction rule: thread_step.induct)
  case (out_ready p r)
  then show ?case using on_writable_cases [of r "client p"] by (auto simp: poll_out_def split: prod.splits)
next
  case (in_ready p rr bits)
  then show ?case using on_readable_cases [of rr bits "client p"] by (auto simp: poll_in_def split: prod.splits)
qed (auto simp: poll_pause_def split: option.splits)

lemma desk_step_ok: "desk_step lib i d d' \<Longrightarrow> desk_ok i d \<Longrightarrow> desk_ok i d'"
proof (induction rule: desk_step.induct)
  case (transfer d s)
  with transfer_call_healthy [OF transfer(2), of "held d"] transfer_call_connected [OF transfer(2)] show ?case
    by (simp add: desk_ok_def with_client_def upd_handle_def healthy_def may_pause_def)
next
  case (pauses d paused)
  then show ?case by (auto simp: desk_ok_def with_client_def upd_handle_def healthy_defs pause_receive_def)
next
  case (connects d remote port ssl codes err s e)
  note t = connect_on_tcp [OF connects(3)]
  have "tcp_connect lib remote port ssl (client (poll d)) = (codes, err, s)" using t connects(4) by (simp add: desk_ok_def)
  from tcp_connect_wired [OF this] connects t show ?case
    by (auto simp: desk_ok_def healthy_defs has_callbacks_def waits_recv_def)
next
  case (disconnects d dcb s e)
  with disconnect_on_tcp [OF disconnects(2)] show ?case by (auto simp: desk_ok_def healthy_defs)
next
  case (thread d q)
  with thread_step_healthy [OF thread(1), of "held d"] thread_step_connected [OF thread(1)] show ?case
    by (simp add: desk_ok_def upd_handle_def)
qed (simp add: desk_ok_def)

lemma desk_run_ok: "(desk_step lib i)\<^sup>*\<^sup>* d d' \<Longrightarrow> desk_ok i d \<Longrightarrow> desk_ok i d'"
  by (induction rule: rtranclp_induct) (auto dest: desk_step_ok)

lemma desk_start_ok: "desk_ok i (desk_start i h e)"
  by (simp add: desk_ok_def desk_start_def healthy_defs tcp_ctor_def upd_handle_def)

subsection \<open>Properties\<close>

text \<open>
  C13: As long as only the executor's own thread uses the client, a handler that waits to send is
  polled for output, and one that waits to receive is polled for input, unless the user has paused
  receiving since: whatever has happened on a new client (connects while it is not connected, which enter its
  handle into the executor's table, transfers, pauses, ready sockets, disconnects that do not throw,
  callbacks), between two steps the
  thread's set of sockets has the connection with the directions that are waited for, if libcurl
  has a socket for it.
\<close>

theorem waiting_is_polled:
  assumes "(desk_step lib i)\<^sup>*\<^sup>* (desk_start i h e) d" "sockets i \<noteq> None"
  shows "(m_send_handler (client (poll d)) \<noteq> None \<longrightarrow> (\<exists>b. (i, b, True) \<in> set (poll_set sockets (reg d)))) \<and>
    (waits_recv (client (poll d)) \<and> \<not> held d \<longrightarrow> (\<exists>b. (i, True, b) \<in> set (poll_set sockets (reg d))))"
proof -
  have d: "desk_ok i d" using desk_run_ok [OF assms(1) desk_start_ok] .
  have t: "m_send_handler (client (poll d)) \<noteq> None \<or> waits_recv (client (poll d)) \<longrightarrow> i \<in> set (m_connect_only_handles (reg d))"
    using d unfolding desk_ok_def healthy_def wired_def by blast
  have "watched (held d) (client (poll d))" "handles (reg d) i = m_handle (client (poll d))" using d by (simp_all add: desk_ok_def healthy_def)
  with poll_set_mem [of i "reg d" sockets] assms(2) t show ?thesis unfolding watched_def by metis
qed

text \<open>
  A connected client that is told to connect again, and fails to, is still connected for itself, but the
  executor has lost its handle: what it waits for from then on is never polled.
\<close>

theorem failed_reconnect_unpolled:
  assumes "m_is_connected s" "distinct (m_connect_only_handles e)" "connect_setup lib remote port ssl (m_handle s) = (None, h)"
    "perform lib (h\<lparr>h_executor := Some 0\<rparr>) = (called, Some err, h2)"
  shows "\<exists>codes s' e'. connect_on lib i remote port ssl s e = (codes, Some err, s', e') \<and> m_is_connected s' \<and>
    i \<notin> fst ` set (poll_set sockets e')"
proof -
  have only: "is_connect_only h" "is_connect_only h2"
    using connect_setup_only [OF assms(3)] perform_keeps [OF assms(4)] by (simp_all add: is_connect_only_def)
  have a: "exec_add_handle i 0 (upd_handle i h e) = (None, (upd_handle i (h\<lparr>h_executor := Some 0\<rparr>) (upd_handle i h e))
      \<lparr>m_connect_only_handles := List.insert i (m_connect_only_handles e)\<rparr>)"
    using only by (simp add: exec_add_handle_def Let_def) (simp add: upd_handle_def)
  have "i \<notin> set (remove1 i (List.insert i (m_connect_only_handles e)))" using assms(2) by simp
  moreover have "handles ((upd_handle i (h\<lparr>h_executor := Some 0\<rparr>) (upd_handle i h e))\<lparr>m_connect_only_handles := x\<rparr>) i = h\<lparr>h_executor := Some 0\<rparr>" for x
    by (simp add: upd_handle_def)
  ultimately show ?thesis using only assms(1) unfolding connect_on_def assms(3) prod.case option.case a
    by (auto simp: assms(4) upd_handle_def exec_remove_handle_def poll_set_def Let_def split: option.splits)
qed

definition connected :: tcp where
  "connected = snd (snd (tcp_connect obliging ''localhost'' 1 False (tcp_ctor handle_blank)))"

lemma connected_sel: "m_is_connected connected" "m_send_handler connected = None" "m_recv_handler connected = None"
  "wire connected = []" "queue connected = []" "m_read_callback (m_handle connected) \<noteq> None"
  by (simp_all add: connected_def tcp_connect_def connect_setup_def set_option_bool_def set_option_long_def set_readfunction_def set_writefunction_def set_url_def
        set_option_ptr_def easy_def next_do_def obliging_def option_base_def type_long_def type_object_def type_function_def Let_def
        opt_connect_only_def opt_verbose_def set_donefunction_def pause_def curl_pause_def tcp_ctor_def handle_blank_def perform_def)

lemma connected_run: "poll_run lib others \<lparr>client = tcp_ctor handle_blank, to_pause = None\<rparr> \<lparr>client = connected, to_pause = None\<rparr>"
  if "lib = obliging"
proof -
  obtain codes e where "tcp_connect obliging ''localhost'' 1 False (tcp_ctor handle_blank) = (codes, e, connected)"
    by (cases "tcp_connect obliging ''localhost'' 1 False (tcp_ctor handle_blank)") (simp add: connected_def)
  from user_call.connect [OF this] have "user_call lib (tcp_ctor handle_blank) connected" using that by simp
  from poll_step.call [of others "\<lparr>client = tcp_ctor handle_blank, to_pause = None\<rparr>" lib connected] this
  have "poll_step lib others \<lparr>client = tcp_ctor handle_blank, to_pause = None\<rparr> \<lparr>client = connected, to_pause = None\<rparr>" by simp
  from poll_run.more [OF poll_run.none this] show ?thesis .
qed

text \<open>Two bytes: the first is taken when the socket is ready; the second is asked for once that is done.\<close>

definition first_waits :: tcp where "first_waits = snd (tcp_send_all obliging (Inr None) 7 [1] connected)"
definition first_sent :: polled where "first_sent = poll_out (Some 1) first_waits"
definition second_waits :: tcp where "second_waits = snd (tcp_send_all obliging (Inr None) 8 [2] (client first_sent))"

lemma race_states: "m_send_handler first_waits = Some (Send_all 7 [1] 0)" "\<not> is_paused pause_send (m_handle first_waits)"
  "to_pause first_sent = Some pause_send" "m_send_handler second_waits = Some (Send_all 8 [2] 0)"
  "wire second_waits = [1]"
proof -
  have f: "first_waits = wait_send obliging (Send_all 7 [1] 0) connected"
    by (simp add: first_waits_def tcp_send_all_def connected_sel)
  show "m_send_handler first_waits = Some (Send_all 7 [1] 0)" "\<not> is_paused pause_send (m_handle first_waits)" by (simp_all add: f)
  have c: "m_read_callback (m_handle first_waits) \<noteq> None" "m_is_connected first_waits" "wire first_waits = []" by (simp_all add: f connected_sel)
  then show "to_pause first_sent = Some pause_send" by (simp add: f first_sent_def poll_out_def on_writable_def Let_def)
  have "m_is_connected (client first_sent)" "m_send_handler (client first_sent) = None" "wire (client first_sent) = [1]"
    using c by (simp_all add: f first_sent_def poll_out_def on_writable_def Let_def)
  then show "m_send_handler second_waits = Some (Send_all 8 [2] 0)" "wire second_waits = [1]"
    by (simp_all add: second_waits_def tcp_send_all_def)
qed

text \<open>
  C18: With another thread that sends, the wakeup can be lost: the thread has called the callback of
  a send that completes and is about to pause the direction, a \<open>send_all\<close> of the other thread finds
  no handler, installs its own and unpauses, and the thread pauses. On a new client, a reachable
  state has a \<open>send_all\<close> of two whose second byte is never offered to libcurl again, however long
  the thread goes on.
\<close>

theorem wakeup_lost:
  "\<exists>p. poll_run obliging True \<lparr>client = tcp_ctor handle_blank, to_pause = None\<rparr> p \<and>
    m_send_handler (client p) = Some (Send_all 8 [2] 0) \<and> wire (client p) = [1] \<and> send_stuck obliging p"
proof -
  let ?p = "poll_pause obliging (first_sent\<lparr>client := second_waits\<rparr>)"
  have c: "user_call obliging connected first_waits" "user_call obliging (client first_sent) second_waits"
    unfolding first_waits_def second_waits_def by (rule user_call.transfer, rule transfer_call.send_all, rule prod.collapse [symmetric])+
  note run = poll_run.more [OF connected_run [OF refl]]
  have "poll_run obliging True \<lparr>client = tcp_ctor handle_blank, to_pause = None\<rparr> \<lparr>client = first_waits, to_pause = None\<rparr>"
    using run [of True "\<lparr>client = first_waits, to_pause = None\<rparr>"] poll_step.call [of True "\<lparr>client = connected, to_pause = None\<rparr>" obliging first_waits] c(1)
    by simp
  moreover have "poll_step obliging True \<lparr>client = first_waits, to_pause = None\<rparr> first_sent"
    using thread_step.out_ready [of "\<lparr>client = first_waits, to_pause = None\<rparr>" obliging "Some 1"] race_states
    by (auto simp: first_sent_def intro: poll_step.thread)
  moreover have "poll_step obliging True first_sent (first_sent\<lparr>client := second_waits\<rparr>)" by (rule poll_step.call) (simp_all add: c(2))
  moreover have "poll_step obliging True (first_sent\<lparr>client := second_waits\<rparr>) ?p"
    by (rule poll_step.thread, rule thread_step.pause) (simp add: race_states)
  ultimately have r: "poll_run obliging True \<lparr>client = tcp_ctor handle_blank, to_pause = None\<rparr> ?p"
    using poll_run.more by metis
  have "m_send_handler (client ?p) = Some (Send_all 8 [2] 0)" "wire (client ?p) = [1]" "is_paused pause_send (m_handle (client ?p))"
    by (simp_all add: poll_pause_def race_states pause_sets)
  with r paused_send_stuck [of ?p] show ?thesis by auto
qed

definition desk_exec :: exec where
  "desk_exec = \<lparr>handles = \<lambda>_. handle_blank, m_queue = [], m_scheduled = [], m_connect_only_handles = [], m_exit = False, performed = []\<rparr>"

theorem waiting_is_polled_witness:
  "\<exists>d. (desk_step obliging 0)\<^sup>*\<^sup>* (desk_start 0 handle_blank desk_exec) d \<and> client (poll d) = first_waits \<and>
     (\<exists>b. (0, b, True) \<in> set (poll_set Some (reg d)))"
proof -
  let ?d0 = "desk_start 0 handle_blank desk_exec"
  obtain codes err s e where c: "connect_on obliging 0 ''localhost'' 1 False (tcp_ctor handle_blank) (reg ?d0) = (codes, err, s, e)"
    by (cases "connect_on obliging 0 ''localhost'' 1 False (tcp_ctor handle_blank) (reg ?d0)")
  have "handles (reg ?d0) 0 = m_handle (tcp_ctor handle_blank)" by (simp add: desk_start_def upd_handle_def tcp_ctor_def)
  from connect_on_tcp [OF c this] have s: "s = connected" by (simp add: connected_def)
  let ?d1 = "?d0\<lparr>poll := (poll ?d0)\<lparr>client := connected\<rparr>, reg := e\<rparr>"
  have "desk_step obliging 0 ?d0 ?d1"
    using c s by (intro desk_step.connects) (simp_all add: desk_start_def tcp_ctor_def)
  moreover have "transfer_call obliging (client (poll ?d1)) first_waits"
    unfolding first_waits_def using transfer_call.send_all [OF prod.collapse [symmetric]] by simp
  then obtain d2 where "desk_step obliging 0 ?d1 d2" "client (poll d2) = first_waits"
    using desk_step.transfer [of ?d1 obliging first_waits 0] by (fastforce simp: desk_start_def with_client_def)
  ultimately have r: "(desk_step obliging 0)\<^sup>*\<^sup>* ?d0 d2" "client (poll d2) = first_waits" by auto
  from waiting_is_polled [OF r(1), of Some] r race_states(1) show ?thesis by auto
qed

end
