(* ===== verification/Push_Wait.thy ===== *)
theory Push_Wait
  imports Executor
begin

text \<open>
  \<open>executor::push_wait\<close> between threads. Thread 0 is the executor's. A function works on the state
  behind the executor, \<open>shared\<close>, and throws (\<open>Inl\<close>) or returns a value (\<open>Inr\<close>). Another
  thread's call makes a promise, pushes an entry that runs the function and fulfils the promise
  with the value or the exception, and blocks on the promise; a call on thread 0 runs at
  once. \<open>history\<close> is what has been run, \<open>returned\<close> what the calls have returned or thrown.
\<close>

type_synonym 'v result = "cpp_error + 'v"
type_synonym ('s, 'v) fn = "'s \<Rightarrow> 'v result \<times> 's"

record ('s, 'v) pool =
  shared :: 's
  entries :: "(nat \<times> ('s, 'v) fn) list"
  promises :: "(nat \<times> 'v result) list"
  blocked :: "nat list"
  worker_runs :: bool
  exits :: bool
  woken :: bool
  history :: "(nat \<times> ('s, 'v) fn) list"
  returned :: "(nat \<times> 'v result) list"

definition pool_start :: "'s \<Rightarrow> ('s, 'v) pool" where
  "pool_start s = \<lparr>shared = s, entries = [], promises = [], blocked = [], worker_runs = True, exits = False, woken = False,
     history = [], returned = []\<rparr>"

text \<open>\<open>push\<close> from a thread: other threads than the executor's wake the multi.\<close>

definition pool_push :: "nat \<Rightarrow> nat \<times> ('s, 'v) fn \<Rightarrow> ('s, 'v) pool \<Rightarrow> ('s, 'v) pool" where
  "pool_push t e p = p\<lparr>entries := entries p @ [e], woken := woken p \<or> t \<noteq> 0\<rparr>"

definition pool_wakeup :: "nat \<Rightarrow> ('s, 'v) pool \<Rightarrow> ('s, 'v) pool" where
  "pool_wakeup t p = p\<lparr>woken := woken p \<or> t \<noteq> 0\<rparr>"

text \<open>Running a function for a caller.\<close>

definition run_fn :: "nat \<Rightarrow> ('s, 'v) fn \<Rightarrow> ('s, 'v) pool \<Rightarrow> 'v result \<times> ('s, 'v) pool" where
  "run_fn t f p = (case f (shared p) of (r, s) \<Rightarrow> (r, p\<lparr>shared := s, history := history p @ [(t, f)]\<rparr>))"

text \<open>The call: on the executor's thread its result, on another thread it blocks.\<close>

definition push_wait :: "nat \<Rightarrow> ('s, 'v) fn \<Rightarrow> ('s, 'v) pool \<Rightarrow> 'v result option \<times> ('s, 'v) pool" where
  "push_wait t f p =
     (if t = 0 then (case run_fn t f p of (r, p) \<Rightarrow> (Some r, p))
      else (None, pool_push t (t, f) (p\<lparr>blocked := blocked p @ [t]\<rparr>)))"

text \<open>The entry that was pushed: the function, and the promise set to what it returns or throws.\<close>

definition run_head :: "('s, 'v) pool \<Rightarrow> ('s, 'v) pool" where
  "run_head p = (case entries p of [] \<Rightarrow> p
     | (t, f) # es \<Rightarrow> (case run_fn t f (p\<lparr>entries := es\<rparr>) of (r, p) \<Rightarrow> p\<lparr>promises := promises p @ [(t, r)]\<rparr>))"

text \<open>\<open>result.get()\<close> returns.\<close>

definition wait_done :: "nat \<Rightarrow> 'v result \<Rightarrow> ('s, 'v) pool \<Rightarrow> ('s, 'v) pool" where
  "wait_done t r p = p\<lparr>promises := remove1 (t, r) (promises p), blocked := remove1 t (blocked p), returned := returned p @ [(t, r)]\<rparr>"

text \<open>A call that has returned at once.\<close>

definition call_done :: "nat \<Rightarrow> 'v result option \<Rightarrow> ('s, 'v) pool \<Rightarrow> ('s, 'v) pool" where
  "call_done t r p = (case r of None \<Rightarrow> p | Some r \<Rightarrow> p\<lparr>returned := returned p @ [(t, r)]\<rparr>)"

text \<open>Members of \<open>executor\<close> that go through \<open>push_wait\<close>; they return nothing, or throw.\<close>

definition nothing_or :: "cpp_error option \<times> 's \<Rightarrow> unit result \<times> 's" where
  "nothing_or x = (case x of (None, s) \<Rightarrow> (Inr (), s) | (Some e, s) \<Rightarrow> (Inl e, s))"

definition add_handle :: "nat \<Rightarrow> int \<Rightarrow> (exec, unit) fn" where "add_handle i res s = nothing_or (exec_add_handle i res s)"
definition remove_handle :: "nat \<Rightarrow> int \<Rightarrow> (exec, unit) fn" where "remove_handle i res s = nothing_or (exec_remove_handle i res s)"

text \<open>
  A function that itself calls \<open>push_wait\<close> runs on the executor's thread, where the inner call is a plain
  call: the function of the model is the composition, \<open>nested g k\<close> for an inner \<open>g\<close> whose result \<open>k\<close> uses.
\<close>

definition nested :: "('s, 'v) fn \<Rightarrow> ('v result \<Rightarrow> ('s, 'v) fn) \<Rightarrow> ('s, 'v) fn" where
  "nested g k s = (case g s of (r, s) \<Rightarrow> k r s)"

lemma nested_push_wait:
  "push_wait 0 g p = (Some r, q) \<Longrightarrow> push_wait 0 (k r) q = (Some r', q') \<Longrightarrow>
   \<exists>q''. push_wait 0 (nested g k) p = (Some r', q'') \<and> shared q'' = shared q'"
  by (auto simp: push_wait_def run_fn_def nested_def split: prod.splits)

text \<open>
  What can happen. The executor's thread looks whether it is to end only when its queue is empty;
  \<open>exits\<close> stands for that with no transfer running.
\<close>

inductive pool_step :: "('s, 'v) pool \<Rightarrow> ('s, 'v) pool \<Rightarrow> bool" where
  call: "t \<notin> set (blocked p) \<Longrightarrow> t = 0 \<longrightarrow> worker_runs p \<Longrightarrow> push_wait t f p = (r, p') \<Longrightarrow> pool_step p (call_done t r p')"
| run: "worker_runs p \<Longrightarrow> entries p \<noteq> [] \<Longrightarrow> pool_step p (run_head p)"
| wait_over: "(t, r) \<in> set (promises p) \<Longrightarrow> pool_step p (wait_done t r p)"
| wake: "pool_step p (pool_wakeup t p)"
| shutdown: "pool_step p (p\<lparr>exits := True, woken := True\<rparr>)"
| stop: "exits p \<Longrightarrow> entries p = [] \<Longrightarrow> pool_step p (p\<lparr>worker_runs := False\<rparr>)"

inductive_cases pool_stepE: "pool_step p q"

subsection \<open>One function after the other\<close>

text \<open>The functions run in this order, from a state: what each gives its caller, and the state after.\<close>

fun in_order :: "(nat \<times> ('s, 'v) fn) list \<Rightarrow> 's \<Rightarrow> (nat \<times> 'v result) list \<times> 's" where
  "in_order [] s = ([], s)"
| "in_order ((t, f) # h) s = (case f s of (r, s) \<Rightarrow> case in_order h s of (rs, s) \<Rightarrow> ((t, r) # rs, s))"

lemma in_order_snoc:
  "in_order (h @ [(t, f)]) s = (case in_order h s of (rs, s) \<Rightarrow> case f s of (r, s) \<Rightarrow> (rs @ [(t, r)], s))"
  by (induction h arbitrary: s) (auto split: prod.splits)

definition results_of :: "nat \<Rightarrow> (nat \<times> 'v result) list \<Rightarrow> 'v result list" where
  "results_of t rs = map snd (filter (\<lambda>x. fst x = t) rs)"

lemma results_of_simps [simp]: "results_of t [] = []" "results_of t (rs @ qs) = results_of t rs @ results_of t qs"
  "results_of t (x # rs) = (if fst x = t then [snd x] else []) @ results_of t rs"
  by (simp_all add: results_of_def)

text \<open>A thread waits for exactly one thing: its entry in the queue, or its promise.\<close>

definition waits_for :: "nat \<Rightarrow> ('s, 'v) pool \<Rightarrow> nat" where
  "waits_for t p = length (filter (\<lambda>e. fst e = t) (entries p)) + length (results_of t (promises p))"

definition pool_inv :: "'s \<Rightarrow> ('s, 'v) pool \<Rightarrow> bool" where
  "pool_inv s0 p \<longleftrightarrow> distinct (blocked p) \<and> 0 \<notin> set (blocked p) \<and>
     (\<forall>t. waits_for t p = (if t \<in> set (blocked p) then 1 else 0)) \<and>
     snd (in_order (history p) s0) = shared p \<and>
     (\<forall>t. results_of t (fst (in_order (history p) s0)) = results_of t (returned p) @ results_of t (promises p))"

lemma start_inv: "pool_inv s (pool_start s)"
  by (simp add: pool_inv_def pool_start_def waits_for_def)

lemma pool_sel [simp]: "shared (pool_push t e p) = shared p" "entries (pool_push t e p) = entries p @ [e]" "promises (pool_push t e p) = promises p"
  "blocked (pool_push t e p) = blocked p" "history (pool_push t e p) = history p" "returned (pool_push t e p) = returned p"
  "shared (pool_wakeup t p) = shared p" "entries (pool_wakeup t p) = entries p" "promises (pool_wakeup t p) = promises p"
  "blocked (pool_wakeup t p) = blocked p" "history (pool_wakeup t p) = history p" "returned (pool_wakeup t p) = returned p"
  "shared (wait_done t r p) = shared p" "entries (wait_done t r p) = entries p" "history (wait_done t r p) = history p"
  "worker_runs (pool_push t e p) = worker_runs p" "worker_runs (wait_done t r p) = worker_runs p" "worker_runs (pool_wakeup t p) = worker_runs p"
  by (simp_all add: pool_push_def pool_wakeup_def wait_done_def)

lemma run_fn_sel:
  "run_fn t f p = (r, q) \<Longrightarrow> f (shared p) = (r, shared q) \<and> history q = history p @ [(t, f)] \<and> entries q = entries p \<and> promises q = promises p \<and>
    blocked q = blocked p \<and> returned q = returned p \<and> worker_runs q = worker_runs p"
  by (auto simp: run_fn_def split: prod.splits)

lemma run_fn_inv:
  assumes "run_fn t f p = (r, q)" "snd (in_order (history p) s0) = shared p"
  shows "snd (in_order (history q) s0) = shared q \<and>
    results_of t' (fst (in_order (history q) s0)) = results_of t' (fst (in_order (history p) s0)) @ (if t = t' then [r] else [])"
  using run_fn_sel [OF assms(1)] assms(2) by (auto simp: in_order_snoc split: prod.splits)

lemma call_inv:
  assumes "pool_inv s0 p" "t \<notin> set (blocked p)" "push_wait t f p = (r, q)"
  shows "pool_inv s0 (call_done t r q)"
proof (cases "t = 0")
  case True
  obtain r' where r: "run_fn t f p = (r', q)" "r = Some r'" using assms(3) True by (auto simp: push_wait_def split: prod.splits)
  have i: "snd (in_order (history p) s0) = shared p" using assms(1) by (simp add: pool_inv_def)
  have "waits_for 0 p = 0" using assms(1,2) True by (simp add: pool_inv_def)
  then have "results_of 0 (promises p) = []" by (simp add: waits_for_def)
  then show ?thesis using assms(1) run_fn_inv [OF r(1) i] run_fn_sel [OF r(1)] True r(2) by (auto simp: pool_inv_def waits_for_def call_done_def)
next
  case False
  then have q: "q = pool_push t (t, f) (p\<lparr>blocked := blocked p @ [t]\<rparr>)" "r = None" using assms(3) by (simp_all add: push_wait_def)
  have "waits_for u q = waits_for u p + (if u = t then 1 else 0)" for u by (simp add: q waits_for_def)
  then show ?thesis using assms(1,2) False by (simp add: pool_inv_def q(2) call_done_def) (simp add: q)
qed

lemma run_inv:
  assumes "pool_inv s0 p" "entries p \<noteq> []"
  shows "pool_inv s0 (run_head p)"
proof -
  obtain t f es where e: "entries p = (t, f) # es" using assms(2) by (cases "entries p") auto
  obtain r q where r: "run_fn t f (p\<lparr>entries := es\<rparr>) = (r, q)" by (cases "run_fn t f (p\<lparr>entries := es\<rparr>)")
  have h: "run_head p = q\<lparr>promises := promises q @ [(t, r)]\<rparr>" by (simp add: run_head_def e r)
  have i: "snd (in_order (history (p\<lparr>entries := es\<rparr>)) s0) = shared (p\<lparr>entries := es\<rparr>)" using assms(1) by (simp add: pool_inv_def)
  have w: "waits_for u (run_head p) = waits_for u p" for u
    using run_fn_sel [OF r] by (simp add: h waits_for_def e)
  show ?thesis using assms(1) run_fn_inv [OF r i] run_fn_sel [OF r] w by (simp add: pool_inv_def h)
qed

lemma results_remove1: "results_of u (remove1 (t, r) ps) = (if u = t then remove1 r (results_of u ps) else results_of u ps)"
  by (induction ps) auto

lemma wait_inv:
  assumes "pool_inv s0 p" "(t, r) \<in> set (promises p)"
  shows "pool_inv s0 (wait_done t r p)"
proof -
  have m: "r \<in> set (results_of t (promises p))" using assms(2) by (force simp: results_of_def)
  define n k where "n = length (filter (\<lambda>e. fst e = t) (entries p))" and "k = length (results_of t (promises p))"
  have "0 < k" using m by (cases "results_of t (promises p)") (auto simp: k_def)
  moreover have "n + k = (if t \<in> set (blocked p) then 1 else 0)" using assms(1) by (simp add: pool_inv_def waits_for_def n_def k_def)
  ultimately have "t \<in> set (blocked p)" "k = 1" "n = 0" by (simp_all split: if_splits)
  then have b: "t \<in> set (blocked p)" "length (results_of t (promises p)) = 1" "filter (\<lambda>e. fst e = t) (entries p) = []"
    by (simp_all add: n_def k_def)
  then have one: "results_of t (promises p) = [r]" using m by (cases "results_of t (promises p)") auto
  have d: "distinct (blocked p)" "0 \<notin> set (blocked p)" using assms(1) by (simp_all add: pool_inv_def)
  have wd: "promises (wait_done t r p) = remove1 (t, r) (promises p)" "blocked (wait_done t r p) = remove1 t (blocked p)"
    "returned (wait_done t r p) = returned p @ [(t, r)]" by (simp_all add: wait_done_def)
  have "waits_for u (wait_done t r p) = (if u \<in> set (blocked (wait_done t r p)) then 1 else 0)" for u
  proof (cases "u = t")
    case True
    then show ?thesis using b one d by (simp add: waits_for_def wd results_remove1)
  next
    case False
    moreover have "waits_for u p = (if u \<in> set (blocked p) then 1 else 0)" using assms(1) by (simp add: pool_inv_def)
    ultimately show ?thesis using d by (simp add: waits_for_def wd results_remove1)
  qed
  moreover have "results_of u (fst (in_order (history p) s0)) = results_of u (returned (wait_done t r p)) @ results_of u (promises (wait_done t r p))" for u
  proof -
    have "results_of u (fst (in_order (history p) s0)) = results_of u (returned p) @ results_of u (promises p)"
      using assms(1) by (simp add: pool_inv_def)
    then show ?thesis using one by (simp add: wd results_remove1)
  qed
  ultimately show ?thesis using assms(1) d by (simp add: pool_inv_def wd)
qed

lemma pool_step_inv: "pool_step p q \<Longrightarrow> pool_inv s0 p \<Longrightarrow> pool_inv s0 q"
proof (induction rule: pool_step.induct)
  case (call t p f r q)
  from call_inv [OF call(4,1,3)] show ?case .
next
  case (run p)
  from run_inv [OF run(3,2)] show ?case .
next
  case (wait_over t r p)
  from wait_inv [OF wait_over(2,1)] show ?case .
qed (simp_all add: pool_inv_def waits_for_def)

lemma pool_run_inv: "pool_step\<^sup>*\<^sup>* p q \<Longrightarrow> pool_inv s0 p \<Longrightarrow> pool_inv s0 q"
  by (induction rule: rtranclp_induct) (auto dest: pool_step_inv)

lemma run_head_keeps: "set (promises p) \<subseteq> set (promises (run_head p))"
  by (auto simp: run_head_def split: list.splits prod.splits dest: run_fn_sel)

lemma promises_kept: "set (promises p) \<subseteq> set (promises ((run_head ^^ n) p))"
proof (induction n)
  case (Suc n)
  with run_head_keeps [of "(run_head ^^ n) p"] show ?case by auto
qed simp

lemma run_head_progress:
  assumes "(t, f) \<in> set (entries p)"
  shows "\<exists>r. (t, r) \<in> set (promises ((run_head ^^ length (entries p)) p))"
proof -
  have "\<exists>r. (t, r) \<in> set (promises ((run_head ^^ n) p))" if "n = length (entries p)" "(t, f) \<in> set (entries p)" for n p
    using that
  proof (induction n arbitrary: p)
    case (Suc n)
    obtain u g es where e: "entries p = (u, g) # es" using Suc.prems by (cases "entries p") auto
    obtain r q where r: "run_fn u g (p\<lparr>entries := es\<rparr>) = (r, q)" by (cases "run_fn u g (p\<lparr>entries := es\<rparr>)")
    have h: "run_head p = q\<lparr>promises := promises q @ [(u, r)]\<rparr>" "entries (run_head p) = es"
      using run_fn_sel [OF r] by (simp_all add: run_head_def e r)
    show ?case
    proof (cases "(t, f) \<in> set es")
      case True
      with Suc.IH [of "run_head p"] Suc.prems h(2) e show ?thesis by (simp add: funpow_swap1)
    next
      case False
      then have "(t, r) \<in> set (promises (run_head p))" using Suc.prems(2) e h(1) by auto
      with promises_kept [of "run_head p" n] show ?thesis by (auto simp: funpow_swap1)
    qed
  qed simp
  with assms show ?thesis by blast
qed

subsection \<open>Properties\<close>

text \<open>
  C14: Functions handed to the executor by any threads, its own included, run one after the other: whatever the
  threads do, the state is the one that the functions run so far leave when run in this order from
  the start; each call, of any thread, has returned or will return exactly the value that its function gave there, or
  the exception that it threw; and a thread that is blocked waits for exactly one entry or promise of its
  own, one that is not for none.
\<close>

theorem push_wait_in_order:
  assumes "pool_step\<^sup>*\<^sup>* (pool_start s0) p"
  shows "snd (in_order (history p) s0) = shared p \<and>
    results_of t (fst (in_order (history p) s0)) = results_of t (returned p) @ results_of t (promises p) \<and>
    length (filter (\<lambda>e. fst e = t) (entries p)) + length (results_of t (promises p)) = (if t \<in> set (blocked p) then 1 else 0) \<and>
    0 \<notin> set (blocked p)"
  using pool_run_inv [OF assms start_inv] by (simp add: pool_inv_def waits_for_def)

text \<open>
  A blocked caller gets its result: as soon as the thread has run the entries that are in its queue
  now, the promise is set.
\<close>

theorem push_wait_returns:
  assumes "pool_step\<^sup>*\<^sup>* (pool_start s0) p" "t \<in> set (blocked p)"
  shows "\<exists>r. (t, r) \<in> set (promises ((run_head ^^ length (entries p)) p))"
proof -
  from pool_run_inv [OF assms(1) start_inv] have w: "waits_for t p = 1" using assms(2) by (simp add: pool_inv_def)
  show ?thesis
  proof (cases "results_of t (promises p)")
    case Nil
    then have "filter (\<lambda>e. fst e = t) (entries p) \<noteq> []" using w by (auto simp: waits_for_def)
    then obtain f where "(t, f) \<in> set (entries p)" by (auto simp: filter_empty_conv)
    then show ?thesis by (rule run_head_progress)
  next
    case (Cons r rs)
    then have "r \<in> set (results_of t (promises p))" by simp
    then have "(t, r) \<in> set (promises p)" by (auto simp: results_of_def)
    with promises_kept show ?thesis by blast
  qed
qed

text \<open>Thread 5 adds handle 0 while the executor's own thread adds handle 1, and libcurl refuses handle 1.\<close>

definition exec_blank :: exec where
  "exec_blank = \<lparr>handles = \<lambda>_. handle_blank, m_queue = [], m_scheduled = [], m_connect_only_handles = [], m_exit = False, performed = []\<rparr>"

definition pushed_add :: "(exec, unit) pool" where
  "pushed_add = call_done 5 None (snd (push_wait 5 (add_handle 0 0) (pool_start exec_blank)))"

definition two_adds :: "(exec, unit) pool" where
  "two_adds = run_head (call_done 0 (fst (push_wait 0 (add_handle 1 27) pushed_add)) (snd (push_wait 0 (add_handle 1 27) pushed_add)))"

lemma pushed_add_run: "pool_step\<^sup>*\<^sup>* (pool_start exec_blank) pushed_add"
proof -
  have "push_wait 5 (add_handle 0 0) (pool_start exec_blank) = (None, snd (push_wait 5 (add_handle 0 0) (pool_start exec_blank)))"
    by (simp add: push_wait_def)
  then show ?thesis unfolding pushed_add_def by (intro r_into_rtranclp pool_step.call) (simp_all add: pool_start_def)
qed

lemma two_adds_run: "pool_step\<^sup>*\<^sup>* (pool_start exec_blank) two_adds"
proof -
  let ?q = "call_done 0 (fst (push_wait 0 (add_handle 1 27) pushed_add)) (snd (push_wait 0 (add_handle 1 27) pushed_add))"
  have "pool_step pushed_add ?q"
    by (rule pool_step.call [OF _ _ prod.collapse [symmetric]]) (simp_all add: pushed_add_def push_wait_def pool_start_def pool_push_def call_done_def)
  moreover have "entries ?q \<noteq> []" "worker_runs ?q"
    by (simp_all add: push_wait_def pushed_add_def pool_start_def run_fn_def call_done_def split: prod.splits)
  then have "pool_step ?q two_adds" unfolding two_adds_def by (intro pool_step.run)
  ultimately show ?thesis using pushed_add_run by (meson rtranclp.rtrancl_into_rtrancl)
qed

theorem push_wait_in_order_witness:
  "pool_step\<^sup>*\<^sup>* (pool_start exec_blank) two_adds \<and> promises two_adds = [(5, Inr ())] \<and> map fst (history two_adds) = [0, 5] \<and>
    (\<exists>e. returned two_adds = [(0, Inl e)] \<and> results_of 0 (fst (in_order (history two_adds) exec_blank)) = [Inl e]) \<and>
    results_of 5 (fst (in_order (history two_adds) exec_blank)) = [Inr ()]"
proof -
  have "is_connect_only handle_blank = False" by (simp add: is_connect_only_def handle_blank_def)
  then obtain e where d: "promises two_adds = [(5, Inr ())]" "returned two_adds = [(0, Inl e)]" "map fst (history two_adds) = [0, 5]"
    by (simp add: two_adds_def pushed_add_def call_done_def push_wait_def pool_start_def pool_push_def run_fn_def run_head_def add_handle_def exec_add_handle_def
        nothing_or_def exec_blank_def multi_add_handle_def multi_result_def upd_handle_def handle_blank_def is_connect_only_def Let_def)
  from push_wait_in_order [OF two_adds_run, of 5] push_wait_in_order [OF two_adds_run, of 0] d two_adds_run show ?thesis by simp
qed

theorem push_wait_returns_witness:
  "\<exists>p :: (exec, unit) pool. pool_step\<^sup>*\<^sup>* (pool_start exec_blank) p \<and> promises p = [] \<and> (\<exists>r. (5, r) \<in> set (promises (run_head p)))"
proof -
  have p: "5 \<in> set (blocked pushed_add)" "length (entries pushed_add) = 1" "promises pushed_add = []"
    by (simp_all add: pushed_add_def push_wait_def pool_start_def call_done_def)
  from push_wait_returns [OF pushed_add_run p(1)] pushed_add_run p(2,3) show ?thesis by (intro exI [of _ pushed_add]) simp
qed

end
