(* ===== verification/Tcp_Deadlock.thy ===== *)
theory Tcp_Deadlock
  imports Push_Wait Tcp_Poll
begin

text \<open>
  The mutex of a \<open>tcp_client\<close> against the executor's thread. \<open>tcp_client::disconnect\<close> locks it and
  resets the handle, which takes the handle out of the executor with \<open>push_wait\<close>; the
  callbacks that the thread calls when the socket of the handle is ready (\<open>Tcp_Poll\<close>) lock it too.
  \<open>mtx\<close> is the thread that holds it, \<open>in_callback\<close> whether the executor's thread is in such a callback.
\<close>

record site =
  pool :: "(exec, unit) pool"
  mtx :: "nat option"
  in_callback :: bool

definition site_start :: "exec \<Rightarrow> site" where
  "site_start e = \<lparr>pool = pool_start e, mtx = None, in_callback = False\<rparr>"

text \<open>\<open>disconnect\<close> on thread \<open>t\<close>, for the client whose handle is \<open>i\<close>: the reset, and what follows it.\<close>

definition disconnect_lock :: "nat \<Rightarrow> site \<Rightarrow> site" where
  "disconnect_lock t p = p\<lparr>mtx := Some t\<rparr>"

definition disconnect_reset :: "nat \<Rightarrow> nat \<Rightarrow> site \<Rightarrow> site" where
  "disconnect_reset i t p =
     (if h_executor (handles (shared (pool p)) i) \<noteq> None then p\<lparr>pool := snd (push_wait t (remove_handle i 0) (pool p))\<rparr>
      else p\<lparr>mtx := None\<rparr>)"

definition disconnect_done :: "nat \<Rightarrow> unit result \<Rightarrow> site \<Rightarrow> site" where
  "disconnect_done t r p = p\<lparr>pool := wait_done t r (pool p), mtx := None\<rparr>"

text \<open>
  One step of some thread. The executor's thread runs an entry, or finds the socket of the handle
  ready, waits for the mutex in the callback, and releases it.
\<close>

inductive site_step :: "nat \<Rightarrow> site \<Rightarrow> site \<Rightarrow> bool" for i where
  call: "t \<noteq> 0 \<Longrightarrow> mtx p \<noteq> Some t \<Longrightarrow> t \<notin> set (blocked (pool p)) \<Longrightarrow> site_step i p (p\<lparr>pool := snd (push_wait t f (pool p))\<rparr>)"
| wait_over: "(t, r) \<in> set (promises (pool p)) \<Longrightarrow> mtx p \<noteq> Some t \<Longrightarrow> site_step i p (p\<lparr>pool := wait_done t r (pool p)\<rparr>)"
| run: "\<not> in_callback p \<Longrightarrow> entries (pool p) \<noteq> [] \<Longrightarrow> site_step i p (p\<lparr>pool := run_head (pool p)\<rparr>)"
| ready: "\<not> in_callback p \<Longrightarrow> (\<exists>b c. (i, b, c) \<in> set (poll_set sockets (shared (pool p)))) \<Longrightarrow> site_step i p (p\<lparr>in_callback := True\<rparr>)"
| callback_lock: "in_callback p \<Longrightarrow> mtx p = None \<Longrightarrow> site_step i p (p\<lparr>mtx := Some 0\<rparr>)"
| callback_unlock: "in_callback p \<Longrightarrow> mtx p = Some 0 \<Longrightarrow> site_step i p (p\<lparr>mtx := None, in_callback := False\<rparr>)"
| lock: "t \<noteq> 0 \<Longrightarrow> mtx p = None \<Longrightarrow> t \<notin> set (blocked (pool p)) \<Longrightarrow> site_step i p (disconnect_lock t p)"
| reset: "t \<noteq> 0 \<Longrightarrow> mtx p = Some t \<Longrightarrow> t \<notin> set (blocked (pool p)) \<Longrightarrow> site_step i p (disconnect_reset i t p)"
| reset_done: "t \<noteq> 0 \<Longrightarrow> mtx p = Some t \<Longrightarrow> (t, r) \<in> set (promises (pool p)) \<Longrightarrow> site_step i p (disconnect_done t r p)"

text \<open>Thread \<open>t\<close> and the executor's wait for each other, and go on doing so.\<close>

definition locked_up :: "nat \<Rightarrow> site \<Rightarrow> bool" where
  "locked_up t p \<longleftrightarrow> in_callback p \<and> mtx p = Some t \<and> t \<noteq> 0 \<and> t \<in> set (blocked (pool p)) \<and> t \<notin> fst ` set (promises (pool p))"

lemma push_wait_keeps: "u \<noteq> 0 \<Longrightarrow> promises (snd (push_wait u f p)) = promises p \<and> set (blocked (snd (push_wait u f p))) = insert u (set (blocked p))"
  by (simp add: push_wait_def)

lemma locked_up_step: "site_step i p q \<Longrightarrow> locked_up t p \<Longrightarrow> locked_up t q"
proof (induction rule: site_step.induct)
  case (call u p f)
  then show ?case using push_wait_keeps [of u f "pool p"] by (simp add: locked_up_def)
next
  case (wait_over u r p)
  then have "u \<noteq> t" by (auto simp: locked_up_def)
  then have "t \<in> set (remove1 u (blocked (pool p)))" using wait_over by (simp add: locked_up_def in_set_remove1)
  moreover have "t \<notin> fst ` set (remove1 (u, r) (promises (pool p)))"
    using wait_over set_remove1_subset [of "(u, r)" "promises (pool p)"] by (auto simp: locked_up_def)
  ultimately show ?case using wait_over by (simp add: locked_up_def wait_done_def)
next
  case (reset u p)
  then show ?case by (simp add: locked_up_def)
next
  case (reset_done u p r)
  then show ?case by (force simp: locked_up_def)
qed (auto simp: locked_up_def)

lemma locked_up_history: "site_step i p q \<Longrightarrow> locked_up t p \<Longrightarrow> history (pool q) = history (pool p)"
  by (induction rule: site_step.induct) (auto simp: locked_up_def push_wait_def disconnect_lock_def disconnect_done_def)

lemma locked_up_run:
  assumes "(site_step i)\<^sup>*\<^sup>* p q" "locked_up t p"
  shows "locked_up t q \<and> history (pool q) = history (pool p)"
  using assms
proof (induction rule: rtranclp_induct)
  case (step q r)
  then have q: "locked_up t q" "history (pool q) = history (pool p)" by simp_all
  with locked_up_step [OF step.hyps(2) q(1)] locked_up_history [OF step.hyps(2) q(1)] show ?case by simp
qed simp

subsection \<open>Properties\<close>

definition one_client :: exec where
  "one_client = \<lparr>handles = \<lambda>_. handle_blank\<lparr>h_executor := Some 0, m_flags := flag_connect_only\<rparr>, m_queue = [], m_scheduled = [],
     m_connect_only_handles = [0], m_exit = False, performed = []\<rparr>"

definition never_ends :: "nat \<Rightarrow> nat \<Rightarrow> site \<Rightarrow> bool" where
  "never_ends i t p \<longleftrightarrow> (\<forall>q. (site_step i)\<^sup>*\<^sup>* p q \<longrightarrow> in_callback q \<and> mtx q = Some t \<and> t \<in> set (blocked (pool q)) \<and>
     history (pool q) = history (pool p))"

lemma locked_up_never_ends: "locked_up t p \<Longrightarrow> never_ends i t p"
  using locked_up_run by (fastforce simp: never_ends_def locked_up_def)

text \<open>
  C17: \<open>disconnect\<close> can deadlock with the executor: a thread that disconnects a polled client while its
  socket becomes ready holds the mutex and waits for the executor's thread to take the handle
  out, and that thread waits in the callback for the mutex. From the executor's table with one polled handle such a
  state is reached, and nothing that any thread does afterwards ends it: the call of
  \<open>disconnect\<close> never returns and the executor never runs another entry.
\<close>

theorem disconnect_deadlocks:
  "\<exists>p. (site_step 0)\<^sup>*\<^sup>* (site_start one_client) p \<and> (5, remove_handle 0 0) \<in> set (entries (pool p)) \<and> never_ends 0 5 p"
proof -
  let ?s = "site_start one_client"
  let ?a = "disconnect_lock 5 ?s"
  let ?b = "?a\<lparr>in_callback := True\<rparr>"
  let ?c = "disconnect_reset 0 5 ?b"
  have o: "\<not> is_paused pause_recv (handles one_client 0)"
    by (simp add: one_client_def is_paused_def flag_values)
  have "site_step 0 ?s ?a" by (rule site_step.lock) (simp_all add: site_start_def pool_start_def)
  moreover have "\<exists>b c. (0, b, c) \<in> set (poll_set Some (shared (pool ?a)))"
    using poll_set_mem [of 0 one_client Some] o by (auto simp: disconnect_lock_def site_start_def pool_start_def one_client_def)
  then have "site_step 0 ?a ?b" by (intro site_step.ready) (simp_all add: disconnect_lock_def site_start_def)
  moreover have "site_step 0 ?b ?c"
    by (rule site_step.reset) (simp_all add: disconnect_lock_def site_start_def pool_start_def)
  ultimately have r: "(site_step 0)\<^sup>*\<^sup>* ?s ?c" by (meson r_into_rtranclp rtranclp_trans)
  have c: "?c = ?b\<lparr>pool := snd (push_wait 5 (remove_handle 0 0) (pool_start one_client))\<rparr>"
    by (simp add: disconnect_reset_def disconnect_lock_def site_start_def) (simp add: pool_start_def one_client_def)
  have "locked_up 5 ?c" unfolding c by (simp add: locked_up_def disconnect_lock_def push_wait_def pool_start_def)
  moreover have "(5, remove_handle 0 0) \<in> set (entries (pool ?c))" unfolding c by (simp add: push_wait_def pool_start_def)
  ultimately show ?thesis using r locked_up_never_ends by blast
qed

end
