(* ===== verification/Awaiters.thy ===== *)
theory Awaiters
  imports Tcp_Client
begin

text \<open>
  The awaiters of \<open>curl/tcp_client.h\<close>. An awaiter keeps what its operation needs and \<open>m_result\<close>;
  \<open>await_suspend\<close> starts the operation with a callback that stores the result and resumes the
  coroutine. Coroutines are numbered, and the number of the callback is that of the coroutine.
  \<open>resumed\<close> has each coroutine that has been resumed, with what \<open>await_resume\<close> finds in \<open>m_result\<close>;
  \<open>suspended\<close> has those that have started to await. \<open>await_suspend\<close> is \<open>noexcept\<close>: an
  exception of the operation ends the program, \<open>None\<close>.
\<close>

record await_state =
  sock :: tcp
  suspended :: "nat list"
  resumed :: "(nat \<times> int) list"

definition await_start :: "tcp \<Rightarrow> await_state" where
  "await_start s = \<lparr>sock = s, suspended = [], resumed = []\<rparr>"

definition suspend_with :: "nat \<Rightarrow> cpp_error option \<times> tcp \<Rightarrow> await_state \<Rightarrow> await_state option" where
  "suspend_with h r a = (case r of (Some e, _) \<Rightarrow> None | (None, s) \<Rightarrow> Some (a\<lparr>sock := s, suspended := suspended a @ [h]\<rparr>))"

definition send_await_suspend :: "lib \<Rightarrow> cpp_error + nat option \<Rightarrow> bytes \<Rightarrow> nat \<Rightarrow> await_state \<Rightarrow> await_state option" where
  "send_await_suspend lib res buffer h a = suspend_with h (tcp_send lib res h buffer (sock a)) a"

definition send_all_await_suspend :: "lib \<Rightarrow> cpp_error + nat option \<Rightarrow> bytes \<Rightarrow> nat \<Rightarrow> await_state \<Rightarrow> await_state option" where
  "send_all_await_suspend lib res buffer h a = suspend_with h (tcp_send_all lib res h buffer (sock a)) a"

definition recv_await_suspend :: "lib \<Rightarrow> cpp_error + bytes option \<Rightarrow> nat \<Rightarrow> nat \<Rightarrow> await_state \<Rightarrow> await_state option" where
  "recv_await_suspend lib res sz h a = suspend_with h (tcp_recv lib res h sz (sock a)) a"

definition recv_all_await_suspend :: "lib \<Rightarrow> cpp_error + bytes option \<Rightarrow> nat \<Rightarrow> nat \<Rightarrow> await_state \<Rightarrow> await_state option" where
  "recv_all_await_suspend lib res sz h a = suspend_with h (tcp_recv_all lib res h sz (sock a)) a"

definition disconnect_await_suspend :: "lib \<Rightarrow> nat \<Rightarrow> await_state \<Rightarrow> await_state option" where
  "disconnect_await_suspend lib h a = suspend_with h (tcp_disconnect lib (Some h) (sock a)) a"

text \<open>\<open>connect\<close> calls the callback, which resumes the coroutine, before it returns.\<close>

definition connect_await_suspend :: "lib \<Rightarrow> string \<Rightarrow> u16 \<Rightarrow> bool \<Rightarrow> nat \<Rightarrow> await_state \<Rightarrow> await_state option" where
  "connect_await_suspend lib remote port ssl h a =
     (case tcp_connect lib remote port ssl (sock a) of
        (codes, Some e, _) \<Rightarrow> None
      | (codes, None, s) \<Rightarrow> Some (a\<lparr>sock := s, suspended := suspended a @ [h], resumed := resumed a @ map (\<lambda>c. (h, c)) codes\<rparr>))"

text \<open>An entry of the executor's queue: the callbacks of the awaiters.\<close>

definition resume :: "nat \<Rightarrow> int \<Rightarrow> await_state \<Rightarrow> await_state" where
  "resume h n a = a\<lparr>resumed := resumed a @ [(h, n)]\<rparr>"

definition run_callback :: "task \<Rightarrow> await_state \<Rightarrow> await_state" where
  "run_callback t a =
     (case t of
        Send_done h n \<Rightarrow> resume h (int n) a
      | Recv_done h d \<Rightarrow> resume h (int (length d)) a
      | Disconnected r w cb \<Rightarrow>
          (let a = a\<lparr>sock := run_disconnected r w (sock a)\<rparr> in case cb of None \<Rightarrow> a | Some h \<Rightarrow> resume h 0 a)
      | Cancel_recv op \<Rightarrow> a\<lparr>sock := cancel_recv op (sock a)\<rparr>
      | Cancel_send op \<Rightarrow> a\<lparr>sock := cancel_send op (sock a)\<rparr>
      | Cancel_user cb \<Rightarrow> a)"

inductive await_step :: "lib \<Rightarrow> await_state \<Rightarrow> await_state \<Rightarrow> bool" for lib where
  send: "send_await_suspend lib res buffer h a = Some b \<Longrightarrow> await_step lib a b"
| send_all: "send_all_await_suspend lib res buffer h a = Some b \<Longrightarrow> await_step lib a b"
| recv: "recv_await_suspend lib rres sz h a = Some b \<Longrightarrow> await_step lib a b"
| recv_all: "recv_all_await_suspend lib rres sz h a = Some b \<Longrightarrow> await_step lib a b"
| disconnect: "disconnect_await_suspend lib h a = Some b \<Longrightarrow> await_step lib a b"
| connect: "connect_await_suspend lib remote port ssl h a = Some b \<Longrightarrow> await_step lib a b"
| writable: "on_writable res (sock a) = (x, s) \<Longrightarrow> await_step lib a (a\<lparr>sock := s\<rparr>)"
| readable: "on_readable rres bits (sock a) = (x, s) \<Longrightarrow> await_step lib a (a\<lparr>sock := s\<rparr>)"
| flow: "await_step lib a (a\<lparr>sock := pause_receive lib p (sock a)\<rparr>)"
| entry: "queue (sock a) = t # post \<Longrightarrow> await_step lib a (run_callback t (a\<lparr>sock := (sock a)\<lparr>queue := post\<rparr>\<rparr>))"

inductive_cases await_stepE: "await_step lib a b"

text \<open>The coroutines that an entry will resume.\<close>

fun done_cb :: "task \<Rightarrow> nat list" where
  "done_cb (Disconnected _ _ (Some h)) = [h]"
| "done_cb _ = []"

definition done_cbs :: "tcp \<Rightarrow> nat multiset" where
  "done_cbs s = mset (concat (map done_cb (queue s)))"

definition waiting :: "tcp \<Rightarrow> nat multiset" where
  "waiting s = callbacks s + done_cbs s"

definition accounted :: "await_state \<Rightarrow> bool" where
  "accounted a \<longleftrightarrow> mset (map fst (resumed a)) + waiting (sock a) = mset (suspended a)"

lemma done_cbs_simps [simp]: "done_cbs (push t s) = done_cbs s + mset (done_cb t)" "done_cbs (s\<lparr>m_handle := h\<rparr>) = done_cbs s"
  "done_cbs (s\<lparr>m_is_connected := c\<rparr>) = done_cbs s" "done_cbs (s\<lparr>m_send_handler := w\<rparr>) = done_cbs s"
  "done_cbs (s\<lparr>m_recv_handler := r\<rparr>) = done_cbs s" "done_cbs (take_wire d s) = done_cbs s"
  "done_cbs (wait_send lib wop s) = done_cbs s" "done_cbs (wait_recv lib rop s) = done_cbs s"
  by (simp_all add: done_cbs_def)

lemma transfers_done_cbs:
  "tcp_send lib res cb data s = (e, s') \<Longrightarrow> done_cbs s' = done_cbs s" "tcp_send_all lib res cb data s = (e, s') \<Longrightarrow> done_cbs s' = done_cbs s"
  "tcp_recv lib rres cb n s = (e, s') \<Longrightarrow> done_cbs s' = done_cbs s" "tcp_recv_all lib rres cb n s = (e, s') \<Longrightarrow> done_cbs s' = done_cbs s"
  by (auto simp: tcp_send_def tcp_send_all_def tcp_recv_def tcp_recv_all_def Let_def split: if_splits sum.splits option.splits)

lemma call_done_cbs: "call_send op r s = (op', bits, s') \<Longrightarrow> done_cbs s' = done_cbs s"
  "call_recv b rop rr s = (rop', bits, s') \<Longrightarrow> done_cbs s' = done_cbs s"
  by (cases op; cases r; auto simp: Let_def split: if_splits) (cases rop; cases rr; auto simp: Let_def split: if_splits)

lemma socket_done_cbs: "on_writable res s = (x, s') \<Longrightarrow> done_cbs s' = done_cbs s" "on_readable rres bits s = (y, s') \<Longrightarrow> done_cbs s' = done_cbs s"
  by (auto simp: on_writable_def on_readable_def split: option.splits sum.splits prod.splits dest: call_done_cbs)

lemma cancel_done_cbs [simp]: "done_cbs (cancel_send op s) = done_cbs s" "done_cbs (cancel_recv rop s) = done_cbs s"
  by (cases op; simp) (cases rop; simp)

lemma suspend_accounted:
  assumes "suspend_with h r a = Some b" "accounted a" "\<And>s. r = (None, s) \<Longrightarrow> waiting s = waiting (sock a) + {#h#}"
  shows "accounted b"
  using assms by (auto simp: suspend_with_def accounted_def split: prod.splits option.splits)

lemma connect_codes:
  assumes "tcp_connect lib remote port ssl s = (codes, None, s')"
  shows "codes = [0] \<and> callbacks s' = callbacks s \<and> done_cbs s' = done_cbs s"
proof -
  obtain e h where c: "connect_setup lib remote port ssl (m_handle s) = (e, h)" by (cases "connect_setup lib remote port ssl (m_handle s)")
  have e: "e = None" using assms c by (cases e) (auto simp: tcp_connect_def)
  have "m_done_callback h = Some 2"
    using c e by (auto simp: connect_setup_def next_do_def pause_def curl_pause_def set_donefunction_def Let_def
        split: prod.splits option.splits if_splits)
  then show ?thesis using assms c e
    by (auto simp: tcp_connect_def perform_def Let_def callbacks_def done_cbs_def split: if_splits)
qed

lemma entry_accounted:
  assumes "accounted a" "queue (sock a) = t # post"
  shows "accounted (run_callback t (a\<lparr>sock := (sock a)\<lparr>queue := post\<rparr>\<rparr>))"
proof -
  let ?s = "(sock a)\<lparr>queue := post\<rparr>"
  have q: "callbacks (sock a) = callbacks ?s + mset (in_task t)" "done_cbs (sock a) = done_cbs ?s + mset (done_cb t)"
    using assms(2) by (simp_all add: callbacks_def done_cbs_def)
  have d: "callbacks (run_disconnected r w ?s) = callbacks ?s + (mset (in_option op_recv r) + mset (in_option op_send w))"
    "done_cbs (run_disconnected r w ?s) = done_cbs ?s" for r w
    by (cases r; cases w; simp add: run_disconnected_def)+
  have "mset (map fst (resumed a)) + waiting (sock a) = mset (suspended a)" using assms(1) by (simp add: accounted_def)
  then show ?thesis
    using q d by (cases t) (auto simp: run_callback_def resume_def accounted_def waiting_def Let_def split: option.splits)
qed

lemma await_step_accounted: "await_step lib a b \<Longrightarrow> accounted a \<Longrightarrow> accounted b"
proof (induction rule: await_step.induct)
  case (send res buffer h a b)
  then show ?case unfolding send_await_suspend_def
    by (rule suspend_accounted) (auto simp: waiting_def transfers_done_cbs dest: tcp_step_callbacks [OF tcp_step.send])
next
  case (send_all res buffer h a b)
  then show ?case unfolding send_all_await_suspend_def
    by (rule suspend_accounted) (auto simp: waiting_def transfers_done_cbs dest: tcp_step_callbacks [OF tcp_step.send_all])
next
  case (recv rres sz h a b)
  then show ?case unfolding recv_await_suspend_def
    by (rule suspend_accounted) (auto simp: waiting_def transfers_done_cbs dest: tcp_step_callbacks [OF tcp_step.recv])
next
  case (recv_all rres sz h a b)
  then show ?case unfolding recv_all_await_suspend_def
    by (rule suspend_accounted) (auto simp: waiting_def transfers_done_cbs dest: tcp_step_callbacks [OF tcp_step.recv_all])
next
  case (disconnect h a b)
  have "done_cbs s = done_cbs (sock a) + {#h#}" if "tcp_disconnect lib (Some h) (sock a) = (None, s)" for s
    using that by (auto simp: tcp_disconnect_def Let_def split: prod.splits option.splits)
  with disconnect show ?case unfolding disconnect_await_suspend_def
    by (elim suspend_accounted) (auto simp: waiting_def dest: tcp_step_callbacks [OF tcp_step.disconnect])
next
  case (connect remote port ssl h a b)
  then show ?case
    by (auto simp: connect_await_suspend_def accounted_def waiting_def split: prod.splits option.splits dest!: connect_codes)
next
  case (writable res a x s)
  with tcp_step_callbacks [OF tcp_step.writable] socket_done_cbs show ?case by (fastforce simp: accounted_def waiting_def)
next
  case (readable rres bits a x s)
  with tcp_step_callbacks [OF tcp_step.readable] socket_done_cbs show ?case by (fastforce simp: accounted_def waiting_def)
next
  case (flow a p)
  then show ?case by (simp add: accounted_def waiting_def pause_receive_def callbacks_def)
next
  case (entry a t post)
  from entry_accounted [OF entry(2,1)] show ?case .
qed

lemma await_run_accounted: "(await_step lib)\<^sup>*\<^sup>* a b \<Longrightarrow> accounted a \<Longrightarrow> accounted b"
  by (induction rule: rtranclp_induct) (auto dest: await_step_accounted)

subsection \<open>Properties\<close>

text \<open>
  C12: Every coroutine that awaits an operation of a client is resumed exactly once: whatever it
  awaits (connecting, disconnecting, sending, receiving) and whatever happens on the connection, the
  coroutines resumed so far and those that a pending handler or an entry of the executor's
  queue will resume are together those that started to await, each as often as it did.
\<close>

theorem coroutines_resumed_once:
  assumes "(await_step lib)\<^sup>*\<^sup>* (await_start (tcp_ctor h)) a"
  shows "mset (map fst (resumed a)) + mset (concat (map (\<lambda>t. in_task t @ done_cb t) (queue (sock a)))) +
    mset (in_option op_send (m_send_handler (sock a))) + mset (in_option op_recv (m_recv_handler (sock a))) = mset (suspended a)"
proof -
  have "accounted (await_start (tcp_ctor h))"
    by (simp add: accounted_def await_start_def waiting_def callbacks_def done_cbs_def tcp_ctor_def)
  from await_run_accounted [OF assms this] have "accounted a" .
  moreover have "mset (concat (map (\<lambda>t. in_task t @ done_cb t) q)) = mset (concat (map in_task q)) + mset (concat (map done_cb q))" for q
    by (induction q) simp_all
  ultimately show ?thesis by (simp add: accounted_def waiting_def callbacks_def done_cbs_def ac_simps)
qed

text \<open>
  \<open>co_await send_all\<close> gives the size: on a connection that takes the data in any pieces, once the last is
  taken and the executor has run its entry the coroutine has been resumed once, with the
  number of bytes it asked to send, and these are on the wire.
\<close>

theorem awaited_send_all_sends_all:
  assumes "m_is_connected s" "m_send_handler s = None" "queue s = []" "Some 0 \<notin> set (r # rs)" "0 < n" "counts (r # rs) + n = length data"
    "send_all_await_suspend lib (Inr r) data h (await_start s) = Some a"
  shows "\<exists>t b. queue (writable_run (rs @ [Some n]) (sock a)) = [t] \<and>
    run_callback t (a\<lparr>sock := writable_run (rs @ [Some n]) (sock a)\<rparr>) = b \<and>
    resumed b = [(h, int (length data))] \<and> wire (sock b) = wire s @ data"
proof -
  obtain e s1 where s1: "tcp_send_all lib (Inr r) h data s = (e, s1)" by (cases "tcp_send_all lib (Inr r) h data s")
  from send_all_answers [of s "r # rs" data n "r # rs @ [Some n]" lib h e s1] assms(1,2,4-6) s1 have d: "e = None" "wire (writable_run (rs @ [Some n]) s1) = wire s @ data"
    "queue (writable_run (rs @ [Some n]) s1) = [Send_done h (length data)]" using assms(3) by simp_all
  have "a = \<lparr>sock = s1, suspended = [h], resumed = []\<rparr>"
    using assms(7) s1 d(1) by (simp add: send_all_await_suspend_def suspend_with_def await_start_def)
  with d show ?thesis by (simp add: run_callback_def resume_def)
qed

theorem awaited_send_all_sends_all_witness:
  "\<exists>a b. send_all_await_suspend obliging (Inr (Some 1)) [1, 2, 3, 4] 7 (await_start tcp_example) = Some a \<and>
    b = run_callback (Send_done 7 4) (a\<lparr>sock := writable_run [None, Some 3] (sock a)\<rparr>) \<and> resumed b = [(7, 4)] \<and> wire (sock b) = [1, 2, 3, 4]"
proof -
  obtain a where a: "send_all_await_suspend obliging (Inr (Some 1)) [1, 2, 3, 4] 7 (await_start tcp_example) = Some a"
    by (simp add: send_all_await_suspend_def suspend_with_def tcp_send_all_def tcp_example_def tcp_ctor_def await_start_def Let_def)
  then have "queue (writable_run [None, Some 3] (sock a)) = [Send_done 7 4]"
    by (auto simp: send_all_await_suspend_def suspend_with_def tcp_send_all_def tcp_example_def tcp_ctor_def await_start_def
        wait_send_def on_writable_def Let_def)
  with awaited_send_all_sends_all [OF _ _ _ _ _ _ a, of "[None]" 3] a show ?thesis by (auto simp: tcp_example_def tcp_ctor_def)
qed

theorem coroutines_resumed_once_witness:
  "\<exists>a. (await_step obliging)\<^sup>*\<^sup>* (await_start (tcp_ctor handle_blank)) a \<and> suspended a = [7, 8] \<and> resumed a = [(7, 0)] \<and>
    mset (concat (map (\<lambda>t. in_task t @ done_cb t) (queue (sock a)))) = {#8#}"
proof -
  let ?s0 = "tcp_ctor handle_blank"
  let ?a0 = "await_start ?s0"
  let ?a1 = "?a0\<lparr>sock := push (Send_done 7 0) ?s0, suspended := [7]\<rparr>"
  let ?a2 = "?a1\<lparr>sock := push (Recv_done 8 []) (sock ?a1), suspended := [7, 8]\<rparr>"
  let ?a3 = "run_callback (Send_done 7 0) (?a2\<lparr>sock := (sock ?a2)\<lparr>queue := [Recv_done 8 []]\<rparr>\<rparr>)"
  have "send_await_suspend obliging (Inr None) [1] 7 ?a0 = Some ?a1"
    by (simp add: send_await_suspend_def suspend_with_def tcp_send_def tcp_ctor_def await_start_def)
  then have "await_step obliging ?a0 ?a1" by (rule await_step.send)
  moreover have "recv_await_suspend obliging (Inr None) 4 8 ?a1 = Some ?a2"
    by (simp add: recv_await_suspend_def suspend_with_def tcp_recv_def tcp_ctor_def await_start_def push_def)
  then have "await_step obliging ?a1 ?a2" by (rule await_step.recv)
  moreover have "await_step obliging ?a2 ?a3" by (rule await_step.entry) (simp add: tcp_ctor_def)
  ultimately have r: "(await_step obliging)\<^sup>*\<^sup>* ?a0 ?a3" by (meson r_into_rtranclp rtranclp_trans)
  have "suspended ?a3 = [7, 8]" "resumed ?a3 = [(7, 0)]" "m_send_handler (sock ?a3) = None" "m_recv_handler (sock ?a3) = None"
    by (simp_all add: run_callback_def resume_def await_start_def tcp_ctor_def)
  with coroutines_resumed_once [OF r] r show ?thesis by (intro exI [of _ ?a3]) simp
qed

end
