(* ===== verification/Web_Async.thy ===== *)
theory Web_Async
  imports Webclient Executor
begin

text \<open>
  \<open>http_request::execute_async\<close> in \<open>src/curl/webclient.cpp\<close> on the executor: the awaiter lays the
  request on a handle of its own, hands it to the executor and is resumed when the executor runs the
  done callback. The handle has the number \<open>i\<close>, the coroutine (as its done callback) the number \<open>cb\<close>.

  \<open>data\<close> constructs the \<open>exec_awaiter\<close>, and with it the stop callback, before the handle the stop
  callback works on: with a stop token that was stopped before, the behaviour is undefined, \<open>None\<close>.
\<close>

definition execute_awaiter_ctor ::
  "lib \<Rightarrow> c_append \<Rightarrow> c_free \<Rightarrow> (callback \<Rightarrow> nat) \<Rightarrow> bool \<Rightarrow> bool \<Rightarrow> nat \<Rightarrow> http_request \<Rightarrow> body_storage \<Rightarrow> exec \<Rightarrow> heap \<Rightarrow> (cpp_error + exec) option" where
  "execute_awaiter_ctor lib app free number stopped init_ok i req store s hp =
     (if stopped then None
      else case handle_ctor lib init_ok of (Some e, _) \<Rightarrow> Some (Inl e) | (None, hdl) \<Rightarrow>
        case prepare_handle lib app free number req store hdl hp of
          None \<Rightarrow> None
        | Some ((Some e, _), _) \<Rightarrow> Some (Inl e)
        | Some ((None, hdl), _) \<Rightarrow> Some (Inr (upd_handle i hdl s)))"

text \<open>\<open>await_suspend\<close> is \<open>noexcept\<close>: \<open>None\<close> is the end of the program. \<open>res\<close> is libcurl's answer to the adding of the handle.\<close>

definition execute_await_suspend :: "(handle \<Rightarrow> step) \<Rightarrow> nat \<Rightarrow> nat \<Rightarrow> int \<Rightarrow> exec \<Rightarrow> exec option" where
  "execute_await_suspend configure i cb res s =
     (case configure (handles s i) of (Some _, _) \<Rightarrow> None | (None, hdl) \<Rightarrow>
      case exec_await_suspend i cb res (upd_handle i hdl s) of (Some _, _) \<Rightarrow> None | (None, s) \<Rightarrow> Some s)"

text \<open>The destructor deletes the data: the handle leaves the executor and is gone.\<close>

definition execute_awaiter_dtor :: "nat \<Rightarrow> int \<Rightarrow> int \<Rightarrow> exec \<Rightarrow> cpp_error option \<times> exec" where
  "execute_awaiter_dtor i res res' s = handle_leave i res res' s"

subsection \<open>Until the coroutine is resumed\<close>

record async =
  worker :: exec
  received :: http_response

text \<open>
  While the handle is in the multi, libcurl delivers; a message of libcurl is about a handle in the
  multi. \<open>elsewhere\<close> is anything that other users of the executor do: it leaves this handle alone
  and neither pushes nor runs jobs for this coroutine.
\<close>

inductive async_step :: "nat \<Rightarrow> nat \<Rightarrow> body_storage \<Rightarrow> (job \<Rightarrow> job list) \<Rightarrow> async \<Rightarrow> transfer_event list \<Rightarrow> async \<Rightarrow> bool"
  for i cb store pushes where
  delivered: "h_multi (handles (worker a) i) = Some 0 \<Longrightarrow>
    async_step i cb store pushes a [ev] (a\<lparr>received := deliver store ev (received a)\<rparr>)"
| finished: "h_multi (handles (worker a) j) = Some 0 \<Longrightarrow>
    async_step i cb store pushes a [] (a\<lparr>worker := act (Finished j res) (worker a)\<rparr>)"
| stopped: "async_step i cb store pushes a [] (a\<lparr>worker := act (Stopped j) (worker a)\<rparr>)"
| runs: "m_queue (worker a) = j # q \<Longrightarrow>
    async_step i cb store pushes a [] (a\<lparr>worker := run_job pushes j ((worker a)\<lparr>m_queue := q\<rparr>)\<rparr>)"
| elsewhere: "handles s i = handles (worker a) i \<Longrightarrow> \<forall>j. j \<noteq> i \<longrightarrow> m_done_callback (handles s j) \<noteq> Some cb \<Longrightarrow>
    filter (about cb) (m_queue s) = filter (about cb) (m_queue (worker a)) \<Longrightarrow>
    filter (about cb) (performed s) = filter (about cb) (performed (worker a)) \<Longrightarrow>
    async_step i cb store pushes a [] (a\<lparr>worker := s\<rparr>)"

inductive async_run :: "nat \<Rightarrow> nat \<Rightarrow> body_storage \<Rightarrow> (job \<Rightarrow> job list) \<Rightarrow> async \<Rightarrow> transfer_event list \<Rightarrow> async \<Rightarrow> bool"
  for i cb store pushes where
  start: "async_run i cb store pushes a [] a"
| more: "async_run i cb store pushes a evs b \<Longrightarrow> async_step i cb store pushes b evs' c \<Longrightarrow> async_run i cb store pushes a (evs @ evs') c"

text \<open>Where the transfer is: running, its result queued, its cancellation queued, or reported.\<close>

definition transfer_at :: "nat \<Rightarrow> nat \<Rightarrow> exec \<Rightarrow> bool" where
  "transfer_at i cb s \<longleftrightarrow> (\<forall>j. j \<noteq> i \<longrightarrow> m_done_callback (handles s j) \<noteq> Some cb) \<and> h_multi (handles s i) \<in> {None, Some 0} \<and>
     (is_connect_only (handles s i) \<longrightarrow> h_multi (handles s i) = None) \<and>
     (let q = filter (about cb) (m_queue s); p = filter (about cb) (performed s); m = m_done_callback (handles s i) in
      m = Some cb \<and> q = [] \<and> p = [] \<or>
      m = None \<and> q = [Abort i cb] \<and> p = [] \<or>
      m = None \<and> h_multi (handles s i) \<noteq> Some 0 \<and> (\<exists>r. q = [Done_cb cb r] \<and> p = [] \<or> q = [] \<and> p = [Done_cb cb r]))"

lemma performed_act [simp]: "performed (act a s) = performed s"
  by (cases a) (auto simp: handle_event_def stop_callback_def upd_handle_def exec_push_def Let_def split: option.splits)

lemma act_flags: "is_connect_only (handles (act a s) i) = is_connect_only (handles s i)"
  "h_multi (handles (act a s) i) \<in> {h_multi (handles s i), None}"
  by (cases a; auto simp: handle_event_def stop_callback_def upd_handle_def exec_push_def multi_remove_handle_def multi_result_def is_connect_only_def Let_def
      split: option.splits)+

lemma act_finished: "h_multi (handles s i) = Some 0 \<Longrightarrow> \<not> is_connect_only (handles s i) \<Longrightarrow> h_multi (handles (act (Finished i res) s) i) = None"
  by (auto simp: handle_event_def upd_handle_def exec_push_def multi_remove_handle_def multi_result_def is_connect_only_def Let_def split: option.splits)

lemma act_transfer:
  assumes "transfer_at i cb s" "\<And>res. a = Finished i res \<Longrightarrow> h_multi (handles s i) = Some 0"
  shows "transfer_at i cb (act a s)"
proof -
  note e = act_effect [of a s]
  have o: "\<forall>j. j \<noteq> i \<longrightarrow> m_done_callback (handles s j) \<noteq> Some cb" using assms(1) by (simp add: transfer_at_def)
  show ?thesis
  proof (cases "target a = i")
    case False
    then have "m_done_callback (handles s (target a)) \<noteq> Some cb" using o by blast
    then have "filter (about cb) (m_queue (act a s)) = filter (about cb) (m_queue s)"
      using e by (auto split: option.splits)
    then show ?thesis using assms(1) e False act_flags [of a s i] unfolding transfer_at_def Let_def by (auto simp del: act.simps)
  next
    case True
    show ?thesis
    proof (cases a)
      case (Finished k res)
      then show ?thesis using assms e True act_flags [of a s i] act_finished [of s i res]
        unfolding transfer_at_def Let_def by (auto simp del: act.simps split: option.splits)
    next
      case (Stopped k)
      then show ?thesis using assms(1) e True act_flags [of a s i] unfolding transfer_at_def Let_def by (auto simp del: act.simps split: option.splits)
    qed
  qed
qed

lemma run_transfer:
  assumes "transfer_at i cb s" "m_queue s = j # q" "list_all is_User (pushes (case j of Abort _ c \<Rightarrow> Done_cb c 42 | _ \<Rightarrow> j))"
  shows "transfer_at i cb (run_job pushes j (s\<lparr>m_queue := q\<rparr>))"
proof -
  have u: "filter (about cb) js = []" if "list_all is_User js" for js
    using that by (induction js) (auto elim!: is_User_def [THEN iffD1, THEN exE] simp: is_User_def)
  show ?thesis
  proof (cases j)
    case (User n)
    then show ?thesis using assms u [OF assms(3)] unfolding transfer_at_def Let_def by (auto simp: run_job_def)
  next
    case (Done_cb c r)
    then show ?thesis using assms u [OF assms(3)] unfolding transfer_at_def Let_def by (auto simp: run_job_def)
  next
    case (Abort k c)
    have "k = i" if "c = cb" using assms(1,2) that Abort unfolding transfer_at_def Let_def by auto
    then show ?thesis using assms u [OF assms(3)] Abort unfolding transfer_at_def Let_def
      by (auto simp: run_job_def upd_handle_def multi_remove_handle_def multi_result_def is_connect_only_def)
  qed
qed

lemma async_step_transfer:
  assumes "async_step i cb store pushes a evs b" "transfer_at i cb (worker a)" "\<forall>j. list_all is_User (pushes j)"
  shows "transfer_at i cb (worker b) \<and> received b = fold (deliver store) evs (received a)"
  using assms
proof (induction rule: async_step.induct)
  case (finished a j res)
  then show ?case using act_transfer [of i cb "worker a" "Finished j res"] by auto
next
  case (stopped a j)
  then show ?case using act_transfer [of i cb "worker a" "Stopped j"] by auto
next
  case (runs a j q)
  then show ?case using run_transfer [of i cb "worker a" j q pushes] by (simp split: job.splits)
next
  case (elsewhere s a)
  then show ?case by (simp add: transfer_at_def)
qed simp

lemma async_run_transfer:
  assumes "async_run i cb store pushes a evs b" "transfer_at i cb (worker a)" "\<forall>j. list_all is_User (pushes j)"
  shows "transfer_at i cb (worker b) \<and> received b = fold (deliver store) evs (received a)"
  using assms
proof (induction rule: async_run.induct)
  case (more a evs b evs' c)
  then show ?case using async_step_transfer [OF more.hyps(2)] by simp
qed simp

lemma awaiter_starts:
  assumes "execute_await_suspend configure i cb 0 s = Some s'" "configure (handles s i) = (None, hdl)" "h_multi hdl = None"
    "\<forall>j. j \<noteq> i \<longrightarrow> m_done_callback (handles s j) \<noteq> Some cb"
    "filter (about cb) (m_queue s) = []" "filter (about cb) (performed s) = []"
  shows "transfer_at i cb s'"
  using assms
  by (auto simp: execute_await_suspend_def exec_await_suspend_def exec_add_handle_def upd_handle_def set_donefunction_def
      multi_add_handle_def multi_result_def is_connect_only_def transfer_at_def Let_def split: if_splits)

lemma reported_handle_leaves:
  assumes "transfer_at i cb s" "Done_cb cb r \<in> set (performed s)"
  shows "filter (about cb) (performed s) = [Done_cb cb r]" "fst (handle_leave i res res' s) = None"
proof -
  define p where "p = filter (about cb) (performed s)"
  have "Done_cb cb r \<in> set p" using assms(2) by (simp add: p_def)
  then have p: "p = [Done_cb cb r]" and m: "h_multi (handles s i) = None"
    using assms(1) unfolding transfer_at_def Let_def p_def [symmetric] by auto
  show "filter (about cb) (performed s) = [Done_cb cb r]" using p by (simp add: p_def)
  show "fst (handle_leave i res res' s) = None"
    using m by (auto simp: handle_leave_def exec_remove_handle_def multi_remove_handle_def upd_handle_def is_connect_only_def Let_def)
qed

text \<open>
  C19: A request that is awaited ends like the same request executed synchronously, whatever else the
  executor does, provided that libcurl delivers the same, and with the same result, and that the result
  hook does the same (\<open>E\<close> is what it throws). The coroutine is resumed once. After a failed transfer both
  throw libcurl's error, except that \<open>await_resume\<close> calls the hook first and throws what the hook throws;
  after a transfer without error both throw what the hook throws, else both throw when the response code
  cannot be read, else the awaiter returns the response without cookies, and \<open>execute_sync\<close> the same
  response with the cookies, or it throws because the list of cookies cannot be read. The awaiter can then
  be destroyed: its handle leaves the executor without an exception.
\<close>

theorem async_like_sync:
  assumes "execute_awaiter_ctor lib app free number False init_ok i req store s0 hp = Some (Inr s1)"
    "configure (handles s1 i) = (None, hdl)" "h_multi hdl = None" "lib (calls hdl) Easy_perform = r"
    "\<forall>h. fst (result_hook h) = E" "\<forall>j. list_all is_User (pushes j)"
    "\<forall>j. j \<noteq> i \<longrightarrow> m_done_callback (handles s0 j) \<noteq> Some cb"
    "filter (about cb) (m_queue s0) = []" "filter (about cb) (performed s0) = []"
    "execute_await_suspend configure i cb 0 s1 = Some s2"
    "async_run i cb store pushes \<lparr>worker = s2, received = http_response_blank\<rparr> evs a"
    "Done_cb cb r \<in> set (performed (worker a))"
  shows "filter (about cb) (performed (worker a)) = [Done_cb cb r] \<and> fst (execute_awaiter_dtor i res res' (worker a)) = None \<and>
    (let sync = execute_sync lib app free number configure result_hook init_ok evs code lines req store hp;
         async = execute_await_resume result_hook r code (handles (worker a) i) (received a) in
     (r \<noteq> 0 \<longrightarrow> sync = Some (Inl (Curl_exception r False)) \<and> async = Inl (case E of None \<Rightarrow> Curl_exception r False | Some e \<Rightarrow> e)) \<and>
     (r = 0 \<longrightarrow> (case E of Some e \<Rightarrow> sync = Some (Inl e) \<and> async = Inl e | None \<Rightarrow>
        (case get_response_code (fst code) (snd code) of Inl e \<Rightarrow> sync = Some (Inl e) \<and> async = Inl e | Inr c \<Rightarrow>
          (\<exists>resp. async = Inr resp \<and> status_code resp = c \<and> resp_cookies resp = [] \<and>
             sync = (case get_info 0x400000 0x40001c (fst lines) (snd lines) of Inl e \<Rightarrow> Some (Inl e) | Inr ls \<Rightarrow>
               map_option (map_sum id (\<lambda>cs. resp\<lparr>resp_cookies := cs\<rparr>)) (read_cookies ls)))))))"
proof -
  obtain h0 h1 hp' where c: "handle_ctor lib init_ok = (None, h0)"
      "prepare_handle lib app free number req store h0 hp = Some ((None, h1), hp')" and s1: "s1 = upd_handle i h1 s0"
    using assms(1) by (auto simp: execute_awaiter_ctor_def split: prod.splits option.splits)
  have p: "next_do (next_do (None, h1) configure) (\<lambda>hdl. snd (perform lib hdl)) =
      (if r \<noteq> 0 then Some (Curl_exception r False) else None, hdl\<lparr>calls := calls hdl @ [(Easy_perform, r)]\<rparr>)"
    using assms(2-4) by (simp add: s1 upd_handle_def next_do_def perform_def)
  have "transfer_at i cb s2" by (rule awaiter_starts [OF assms(10) assms(2,3)]) (use assms(7-9) in \<open>simp_all add: s1 upd_handle_def\<close>)
  then have t: "transfer_at i cb (worker a)" and rec: "received a = fold (deliver store) evs http_response_blank"
    using async_run_transfer [OF assms(11)] assms(6) by simp_all
  have cookies: "resp_cookies (fold (deliver store) es x) = resp_cookies x" for es x
    by (induction es arbitrary: x) (simp_all add: deliver_def header_cb_def Let_def split: transfer_event.splits option.splits)
  have blank: "resp_cookies (fold (deliver store) evs http_response_blank) = []" by (simp add: cookies http_response_blank_def)
  have q: "fst (next_do (if r \<noteq> 0 then Some (Curl_exception r False) else None, h) result_hook) =
      (if r \<noteq> 0 then Some (Curl_exception r False) else E)" for h
    using assms(5) by (simp add: next_do_def)
  have sync: "execute_sync lib app free number configure result_hook init_ok evs code lines req store hp =
      (if r \<noteq> 0 then Some (Inl (Curl_exception r False)) else case E of Some e \<Rightarrow> Some (Inl e) | None \<Rightarrow> 
        let response = fold (deliver store) evs http_response_blank in
          case get_response_code (fst code) (snd code) of Inl e \<Rightarrow> Some (Inl e) | Inr c \<Rightarrow>
          case get_info 0x400000 0x40001c (fst lines) (snd lines) of Inl e \<Rightarrow> Some (Inl e) | Inr ls \<Rightarrow>
          case read_cookies ls of None \<Rightarrow> None | Some (Inl e) \<Rightarrow> Some (Inl e) | Some (Inr cs) \<Rightarrow>
            Some (Inr (response\<lparr>status_code := c, resp_cookies := cs\<rparr>)))"
    unfolding execute_sync_def c option.case prod.case p using q [of "hdl\<lparr>calls := calls hdl @ [(Easy_perform, r)]\<rparr>"]
    by (auto split: prod.splits option.splits)
  have resume: "execute_await_resume result_hook r code h resp = (case E of Some e \<Rightarrow> Inl e | None \<Rightarrow>
      if r \<noteq> 0 then Inl (Curl_exception r False)
      else case get_response_code (fst code) (snd code) of Inl e \<Rightarrow> Inl e | Inr c \<Rightarrow> Inr (resp\<lparr>status_code := c\<rparr>))" for h resp
    using assms(5) [rule_format, of h] by (cases "result_hook h") (auto simp: execute_await_resume_def split: option.splits)
  have "filter (about cb) (performed (worker a)) = [Done_cb cb r]" "fst (execute_awaiter_dtor i res res' (worker a)) = None"
    using reported_handle_leaves [OF t assms(12)] by (simp_all add: execute_awaiter_dtor_def)
  then show ?thesis unfolding sync resume rec
    by (cases E; cases "get_response_code (fst code) (snd code)") (auto simp: Let_def blank split: sum.splits option.splits)
qed

abbreviation willing :: lib where
  "willing \<equiv> \<lambda>_ _. 0"

abbreviation awaited_configured :: "(step \<times> heap) option" where
  "awaited_configured \<equiv> prepare_handle willing small_append small_free (\<lambda>_. 7) request_example Inline_body (snd (handle_ctor willing True)) Map.empty"

lemma awaited_configures:
  "fst (handle_ctor willing True) = None"
  "map_option (\<lambda>r. (fst (fst r), h_multi (snd (fst r)), m_flags (snd (fst r)))) awaited_configured = Some (None, None, 0)"
  by code_simp+

definition awaited_example :: exec where
  "awaited_example = exec_example\<lparr>handles := (\<lambda>_. handle_blank)\<rparr>"

abbreviation awaited_events :: "transfer_event list" where
  "awaited_events \<equiv> [Header_line (''A: b'' @ line_end)]"

lemma awaited_answers:
  "fold (deliver Inline_body) awaited_events http_response_blank = http_response_blank\<lparr>resp_headers := [(''A'', ''b'')]\<rparr>"
  by code_simp

lemma awaited_answers2:
  "get_response_code 0 200 = Inr 200" "get_info 0x400000 0x40001c 0 ([] :: string list) = Inr []"
  by (simp_all add: get_response_code_def get_info_long_def get_info_def)

theorem async_like_sync_witness:
  "\<exists>s1 s2 a. execute_awaiter_ctor willing small_append small_free (\<lambda>_. 7) False True 3 request_example Inline_body awaited_example Map.empty = Some (Inr s1) \<and>
     execute_await_suspend (\<lambda>h. (None, h)) 3 5 0 s1 = Some s2 \<and>
     async_run 3 5 Inline_body (\<lambda>_. []) \<lparr>worker = s2, received = http_response_blank\<rparr> awaited_events a \<and>
     filter (about 5) (performed (worker a)) = [Done_cb 5 0] \<and>
     execute_await_resume (\<lambda>h. (None, h)) 0 (0, 200) (handles (worker a) 3) (received a)
       = Inr (http_response_blank\<lparr>resp_headers := [(''A'', ''b'')], status_code := 200\<rparr>)"
proof -
  obtain h0 where c0: "handle_ctor willing True = (None, h0)" using awaited_configures(1) by (metis prod.collapse)
  obtain h1 hp where h1: "prepare_handle willing small_append small_free (\<lambda>_. 7) request_example Inline_body h0 Map.empty = Some ((None, h1), hp)"
      "h_multi h1 = None" "m_flags h1 = 0"
    using awaited_configures(2) by (auto simp: c0)
  define s1 where "s1 = upd_handle 3 h1 awaited_example"
  define h2 where "h2 = h1\<lparr>m_done_callback := Some 5, h_executor := Some 0, h_multi := Some 0\<rparr>"
  define s2 where "s2 = upd_handle 3 h2 s1"
  define a1 where "a1 = \<lparr>worker = s2, received = fold (deliver Inline_body) awaited_events http_response_blank\<rparr>"
  define a2 where "a2 = a1\<lparr>worker := act (Finished 3 0) s2\<rparr>"
  define a where "a = a2\<lparr>worker := run_job (\<lambda>_. []) (Done_cb 5 0) ((worker a2)\<lparr>m_queue := []\<rparr>)\<rparr>"
  have c: "execute_awaiter_ctor willing small_append small_free (\<lambda>_. 7) False True 3 request_example Inline_body awaited_example Map.empty = Some (Inr s1)"
    using h1 c0 by (simp add: execute_awaiter_ctor_def s1_def)
  have y: "execute_sync willing small_append small_free (\<lambda>_. 7) (\<lambda>h. (None, h)) (\<lambda>h. (None, h)) True awaited_events (0, 200) (0, [])
     request_example Inline_body Map.empty = Some (Inr (http_response_blank\<lparr>resp_headers := [(''A'', ''b'')], status_code := 200\<rparr>))"
    using h1 c0 awaited_answers awaited_answers2 by (simp add: execute_sync_def perform_def next_do_def http_response_blank_def)
  have u: "execute_await_suspend (\<lambda>h. (None, h)) 3 5 0 s1 = Some s2"
    using h1 by (simp add: execute_await_suspend_def exec_await_suspend_def exec_add_handle_def upd_handle_def set_donefunction_def
        multi_add_handle_def multi_result_def is_connect_only_def s2_def h2_def s1_def)
  have e: "m_queue awaited_example = []" "performed awaited_example = []" "handles awaited_example = (\<lambda>_. handle_blank)"
    by (simp_all add: awaited_example_def exec_example_def)
  have q: "worker a2 = s2\<lparr>handles := handles (act (Finished 3 0) s2), m_queue := [Done_cb 5 0]\<rparr>"
    by (simp add: a2_def a1_def s2_def s1_def h2_def upd_handle_def handle_event_def exec_push_def e Let_def)
  have "async_run 3 5 Inline_body (\<lambda>_. []) \<lparr>worker = s2, received = http_response_blank\<rparr> ([] @ awaited_events) a1"
    by (rule async_run.more [OF async_run.start], unfold a1_def) (use async_step.delivered [of "\<lparr>worker = s2, received = http_response_blank\<rparr>" 3] in \<open>simp add: s2_def h2_def upd_handle_def\<close>)
  then have "async_run 3 5 Inline_body (\<lambda>_. []) \<lparr>worker = s2, received = http_response_blank\<rparr> awaited_events a1" by simp
  moreover have "async_step 3 5 Inline_body (\<lambda>_. []) a1 [] a2"
    unfolding a2_def using async_step.finished [of a1 3] by (simp add: a1_def s2_def h2_def upd_handle_def)
  moreover have "async_step 3 5 Inline_body (\<lambda>_. []) a2 [] a" unfolding a_def by (rule async_step.runs) (simp add: q)
  ultimately have r: "async_run 3 5 Inline_body (\<lambda>_. []) \<lparr>worker = s2, received = http_response_blank\<rparr> awaited_events a"
    by (metis async_run.more append_Nil2)
  have d: "Done_cb 5 0 \<in> set (performed (worker a))" by (simp add: a_def run_job_def)
  have l: "(\<lambda>h. (None, h)) (handles s1 3) = (None, h1)" by (simp add: s1_def upd_handle_def)
  note result = async_like_sync [OF c, of "\<lambda>h. (None, h)", OF l h1(2) refl _ _ _ _ _ u r d, of _ None]
  have b: "m_done_callback handle_blank \<noteq> Some 5" by (simp add: handle_blank_def)
  from result [of "\<lambda>h. (None, h)" 0 0 "(0, 200)" "(0, [])"] have p: "filter (about 5) (performed (worker a)) = [Done_cb 5 0]" and
    "\<exists>resp. execute_await_resume (\<lambda>h. (None, h)) 0 (0, 200) (handles (worker a) 3) (received a) = Inr resp \<and> resp_cookies resp = [] \<and>
      http_response_blank\<lparr>resp_headers := [(''A'', ''b'')], status_code := 200\<rparr> = resp\<lparr>resp_cookies := []\<rparr>"
    unfolding y by (auto simp: e b awaited_answers2 Let_def)
  then have "execute_await_resume (\<lambda>h. (None, h)) 0 (0, 200) (handles (worker a) 3) (received a)
      = Inr (http_response_blank\<lparr>resp_headers := [(''A'', ''b'')], status_code := 200\<rparr>)"
    by (metis (no_types, lifting) http_response.surjective http_response.update_convs(4))
  with c u r p show ?thesis by blast
qed

end
