(* ===== verification/Rounds.thy ===== *)
theory Rounds
  imports Executor "HOL-Library.Multiset"
begin

text \<open>
  One round of the executor's thread from its events to its poll: that the loop over the queue ends, when
  the functions pushed do not push for ever, what it runs and in which order, and when the thread returns.
\<close>

text \<open>What running a job enters into \<open>performed\<close>: a cancellation calls the done callback with \<open>CURLE_ABORTED_BY_CALLBACK\<close>.\<close>

fun job_run :: "job \<Rightarrow> job" where
  "job_run (Abort _ cb) = Done_cb cb 42"
| "job_run j = j"

lemma run_job_effect:
  "performed (run_job pushes j s) = performed s @ [job_run j]" "m_queue (run_job pushes j s) = m_queue s @ pushes (job_run j)"
  "m_exit (run_job pushes j s) = m_exit s"
  by (cases j; simp add: run_job_def upd_handle_def Let_def)+

lemma about_job_run [simp]: "about cb (job_run j) = about cb j"
  by (cases j) auto

lemma user_job_run: "list_all is_User js \<Longrightarrow> map job_run js = js \<and> filter (about cb) js = []"
  by (induction js) (auto simp: is_User_def)

text \<open>Every job pushed by a job weighs less than it.\<close>

definition ends :: "(job \<Rightarrow> nat) \<Rightarrow> (job \<Rightarrow> job list) \<Rightarrow> bool" where
  "ends weight pushes \<longleftrightarrow> (\<forall>j. list_all (\<lambda>k. is_User k \<and> weight k < weight j) (pushes j))"

definition load :: "(job \<Rightarrow> nat) \<Rightarrow> exec \<Rightarrow> nat multiset" where
  "load weight s = image_mset (\<lambda>j. weight (job_run j)) (mset (m_queue s))"

lemma load_decreases:
  assumes "ends weight pushes" "m_queue s = j # q"
  shows "(load weight (run_job pushes j (s\<lparr>m_queue := q\<rparr>)), load weight s) \<in> mult {(x, y). x < y}"
proof -
  let ?w = "\<lambda>j. weight (job_run j)"
  have "job_run k = k" if "is_User k" for k using that by (cases k) auto
  then have "\<forall>k \<in> set (pushes (job_run j)). ?w k < ?w j" using assms(1) by (auto simp: ends_def list_all_iff)
  then have "(image_mset ?w (mset q) + image_mset ?w (mset (pushes (job_run j))), image_mset ?w (mset q) + {#?w j#}) \<in> mult {(x, y). x < y}"
    by (intro one_step_implies_mult) auto
  then show ?thesis by (simp add: load_def run_job_effect assms(2) add.commute)
qed

lemma wf_load: "wf (mult {(x :: nat, y). x < y})"
  by (rule wf_mult) (simp add: wf)

text \<open>The loop ends: it runs the queue in its order, then what was pushed, and empties it.\<close>

lemma drain_all:
  assumes "ends weight pushes"
  shows "\<exists>s' more. drain pushes n s = Some (m_exit s \<and> n = 0, s') \<and> performed s' = performed s @ map job_run (m_queue s) @ more \<and>
    list_all is_User more \<and> m_queue s' = [] \<and> m_scheduled s' = m_scheduled s"
proof (induction "load weight s" arbitrary: s rule: wf_induct_rule [OF wf_load])
  case (1 s)
  show ?case
  proof (cases "m_queue s")
    case Nil
    then show ?thesis by (subst drain.simps) simp
  next
    case (Cons j q)
    let ?s = "run_job pushes j (s\<lparr>m_queue := q\<rparr>)"
    obtain s' more where r: "drain pushes n ?s = Some (m_exit ?s \<and> n = 0, s')" "performed s' = performed ?s @ map job_run (m_queue ?s) @ more"
        "list_all is_User more" "m_queue s' = []" "m_scheduled s' = m_scheduled ?s"
      using 1 [OF load_decreases [OF assms Cons]] by blast
    have u: "list_all is_User (pushes (job_run j))" using assms by (simp add: ends_def list_all_iff)
    have "drain pushes n s = Some (m_exit s \<and> n = 0, s')" using r(1) by (subst drain.simps) (simp add: Cons run_job_effect)
    moreover have "performed s' = performed s @ map job_run (m_queue s) @ (pushes (job_run j) @ more)"
      using r(2) user_job_run [OF u] by (simp add: run_job_effect Cons)
    ultimately show ?thesis using r(3-5) u by (intro exI [of _ s'] exI [of _ "pushes (job_run j) @ more"]) simp
  qed
qed

lemma run_scheduled_users:
  assumes "ends weight pushes" "list_all is_User (map snd (m_scheduled s))"
  shows "\<exists>more. performed (snd (run_scheduled pushes now timeout s)) = performed s @ more \<and> list_all is_User more"
  using assms(2)
proof (induction "m_scheduled s" arbitrary: s)
  case Nil
  from Nil.hyps [symmetric] show ?case by (subst run_scheduled.simps) simp
next
  case (Cons e later)
  obtain time fn where e: "m_scheduled s = (time, fn) # later" using Cons.hyps(2) [symmetric] by (cases e) simp
  show ?case
  proof (cases "millis (time - now) > 100")
    case True
    with e show ?thesis by (subst run_scheduled.simps) (simp add: Let_def)
  next
    case False
    let ?s = "run_job pushes fn (s\<lparr>m_scheduled := later\<rparr>)"
    obtain more where "performed (snd (run_scheduled pushes now timeout ?s)) = performed ?s @ more" "list_all is_User more"
      using Cons.hyps(1) [of ?s] Cons.prems e by auto
    moreover have "run_scheduled pushes now timeout s = run_scheduled pushes now timeout ?s"
      using False e by (subst run_scheduled.simps) (simp add: Let_def)
    moreover have "job_run fn = fn \<and> is_User fn" using Cons.prems e by (cases fn) auto
    ultimately show ?thesis by (intro exI [of _ "fn # more"]) (simp add: run_job_effect)
  qed
qed

lemma events_as_acts: "fold handle_event evts s = fold act (map (\<lambda>e. Finished (msg_handle e) (result_code e)) (filter is_done evts)) s"
proof (induction evts arbitrary: s)
  case (Cons e evts)
  have "handle_event e s = (if is_done e then act (Finished (msg_handle e) (result_code e)) s else s)"
    by (simp add: handle_event_def Let_def split: option.split)
  with Cons show ?case by simp
qed simp

lemma events_kept: "performed (fold handle_event evts s) = performed s" "m_scheduled (fold handle_event evts s) = m_scheduled s"
proof -
  have "performed (handle_event e s) = performed s \<and> m_scheduled (handle_event e s) = m_scheduled s" for e s
    by (simp add: handle_event_def upd_handle_def exec_push_def Let_def split: option.splits)
  then show "performed (fold handle_event evts s) = performed s" "m_scheduled (fold handle_event evts s) = m_scheduled s"
    by (induction evts arbitrary: s) simp_all
qed

text \<open>
  C21: The round in which libcurl reports that a transfer has finished runs its done callback: the loop over
  the queue ends, the callback is called once, with the result, and not again in this round, provided that
  the functions of the users that run meanwhile do not push for ever.
\<close>

theorem finished_transfer_reported:
  assumes "m_done_callback (handles s i) = Some cb" "\<forall>k. k \<noteq> i \<longrightarrow> m_done_callback (handles s k) \<noteq> Some cb"
    "list_all (\<lambda>j. \<not> about cb j) (m_queue s)" "List.find (\<lambda>e. is_done e \<and> msg_handle e = i) evts = Some evt"
    "ends weight pushes" "list_all is_User (map snd (m_scheduled s))"
  shows "\<exists>returns t s'. worker_round pushes still_running evts curl_timeout now s = Some (returns, t, s') \<and>
    filter (about cb) (performed s') = filter (about cb) (performed s) @ [Done_cb cb (result_code evt)] \<and>
    (returns \<longleftrightarrow> m_exit (fold handle_event evts s) \<and> still_running = 0)"
proof -
  let ?s = "fold handle_event evts s"
  have f: "List.find (\<lambda>a. target a = i) (map (\<lambda>e. Finished (msg_handle e) (result_code e)) (filter is_done evts)) =
      map_option (\<lambda>e. Finished (msg_handle e) (result_code e)) (List.find (\<lambda>e. is_done e \<and> msg_handle e = i) evts)"
    by (induction evts) simp_all
  have "filter (about cb) (m_queue s) = []" using assms(3) by (simp add: list_all_iff filter_empty_conv)
  then have q: "filter (about cb) (m_queue ?s) = [Done_cb cb (result_code evt)]"
    using acts_once [of i s cb] assms(1,2,4) by (simp add: events_as_acts f)
  obtain s1 more where d: "drain pushes still_running ?s = Some (m_exit ?s \<and> still_running = 0, s1)"
      "performed s1 = performed ?s @ map job_run (m_queue ?s) @ more" "list_all is_User more" "m_scheduled s1 = m_scheduled ?s"
    using drain_all [OF assms(5), of still_running ?s] by blast
  have "filter (about cb) (map job_run js) = map job_run (filter (about cb) js)" for js by (simp add: filter_map comp_def)
  then have p: "filter (about cb) (performed s1) = filter (about cb) (performed s) @ [Done_cb cb (result_code evt)]"
    using d(2) q user_job_run [OF d(3)] by (simp add: events_kept)
  show ?thesis
  proof (cases "(m_exit ?s \<and> still_running = 0) \<or> curl_timeout = 0")
    case True
    then show ?thesis using d(1) p by (auto simp: worker_round_def split: bool.split)
  next
    case False
    let ?r = "run_scheduled pushes now (if curl_timeout < 0 then 500 else curl_timeout) s1"
    obtain more' where m: "performed (snd ?r) = performed s1 @ more'" "list_all is_User more'"
      using run_scheduled_users [OF assms(5)] assms(6) d(4) by (metis events_kept(2))
    have "worker_round pushes still_running evts curl_timeout now s = Some (False, Some (fst ?r), snd ?r)"
      using d(1) False by (auto simp: worker_round_def split: prod.splits bool.split)
    moreover have "filter (about cb) (performed (snd ?r)) = filter (about cb) (performed s) @ [Done_cb cb (result_code evt)]"
      using m p user_job_run [OF m(2)] by simp
    ultimately show ?thesis using False by blast
  qed
qed

text \<open>In the example a user's function is queued, which pushes another; the callback 5 is called between the two.\<close>

theorem finished_transfer_reported_witness:
  "\<exists>returns t s'. worker_round (\<lambda>j. if j = User 1 then [User 2] else []) 1 [\<lparr>is_done = True, msg_handle = 3, result_code = 7\<rparr>] 0 0
     (exec_example\<lparr>handles := (\<lambda>_. handle_blank)(3 := handle_blank\<lparr>m_done_callback := Some 5\<rparr>), m_queue := [User 1]\<rparr>) = Some (returns, t, s') \<and>
     filter (about 5) (performed s') = [Done_cb 5 7] \<and> \<not> returns"
proof -
  have s: "list_all is_User (map snd (scheduled_by [(300000000, User 11), (90000000, User 12), (10000000, User 13)]))"
    by (simp add: scheduled_by_def)
  have e: "ends (\<lambda>j. if j = User 1 then 2 else if j = User 2 then 1 else 0) (\<lambda>j. if j = User 1 then [User 2] else [])"
    by (simp add: ends_def)
  show ?thesis
    using finished_transfer_reported [of "exec_example\<lparr>handles := (\<lambda>_. handle_blank)(3 := handle_blank\<lparr>m_done_callback := Some 5\<rparr>), m_queue := [User 1]\<rparr>"
        3 5 "[\<lparr>is_done = True, msg_handle = 3, result_code = 7\<rparr>]" _ _ _ 1 0 0, OF _ _ _ _ e]
    by (simp add: exec_example_def handle_blank_def s)
qed

end
