(* ===== verification/Old_Curl.thy ===== *)
theory Old_Curl
  imports Executor Version
begin

text \<open>
  What the library is when it is compiled against an older libcurl (\<open>CURL_AT_LEAST_VERSION\<close>): the
  branches of \<open>version.cpp\<close>, \<open>handle.cpp\<close> and \<open>multi.cpp\<close> that the other theories leave out. \<open>build\<close> is
  \<open>LIBCURL_VERSION_NUM\<close>. Before 7.68.0 libcurl cannot be woken: \<open>multi\<close> then waits on an eventfd beside
  the other sockets. The eventfd of the kernel, of type \<open>'k\<close>, and \<open>curl_multi_wait\<close> are arguments.
\<close>

definition at_least :: "nat \<Rightarrow> nat \<Rightarrow> nat \<Rightarrow> nat \<Rightarrow> bool" where
  "at_least build x y z \<longleftrightarrow> build \<ge> x * 65536 + y * 256 + z"

subsection \<open>version\<close>

definition iconv_version_built where "iconv_version_built build info = (if at_least build 7 16 1 then iconv_version info else [])"
definition iconv_num_built where "iconv_num_built build info = (if at_least build 7 16 1 then iconv_num info else -1)"
definition libssh_version_built where "libssh_version_built build info = (if at_least build 7 16 1 then libssh_version info else [])"
definition brotli_version_num_built where "brotli_version_num_built build info = (if at_least build 7 57 0 then brotli_version_num info else -1)"
definition brotli_version_built where "brotli_version_built build info = (if at_least build 7 57 0 then brotli_version info else [])"
definition nghttp2_version_num_built where "nghttp2_version_num_built build info = (if at_least build 7 66 0 then nghttp2_version_num info else -1)"
definition nghttp2_version_built where "nghttp2_version_built build info = (if at_least build 7 66 0 then nghttp2_version info else [])"
definition quic_version_built where "quic_version_built build info = (if at_least build 7 66 0 then quic_version info else [])"
definition cainfo_built where "cainfo_built build info = (if at_least build 7 70 0 then cainfo info else [])"
definition capath_built where "capath_built build info = (if at_least build 7 70 0 then capath info else [])"
definition zstd_version_num_built where "zstd_version_num_built build info = (if at_least build 7 71 0 then zstd_version_num info else -1)"
definition zstd_version_built where "zstd_version_built build info = (if at_least build 7 71 0 then zstd_version info else [])"
definition hyper_version_built where "hyper_version_built build info = (if at_least build 7 75 0 then hyper_version info else [])"
definition gsasl_version_built where "gsasl_version_built build info = (if at_least build 7 77 0 then gsasl_version info else [])"

lemmas built_defs = iconv_version_built_def iconv_num_built_def libssh_version_built_def brotli_version_num_built_def
  brotli_version_built_def nghttp2_version_num_built_def nghttp2_version_built_def quic_version_built_def cainfo_built_def
  capath_built_def zstd_version_num_built_def zstd_version_built_def hyper_version_built_def gsasl_version_built_def

lemmas since_defs = iconv_version_def iconv_num_def libssh_version_def brotli_version_num_def brotli_version_def
  nghttp2_version_num_def nghttp2_version_def quic_version_def cainfo_def capath_def zstd_version_num_def zstd_version_def
  hyper_version_def gsasl_version_def since_text_def since_num_def since_int_def

text \<open>
  With the record of an old libcurl it does not matter what the library was compiled against: the
  fallbacks of the compiler and those on the age of the record agree.
\<close>

lemma fallbacks_agree:
  "age info < 3 \<Longrightarrow> iconv_version_built b info = iconv_version info \<and> iconv_num_built b info = iconv_num info \<and>
     libssh_version_built b info = libssh_version info"
  "age info < 4 \<Longrightarrow> brotli_version_num_built b info = brotli_version_num info \<and> brotli_version_built b info = brotli_version info"
  "age info < 5 \<Longrightarrow> nghttp2_version_num_built b info = nghttp2_version_num info \<and> nghttp2_version_built b info = nghttp2_version info \<and>
     quic_version_built b info = quic_version info"
  "age info < 6 \<Longrightarrow> cainfo_built b info = cainfo info \<and> capath_built b info = capath info"
  "age info < 7 \<Longrightarrow> zstd_version_num_built b info = zstd_version_num info \<and> zstd_version_built b info = zstd_version info"
  "age info < 8 \<Longrightarrow> hyper_version_built b info = hyper_version info"
  "age info < 9 \<Longrightarrow> gsasl_version_built b info = gsasl_version info"
  by (simp_all add: built_defs since_defs)

subsection \<open>handle\<close>

text \<open>\<open>curl_easy_upkeep\<close> is called from 7.62.0 on.\<close>

definition upkeep_built :: "nat \<Rightarrow> lib \<Rightarrow> handle \<Rightarrow> step" where
  "upkeep_built build lib h = (if at_least build 7 62 0 then upkeep lib h else (None, h))"

text \<open>Blobs came with 7.71.0.\<close>

definition set_option_blob_built :: "nat \<Rightarrow> lib \<Rightarrow> int \<Rightarrow> bytes \<Rightarrow> bool \<Rightarrow> handle \<Rightarrow> step" where
  "set_option_blob_built build lib opt blob copy h =
     (if at_least build 7 71 0 then set_option_blob lib opt blob copy h else (Some Runtime_error, h))"

subsection \<open>multi\<close>

text \<open>What the constructor and the destructor call; a failed constructor calls no destructor.\<close>

datatype multi_call = Multi_cleanup | Close int

definition multi_ctor_old :: "bool \<Rightarrow> int \<Rightarrow> (cpp_error + int) \<times> multi_call list" where
  "multi_ctor_old init_ok eventfd =
     (if \<not> init_ok then (Inl Runtime_error, [])
      else if eventfd < 0 then (Inl Runtime_error, [Multi_cleanup])
      else (Inr eventfd, []))"

definition multi_dtor_old :: "int \<Rightarrow> multi_call list" where
  "multi_dtor_old m_wakeup = Multi_cleanup # (if m_wakeup \<ge> 0 then [Close m_wakeup] else [])"

lemma multi_released:
  "fst (multi_ctor_old True fd) = Inr w \<Longrightarrow> multi_dtor_old w = [Multi_cleanup, Close fd]"
  "fst (multi_ctor_old ok fd) = Inl e \<Longrightarrow> snd (multi_ctor_old ok fd) = (if ok then [Multi_cleanup] else [])"
  by (auto simp: multi_ctor_old_def multi_dtor_old_def split: if_splits)

record waitfd =
  w_fd :: int
  w_events :: "16 word"
  w_revents :: "16 word"

definition wait_pollin :: "16 word" where "wait_pollin = 1"
definition wait_pollpri :: "16 word" where "wait_pollpri = 2"
definition wait_pollout :: "16 word" where "wait_pollout = 4"

text \<open>
  \<open>curl_multi_wait\<close> gives, from the sockets and the timeout, its result, the sockets with what they are
  ready for, and how many are ready. \<open>poll\<close> hands it a copy of the sockets, and the eventfd.
\<close>

type_synonym multi_waiter = "waitfd list \<Rightarrow> int \<Rightarrow> int \<times> waitfd list \<times> int"

definition multi_poll_old :: "multi_waiter \<Rightarrow> ('k \<Rightarrow> 'k) \<Rightarrow> int \<Rightarrow> waitfd list \<Rightarrow> int \<Rightarrow> 'k \<Rightarrow> cpp_error option \<times> waitfd list \<times> int \<times> 'k" where
  "multi_poll_old wait read m_wakeup extra_fds timeout_ms k =
     (let extra = extra_fds @ [\<lparr>w_fd = m_wakeup, w_events = wait_pollin, w_revents = 0\<rparr>] in
      case wait extra timeout_ms of (res, extra, num_fds) \<Rightarrow>
      case multi_result res of Some e \<Rightarrow> (Some e, extra_fds, num_fds, k) | None \<Rightarrow> (None, extra_fds, num_fds, read k))"

text \<open>For comparison \<open>poll\<close> on \<open>curl_multi_poll\<close>, which works on the sockets themselves.\<close>

definition multi_poll_new :: "multi_waiter \<Rightarrow> waitfd list \<Rightarrow> int \<Rightarrow> cpp_error option \<times> waitfd list \<times> int" where
  "multi_poll_new wait extra_fds timeout_ms =
     (case wait extra_fds timeout_ms of (res, fds, num_fds) \<Rightarrow> (multi_result res, fds, num_fds))"

text \<open>\<open>wakeup\<close>: the result of the \<open>write\<close> is not looked at.\<close>

definition multi_wakeup_old :: "('k \<Rightarrow> 'k) \<Rightarrow> 'k \<Rightarrow> 'k" where
  "multi_wakeup_old write k = write k"

subsection \<open>The poll of the executor\<close>

text \<open>The sockets as the thread fills them in, from \<open>poll_set\<close>, and the handles it finds ready.\<close>

definition fill_fds :: "(nat \<Rightarrow> nat option) \<Rightarrow> (nat \<times> bool \<times> bool) list \<Rightarrow> waitfd list" where
  "fill_fds sockets ps =
     map (\<lambda>(i, rin, rout). \<lparr>w_fd = int (the (sockets i)),
       w_events = (if rin then wait_pollin OR wait_pollpri else 0) OR (if rout then wait_pollout else 0), w_revents = 0\<rparr>) ps"

definition ready_handles :: "(nat \<Rightarrow> nat) \<Rightarrow> (nat \<times> bool \<times> bool) list \<Rightarrow> waitfd list \<Rightarrow> int \<Rightarrow> (nat \<times> bool \<times> bool \<times> nat) list" where
  "ready_handles answer ps fds num_fds =
     (if num_fds = 0 then []
      else map (\<lambda>((i, _), fd). (i, w_revents fd AND wait_pollin \<noteq> 0, w_revents fd AND wait_pollout \<noteq> 0, answer i)) (zip ps fds))"

definition poll_and_serve :: "lib \<Rightarrow> (nat \<Rightarrow> nat) \<Rightarrow> (nat \<Rightarrow> nat option) \<Rightarrow> (waitfd list \<Rightarrow> waitfd list \<times> int) \<Rightarrow> exec \<Rightarrow> exec" where
  "poll_and_serve lib answer sockets poll s =
     (let ps = poll_set sockets s; (fds, num_fds) = poll (fill_fds sockets ps) in
      after_poll lib (ready_handles answer ps fds num_fds) s)"

lemma unready_untouched: "list_all (\<lambda>(_, rin, rout, _). \<not> rin \<and> \<not> rout) ready \<Longrightarrow> after_poll lib ready s = s"
  by (induction ready) (auto simp: after_poll_def ready_handle_def Let_def)

text \<open>
  On a libcurl before 7.68.0 what \<open>curl_multi_wait\<close> finds ready never reaches the caller of \<open>poll\<close>:
  whatever it answers, the thread serves no connect-only handle, neither its receivers nor its senders.
\<close>

theorem old_poll_serves_none:
  "poll_and_serve lib answer sockets (\<lambda>fds. case multi_poll_old wait read m_wakeup fds timeout k of (_, fds, n, _) \<Rightarrow> (fds, n)) s = s"
proof -
  have "fst (snd (multi_poll_old wait read m_wakeup fds timeout k)) = fds" for fds
    by (simp add: multi_poll_old_def Let_def split: prod.split option.split)
  then have p: "(case multi_poll_old wait read m_wakeup fds timeout k of (_, fds, n, _) \<Rightarrow> (fds, n)) =
      (fds, fst (snd (snd (multi_poll_old wait read m_wakeup fds timeout k))))" for fds
    by (cases "multi_poll_old wait read m_wakeup fds timeout k") (metis fst_conv snd_conv case_prod_conv)
  have "list_all (\<lambda>(_, rin, rout, _). \<not> rin \<and> \<not> rout) (ready_handles answer ps (fill_fds sockets ps) n)" for ps n
    by (auto simp: ready_handles_def fill_fds_def list_all_iff zip_map2 dest!: set_zip_leftD split: prod.splits)
  then show ?thesis unfolding poll_and_serve_def p Let_def by (simp add: unready_untouched)
qed

text \<open>With \<open>curl_multi_poll\<close> a ready receiver that takes nothing is paused.\<close>

lemma new_poll_serves:
  fixes s :: exec
  assumes "m_connect_only_handles s = [3]" "handles s 3 = handle_blank"
  shows "m_flags (handles (poll_and_serve (\<lambda>_ _. 0) (\<lambda>_. 0) (\<lambda>_. Some 9)
    (\<lambda>fds. case multi_poll_new (\<lambda>fds _. (0, map (\<lambda>f. f\<lparr>w_revents := wait_pollin\<rparr>) fds, 1)) fds 500 of (_, fds, n) \<Rightarrow> (fds, n)) s) 3) = 1"
  using assms
  by (simp add: poll_and_serve_def poll_set_def fill_fds_def multi_poll_new_def ready_handles_def after_poll_def ready_handle_def Let_def
      handle_blank_def is_paused_def pause_def curl_pause_def upd_handle_def flag_values wait_pollin_def wait_pollout_def)

end
