(* ===== verification/Iteration.thy ===== *)
theory Iteration
  imports Slist Version
begin

text \<open>
  The two iterators of the library at work: \<open>slist_iterator\<close> (\<open>curl/slist.h\<close>), with the copy
  constructors of \<open>slist\<close>, and \<open>cstring_array_iterator\<close> with its \<open>helper\<close> (\<open>curl/version.h\<close>). A
  range-based \<open>for\<close> over a list sees exactly its texts.
\<close>

subsection \<open>slist\<close>

definition slist_copy_raw :: "c_append \<Rightarrow> c_free \<Rightarrow> ptr \<Rightarrow> heap \<Rightarrow> slist heap_result" where
  "slist_copy_raw app free raw h = copy_slist app free raw h"

definition slist_copy :: "c_append \<Rightarrow> c_free \<Rightarrow> slist \<Rightarrow> heap \<Rightarrow> slist heap_result" where
  "slist_copy app free other h = copy_slist app free (m_first_node other) h"

definition slist_is_empty :: "slist \<Rightarrow> bool" where "slist_is_empty l \<longleftrightarrow> m_first_node l = None"
definition slist_begin :: "slist \<Rightarrow> ptr" where "slist_begin l = m_first_node l"
definition slist_end :: "slist \<Rightarrow> ptr" where "slist_end l = None"
definition iterator_equal :: "ptr \<Rightarrow> ptr \<Rightarrow> bool" where "iterator_equal a b \<longleftrightarrow> a = b"

text \<open>\<open>it++\<close>: the value of the expression and the iterator after.\<close>

definition iterator_post_next :: "ptr \<Rightarrow> heap \<Rightarrow> (ptr \<times> ptr) option" where
  "iterator_post_next it h = map_option (\<lambda>next. (it, next)) (iterator_next it h)"

partial_function (option) slist_collect :: "heap \<Rightarrow> slist \<Rightarrow> ptr \<Rightarrow> string list \<Rightarrow> string list option" where
  "slist_collect h l it seen =
     (if iterator_equal it (slist_end l) then Some seen
      else case iterator_post_next it h of None \<Rightarrow> None | Some (it, next) \<Rightarrow>
        case iterator_value it h of None \<Rightarrow> None | Some x \<Rightarrow> slist_collect h l next (seen @ [x]))"

lemma slist_collect_lseg: "lseg h it ns None \<Longrightarrow> slist_collect h l it seen = Some (seen @ map snd ns)"
proof (induction ns arbitrary: it seen)
  case Nil
  then show ?case by (subst slist_collect.simps) (simp add: iterator_equal_def slist_end_def)
next
  case (Cons n ns)
  obtain a x where n: "n = (a, x)" by (cases n)
  with Cons.prems obtain c where c: "it = Some a" "h a = Some c" "node_data c = x" "lseg h (node_next c) ns None"
    by (auto split: option.splits)
  with Cons.IH [OF c(4), of "seen @ [x]"] show ?case
    by (subst slist_collect.simps)
      (simp add: n iterator_equal_def slist_end_def iterator_post_next_def iterator_next_def iterator_value_def)
qed

lemma slist_iteration:
  assumes "holds h l ns"
  shows "slist_collect h l (slist_begin l) [] = Some (map snd ns) \<and> (slist_is_empty l \<longleftrightarrow> ns = [])"
proof -
  have s: "lseg h (m_first_node l) ns None" using assms by (simp add: holds_def)
  moreover have "m_first_node l = None \<longleftrightarrow> ns = []" using s by (cases ns) auto
  ultimately show ?thesis using slist_collect_lseg by (simp add: slist_begin_def slist_is_empty_def)
qed

subsection \<open>cstring_array_iterator\<close>

definition it_post_advance :: "string list \<Rightarrow> cstring_iterator \<Rightarrow> cstring_iterator \<times> cstring_iterator" where
  "it_post_advance a it = (it, it_advance a it)"

definition it_differ :: "string list \<Rightarrow> cstring_iterator \<Rightarrow> cstring_iterator \<Rightarrow> bool" where
  "it_differ a it other \<longleftrightarrow> \<not> it_equal a it other"

definition helper_begin :: "cstring_iterator \<Rightarrow> cstring_iterator" where "helper_begin iterator = iterator"
definition helper_end :: "cstring_iterator \<Rightarrow> cstring_iterator" where "helper_end iterator = None"

text \<open>At the end of an array the iterator equals \<open>end()\<close>, but \<open>end()\<close> does not equal it.\<close>

lemma iterator_equality_asymmetric:
  "i \<ge> length a \<Longrightarrow> it_equal a (Some i) (helper_end it) \<and> it_differ a (helper_end it) (Some i)"
  by (simp add: it_equal_def it_differ_def helper_end_def)

text \<open>Advancing stops at the end: each step from there gives the end again.\<close>

lemma advance_stops: "it_equal a it (helper_end it) \<Longrightarrow> it_post_advance a it = (it, it)"
  by (auto simp: it_equal_def helper_end_def it_post_advance_def it_advance_def split: option.splits)

end
