(* ===== verification/Spec2Isabelle.thy ===== *)
theory Spec2Isabelle
  imports Utf8_Props Base64 Sha1_Props Uri_Props Header_Map Slist Cookie Version Handle Tcp_Client Executor Webclient
    Ws_Messages Ws_Lifecycle Ws_Handshake Ws_Outgoing Ws_Client Ws_Lifetime Ws_Compress Tcp_Poll Push_Wait Tcp_Deadlock Awaiters
    Web_Async Registry Rounds Old_Curl Iteration
begin

text \<open>
  A model of asyncpp-curl, a C++20 wrapper of libcurl with coroutines, and the properties that
  make it correct. The library has four layers, all under \<open>src/curl\<close> and \<open>include/asyncpp/curl\<close>:

  \<^item> helpers without state: \<open>util.h\<close>, \<open>base64.cpp\<close>, \<open>sha1.cpp\<close>, \<open>uri.cpp\<close>, \<open>cookie.h\<close>, \<open>version.cpp\<close>;
  \<^item> objects around libcurl's: \<open>slist\<close> (linked lists of strings), \<open>handle\<close> (one transfer), \<open>multi\<close>
    (a table of transfers);
  \<^item> \<open>executor\<close>, a thread that drives a \<open>multi\<close> and runs pushed and scheduled calls;
  \<^item> clients on top: \<open>tcp_client\<close> (a connect-only handle, read and written by callbacks of the
    executor), \<open>webclient\<close> (HTTP requests) and \<open>websocket\<close> (RFC 6455 with permessage-deflate over a
    \<open>tcp_client\<close>).

  \<^bold>\<open>Theories and code.\<close>

  \<^item> \<open>Prelude\<close>, \<open>Cpp_Std\<close>: machine integers, bytes; the parts of the C++ library the sources use
    (searching, numbers and text, errors as values of \<open>cpp_error\<close>). A function that may not return
    has an \<open>outcome\<close>: \<open>None\<close>, an exception, or a result.
  \<^item> \<open>Util\<close>: the header comparator and the string helpers of \<open>util.h\<close>. \<open>Utf8\<close>: \<open>utf8_validator\<close>.
    \<open>Resumable\<close> is the interface of a check that can be continued on more input, and \<open>Utf8_Props\<close>
    interprets it: what is accepted, resumption, failing fast.
  \<^item> \<open>Base64\<close>, \<open>Sha1\<close>, \<open>Sha1_Props\<close>: \<open>base64.cpp\<close> and \<open>sha1.cpp\<close>, on either byte order. \<open>Codec\<close> and \<open>Streaming\<close>
    are their interfaces (a decoder that undoes an encoder; a state fed in pieces). \<open>Sha1_Props\<close>
    contains the algorithm of FIPS 180-4 as the reference and proves the macros on the circular
    block to compute it.
  \<^item> \<open>Uri\<close>, \<open>Uri_Props\<close>: \<open>uri.h\<close>, \<open>uri.cpp\<close>. \<open>Cookie\<close>: \<open>cookie.h\<close>. \<open>Version\<close>: \<open>version.h\<close>, \<open>version.cpp\<close>.
  \<^item> \<open>Header_Map\<close>: \<open>std::multimap\<close> under the contract of its comparator (locale \<open>weak_order\<close>), for header
    maps and for the executor's schedule.
  \<^item> \<open>Slist\<close>: \<open>slist.h\<close>, \<open>slist.cpp\<close> on an explicit heap of nodes. \<open>Iteration\<close>: the iterators of \<open>slist.h\<close> and
    \<open>version.h\<close> in a range-based \<open>for\<close>.
  \<^item> \<open>Handle\<close>: \<open>handle.h\<close>, \<open>handle.cpp\<close>, \<open>exception.cpp\<close>. The record \<open>handle\<close> has the fields of the class; the
    calls into libcurl are recorded with their results.
  \<^item> \<open>Executor\<close>: \<open>multi.cpp\<close> and \<open>executor.cpp\<close>. \<open>worker_thread\<close> is one round of the thread's loop;
    \<open>Rounds\<close>: that it ends, and what it runs. \<open>Registry\<close>:
    the handles of an executor from their construction to their destruction. \<open>Old_Curl\<close>: the branches of
    \<open>multi.cpp\<close>, \<open>version.cpp\<close> and \<open>handle.cpp\<close> for older versions of libcurl, with the eventfd of \<open>multi\<close>.
  \<^item> \<open>Tcp_Client\<close>: \<open>tcp_client.h\<close>, \<open>tcp_client.cpp\<close>. \<open>Webclient\<close>: \<open>webclient.h\<close>, \<open>webclient.cpp\<close>.
  \<^item> \<open>Ws_Frame\<close>: opcodes, big-endian numbers and the frame that \<open>send_frame\<close> writes. \<open>Ws_State\<close>: the record
    \<open>ws\<close> of \<open>websocket_state\<close> and every operation on an open connection (frame handlers,
    reassembly, parser loop, compression, close, the sending task). \<open>Ws_Handshake\<close>: construction,
    \<open>connect\<close>, the handshake, destruction. \<open>Ws_Parser\<close>, \<open>Ws_Messages\<close>, \<open>Ws_Lifecycle\<close> hold the proofs.
  \<^item> Where components meet, each theory puts the models of its parts together and adds only the code
    between them. \<open>Tcp_Poll\<close>: \<open>tcp_client\<close> on the loop of \<open>curl_multi_poll\<close>, what is waited for and what
    the poll is told. \<open>Push_Wait\<close>: callers of \<open>executor::push_wait\<close> beside the executor's thread, with the
    promise between them. \<open>Tcp_Deadlock\<close>: the same with the mutex of a \<open>tcp_client\<close>. \<open>Awaiters\<close>: the
    coroutines that wait for an operation of a \<open>tcp_client\<close>. \<open>Ws_Outgoing\<close>: what a websocket can
    queue. \<open>Ws_Client\<close>: a websocket, its \<open>tcp_client\<close> and its two tasks as one system. \<open>Ws_Lifetime\<close>: the
    references to the state of a websocket from its construction to its deletion. \<open>Ws_Compress\<close>:
    sending and receiving with permessage-deflate under the contract of zlib. \<open>Web_Async\<close>: a request
    of \<open>webclient\<close> awaited on the executor.

  \<^bold>\<open>How state is modelled.\<close> An operation takes and returns the record of its object. Calls of the
  user's callbacks are entries of a list (\<open>events\<close> of a websocket, \<open>performed\<close> of the executor,
  \<open>queue\<close> of a \<open>tcp_client\<close>); a callback itself is a number, or whether there is one. Interleavings
  are sequences of steps: \<open>ws_step\<close>, \<open>handle_step\<close>, \<open>tcp_step\<close> for one component, \<open>client_step\<close>, \<open>poll_step\<close>,
  \<open>life_step\<close>, \<open>pool_step\<close>, \<open>site_step\<close>, \<open>await_step\<close>, \<open>async_step\<close>, \<open>reg_step\<close> where components meet, and lists of actions in \<open>Executor\<close>. A
  step is what the code does while it holds a lock, or between two points where it waits; an operation that
  takes no lock is one step as well, unless a theory says otherwise (see below).

  \<^bold>\<open>Parameters.\<close> Code that is not in the repository is an argument: libcurl's results (\<open>lib\<close> in
  \<open>Handle\<close> and above it, and the answers given to each operation), \<open>curl_slist_append\<close> and
  \<open>curl_slist_free_all\<close> (hypotheses \<open>append_spec\<close> and \<open>free_spec\<close>), \<open>curl_easy_escape\<close> and
  \<open>curl_easy_unescape\<close> (\<open>escape_spec\<close>), zlib's two functions and the random generator (record \<open>env\<close> of
  \<open>Ws_State\<close>, the first with the contract \<open>zlib_ok\<close> in \<open>Ws_Compress\<close>), the clock, the bytes of the peer and how reads cut them, the hooks of a request. Each
  hypothesis is instantiated by a concrete function in the witnesses of the theorems using it.

  \<^bold>\<open>What is shown.\<close>

  \<^item> Helpers: the validator accepts exactly UTF-8 in shortest form and can be resumed; SHA-1 is the
    standard's for inputs up to 2^32 - 64 bytes, in any pieces; base64, uris, form data and cookies
    round-trip; a header map finds the first header of a name up to case.
  \<^item> Objects: list operations do what they say on the heap; a handle's flags agree with what libcurl
    has been told after any operations, failures included.
  \<^item> Executor: calls due are run in order; a transfer is reported exactly once, as finished or
    cancelled, whichever came first; the round in which libcurl reports
    it calls its callback; a handle that is destroyed is forgotten by its tables, unless it was made a plain
    transfer while registered, its await was cancelled, or it was destroyed during a cancellation.
  \<^item> Clients: \<open>send_all\<close> sends all, in order, and calls back once with the count, also when libcurl takes
    everything at once or ends early; no callback of a transfer is lost or doubled; a
    request tells libcurl what it holds, credentials included; a response has the headers of the last answer
    whose status line has a reason and of the answers after it; an awaited request ends like a synchronous
    one, with the same exception or the same response, but for the cookies.
  \<^item> WebSocket: what is sent is a frame of RFC 6455; frames are delivered however the stream is cut;
    fragmented messages are delivered whole; the handshake completes against a conforming server, whatever
    headers it sends and with or without compression, and reports once. The life of a connection refines a small abstract machine (\<open>conn_step\<close>), on which
    the closing handshake is proved by rule induction: one close frame, only pongs after it, one
    \<open>on_close\<close>, nothing delivered after that. All of it holds of the assembled client too once it is open
    (\<open>client_keeps_protocol\<close>); before that, close frames of the user are queued early.
  \<^item> The assembled system: however the connection takes the bytes, the wire holds the frames queued
    (\<open>client_history\<close>), in their order, their callbacks are told what became of each, and a server that
    follows the RFC reads them back; the sending task never sleeps
    on a frame; what a \<open>tcp_client\<close> waits for is polled, unless the user pauses it; a compressed message
    arrives when zlib's buffer of four times its size can hold it; entries
    pushed from any thread run in order, once, and the caller, which waits or is the executor's thread itself,
    gets the value or the exception of its own
    entry; a coroutine is resumed once for each time it waits; the state of a websocket lives as long
    as anyone can reach it, its plain-pointer handler included, and goes once a connection that was
    made has ended.
  \<^item> Where the code misbehaves a theorem says so: \<open>parser_hangs_on_wrapped_length\<close>,
    \<open>invalid_text_delivered\<close>, \<open>append_to_copy_misplaced\<close>, \<open>single_slash_becomes_host\<close>,
    \<open>empty_value_swallows_rest\<close>, \<open>bare_status_keeps_headers\<close>, \<open>connect_failure_reported_twice\<close>,
    \<open>base64_decode_in_bounds\<close>, \<open>sha1_update_hangs\<close>, \<open>reset_loses_nosignal\<close>, \<open>pedantic_refuses_feff\<close>,
    \<open>disconnect_deadlocks\<close>, \<open>wakeup_lost\<close>, \<open>short_message_cut\<close>, \<open>going_away_not_sent\<close>,
    \<open>stop_before_start_lost\<close>, \<open>close_unconnected_leaks\<close>, \<open>data_after_early_close\<close>, \<open>send_overtaken_by_close\<close>,
    \<open>failed_reconnect_unpolled\<close>, \<open>failed_reset_keeps_flags\<close>,
    \<open>failed_add_poisons_handle\<close>, \<open>dead_handle_polled\<close>, \<open>old_poll_serves_none\<close>, \<open>iterator_equality_asymmetric\<close>.

  \<^bold>\<open>Bounds and loops.\<close> No definition uses fuel. Loops that end are structural or have a measure;
  loops that may not (\<open>parse_loop\<close>, \<open>flate_loop\<close>, \<open>update_loop\<close>, \<open>drain\<close>, walks of lists) are partial
  functions, where not returning is \<open>None\<close>, and the theorems about them state that they return.
  Frames are bounded by \<open>frame_fits\<close> (payload below 2^62 bytes), texts for base64 by 2^62 octets, so that
  sizes do not wrap; the theorems on hanging show what happens beyond.

  \<^bold>\<open>Not modelled.\<close> Mutexes are modelled where they matter (\<open>Tcp_Deadlock\<close>) and the hand-over between
  threads in \<open>Push_Wait\<close> and \<open>Tcp_Poll\<close>; elsewhere an operation is one atomic step. For most that is what
  their lock makes it. The sends of a websocket take none: \<open>late_send\<close> in \<open>Ws_Client\<close> cuts them between
  the look at the state and the rest, and \<open>send_overtaken_by_close\<close> shows what comes of it; \<open>client_step\<close> takes
  them as one step, and so do all theorems on it. Still not modelled: the layout of coroutine frames (a coroutine is the sequence of
  its segments between suspensions); exceptions that leave a task or a handler, which end the program;
  verbose output; the variants for other operating systems; the eventfd itself, which is an argument;
  the moves of awaiter objects; allocation
  failure except where the code handles it; \<open>curl.h\<close>, an umbrella header.
\<close>

end
